theory Spec2Isabelle
  imports Main "HOL-Library.Word" "HOL-Library.Monad_Syntax"
begin

section \<open>Scalar types (types.hpp)\<close>

text \<open>
  \<open>OrderId\<close> and \<open>Timestamp\<close> wrap \<open>uint64_t\<close>; \<open>Qty\<close> wraps \<open>int64_t\<close> and is
  kept as a 64-bit word that is read two's complement (\<open>sint\<close>) wherever the source compares
  it, so that the level aggregate \<open>total_qty\<close> accumulates modulo \<open>2^64\<close>.
  \<open>Price\<close> wraps \<open>int64_t\<close> too; every price the engine computes is obtained from a
  validated price in \<open>[0, MaxPrice]\<close> or from the sentinels by single increments and
  decrements that are guarded by \<open>best_bid \<ge> 0\<close> and \<open>best_ask \<le> MaxPrice\<close>, so prices
  are integers here.  \<open>size_t\<close> counters are 64-bit words: \<open>--n\<close> at zero wraps.
\<close>

type_synonym OrderId = "64 word"
type_synonym Price = int
type_synonym Qty = "64 word"
type_synonym Timestamp = "64 word"
type_synonym size_t = "64 word"

datatype Side = Buy | Sell

datatype OrdType = Limit | Market | IOC

definition NO_BID :: Price where
  "NO_BID = - 1"

text \<open>The template parameters of \<open>OrderBook<MaxPrice, MaxOrders>\<close>.\<close>

record Params =
  MaxPrice :: int
  MaxOrders :: nat

text \<open>
  The parameters an instantiation can have: \<open>MaxPrice + 1\<close> is an array size and a price,
  \<open>MaxOrders\<close> is a non-zero \<open>size_t\<close> (the index is \<open>id % MaxOrders\<close>).
\<close>

definition valid_params :: "Params \<Rightarrow> bool" where
  "valid_params c \<longleftrightarrow>
     0 \<le> MaxPrice c \<and> MaxPrice c + 1 < 2 ^ 63 \<and> 0 < MaxOrders c \<and> MaxOrders c < 2 ^ 64"

section \<open>Orders and pointers to them (order.hpp)\<close>

text \<open>
  An \<open>Order*\<close> is \<open>nullptr\<close>, the address of the sentinel of a price level, or the address
  of a slot of the pool.
\<close>

datatype ptr = Null | Sentinel Price | Slot nat

record Order =
  prev :: ptr
  next_ptr :: ptr
  oid :: OrderId
  price :: Price
  qty :: Qty
  orig_qty :: Qty
  ts :: Timestamp
  side :: Side
  otype :: OrdType

text \<open>\<open>Order() noexcept = default\<close>, value-initialised.\<close>

definition Order_default :: Order where
  "Order_default = \<lparr>prev = Null, next_ptr = Null, oid = 0, price = 0, qty = 0, orig_qty = 0,
     ts = 0, side = Buy, otype = Limit\<rparr>"

text \<open>\<open>Order(id, px, q, s, t, ts)\<close>: \<open>qty\<close> and \<open>orig_qty\<close> both start as \<open>q\<close>.\<close>

definition Order_new :: "OrderId \<Rightarrow> Price \<Rightarrow> Qty \<Rightarrow> Side \<Rightarrow> OrdType \<Rightarrow> Timestamp \<Rightarrow> Order" where
  "Order_new i px q sd t tm = \<lparr>prev = Null, next_ptr = Null, oid = i, price = px, qty = q,
     orig_qty = q, ts = tm, side = sd, otype = t\<rparr>"

text \<open>\<open>Order::fill\<close> and \<open>Order::filled\<close>.\<close>

definition fill :: "Qty \<Rightarrow> Order \<Rightarrow> Order" where
  "fill amount ord = ord\<lparr>qty := qty ord - amount\<rparr>"

definition filled :: "Order \<Rightarrow> bool" where
  "filled ord \<longleftrightarrow> sint (qty ord) \<le> 0"

section \<open>Price levels (price_level.hpp)\<close>

record PriceLevel =
  sentinel :: Order
  order_cnt :: size_t
  total_qty :: Qty

text \<open>The constructor of the level at index \<open>p\<close>: the sentinel points to itself.\<close>

definition PriceLevel_init :: "Price \<Rightarrow> PriceLevel" where
  "PriceLevel_init p =
     \<lparr>sentinel = Order_default\<lparr>prev := Sentinel p, next_ptr := Sentinel p\<rparr>,
      order_cnt = 0, total_qty = 0\<rparr>"

definition level_empty :: "PriceLevel \<Rightarrow> bool" where
  "level_empty lv \<longleftrightarrow> order_cnt lv = 0"

definition front :: "PriceLevel \<Rightarrow> ptr" where
  "front lv = next_ptr (sentinel lv)"

section \<open>The pool (memory_pool.hpp)\<close>

text \<open>
  A slot of the pool holds either a node of the embedded free list or a constructed order.
\<close>

datatype cell = FreeNode "nat option" | Obj Order

record MemPool =
  storage :: "nat \<Rightarrow> cell"
  free_head :: "nat option"
  alloc_cnt :: size_t

text \<open>The constructor's loop \<open>for (i = Capacity; i > 0; --i)\<close>.\<close>

fun MemPool_build :: "nat \<Rightarrow> MemPool \<Rightarrow> MemPool" where
  "MemPool_build 0 m = m"
| "MemPool_build (Suc i) m =
     MemPool_build i (m\<lparr>storage := (storage m)(i := FreeNode (free_head m)),
                         free_head := Some i\<rparr>)"

definition MemPool_init :: "nat \<Rightarrow> MemPool" where
  "MemPool_init cap =
     MemPool_build cap \<lparr>storage = (\<lambda>_. FreeNode None), free_head = None, alloc_cnt = 0\<rparr>"

text \<open>
  \<open>alloc\<close> pops the free list (\<open>Null\<close> when it is empty); reading a head that is not a free
  node of the storage has no defined result (\<open>None\<close>).
\<close>

definition alloc :: "nat \<Rightarrow> MemPool \<Rightarrow> (ptr \<times> MemPool) option" where
  "alloc cap m =
     (case free_head m of
        None \<Rightarrow> Some (Null, m)
      | Some node \<Rightarrow>
          (if node < cap then
             (case storage m node of
                FreeNode nx \<Rightarrow>
                  Some (Slot node, m\<lparr>free_head := nx, alloc_cnt := alloc_cnt m + 1\<rparr>)
              | Obj ord \<Rightarrow> None)
           else None))"

text \<open>\<open>dealloc\<close> destroys the order and pushes its slot on the free list.\<close>

definition dealloc :: "nat \<Rightarrow> ptr \<Rightarrow> MemPool \<Rightarrow> MemPool option" where
  "dealloc cap p m =
     (case p of
        Null \<Rightarrow> Some m
      | Sentinel px \<Rightarrow> None
      | Slot i \<Rightarrow>
          (if i < cap then
             (case storage m i of
                Obj ord \<Rightarrow>
                  Some (m\<lparr>storage := (storage m)(i := FreeNode (free_head m)),
                          free_head := Some i, alloc_cnt := alloc_cnt m - 1\<rparr>)
              | FreeNode nx \<Rightarrow> None)
           else None))"

definition used :: "MemPool \<Rightarrow> size_t" where
  "used m = alloc_cnt m"

section \<open>The book (order_book.hpp)\<close>

datatype AddResult = Ok | DuplicateId | InvalidPrice | PoolExhausted | InvalidQty

record OrderBook =
  levels :: "Price \<Rightarrow> PriceLevel"
  best_bid :: Price
  best_ask :: Price
  total_orders :: size_t
  pool :: MemPool
  order_map :: "nat \<Rightarrow> ptr"

definition OrderBook_init :: "Params \<Rightarrow> OrderBook" where
  "OrderBook_init c =
     \<lparr>levels = PriceLevel_init, best_bid = NO_BID, best_ask = MaxPrice c + 1, total_orders = 0,
      pool = MemPool_init (MaxOrders c), order_map = (\<lambda>_. Null)\<rparr>"

subsection \<open>Reading and writing through pointers\<close>

text \<open>
  Every operation returns an \<open>option\<close>: \<open>None\<close> stands for a call that does not return
  (a loop that runs forever) or that leaves defined behaviour (a null or dangling pointer is
  dereferenced, an array is indexed out of range).
\<close>

definition level_ref :: "Params \<Rightarrow> OrderBook \<Rightarrow> Price \<Rightarrow> PriceLevel option" where
  "level_ref c s p = (if 0 \<le> p \<and> p \<le> MaxPrice c then Some (levels s p) else None)"

definition deref :: "Params \<Rightarrow> OrderBook \<Rightarrow> ptr \<Rightarrow> Order option" where
  "deref c s p =
     (case p of
        Null \<Rightarrow> None
      | Sentinel px \<Rightarrow>
          (if 0 \<le> px \<and> px \<le> MaxPrice c then Some (sentinel (levels s px)) else None)
      | Slot i \<Rightarrow>
          (if i < MaxOrders c then
             (case storage (pool s) i of Obj ord \<Rightarrow> Some ord | FreeNode nx \<Rightarrow> None)
           else None))"

definition assign :: "OrderBook \<Rightarrow> ptr \<Rightarrow> Order \<Rightarrow> OrderBook" where
  "assign s p ord =
     (case p of
        Null \<Rightarrow> s
      | Sentinel px \<Rightarrow> s\<lparr>levels := (levels s)(px := (levels s px)\<lparr>sentinel := ord\<rparr>)\<rparr>
      | Slot i \<Rightarrow> s\<lparr>pool := (pool s)\<lparr>storage := (storage (pool s))(i := Obj ord)\<rparr>\<rparr>)"

definition modify :: "Params \<Rightarrow> ptr \<Rightarrow> (Order \<Rightarrow> Order) \<Rightarrow> OrderBook \<Rightarrow> OrderBook option" where
  "modify c p f s =
     (case deref c s p of None \<Rightarrow> None | Some ord \<Rightarrow> Some (assign s p (f ord)))"

subsection \<open>\<open>PriceLevel::push_back\<close>, \<open>remove\<close>, \<open>reduce_qty\<close> on the level at index \<open>p\<close>\<close>

definition set_counts :: "OrderBook \<Rightarrow> Price \<Rightarrow> size_t \<Rightarrow> Qty \<Rightarrow> OrderBook" where
  "set_counts s p n t = s\<lparr>levels := (levels s)(p := (levels s p)\<lparr>order_cnt := n, total_qty := t\<rparr>)\<rparr>"

definition push_back :: "Params \<Rightarrow> OrderBook \<Rightarrow> Price \<Rightarrow> ptr \<Rightarrow> OrderBook option" where
  "push_back c s p o_ptr = do {
     lv \<leftarrow> level_ref c s p;
     s1 \<leftarrow> modify c o_ptr (\<lambda>x. x\<lparr>prev := prev (sentinel lv)\<rparr>) s;
     s2 \<leftarrow> modify c o_ptr (\<lambda>x. x\<lparr>next_ptr := Sentinel p\<rparr>) s1;
     s3 \<leftarrow> modify c (prev (sentinel lv)) (\<lambda>x. x\<lparr>next_ptr := o_ptr\<rparr>) s2;
     s4 \<leftarrow> modify c (Sentinel p) (\<lambda>x. x\<lparr>prev := o_ptr\<rparr>) s3;
     ord \<leftarrow> deref c s4 o_ptr;
     Some (set_counts s4 p (order_cnt (levels s4 p) + 1) (total_qty (levels s4 p) + qty ord))
   }"

definition remove_order :: "Params \<Rightarrow> OrderBook \<Rightarrow> Price \<Rightarrow> ptr \<Rightarrow> OrderBook option" where
  "remove_order c s p o_ptr = do {
     lv \<leftarrow> level_ref c s p;
     ord \<leftarrow> deref c s o_ptr;
     s1 \<leftarrow> modify c (prev ord) (\<lambda>x. x\<lparr>next_ptr := next_ptr ord\<rparr>) s;
     ord1 \<leftarrow> deref c s1 o_ptr;
     s2 \<leftarrow> modify c (next_ptr ord1) (\<lambda>x. x\<lparr>prev := prev ord1\<rparr>) s1;
     ord2 \<leftarrow> deref c s2 o_ptr;
     modify c o_ptr (\<lambda>x. x\<lparr>prev := Null, next_ptr := Null\<rparr>)
       (set_counts s2 p (order_cnt (levels s2 p) - 1) (total_qty (levels s2 p) - qty ord2))
   }"

definition reduce_qty :: "OrderBook \<Rightarrow> Price \<Rightarrow> Qty \<Rightarrow> OrderBook" where
  "reduce_qty s p amount =
     set_counts s p (order_cnt (levels s p)) (total_qty (levels s p) - amount)"

subsection \<open>The order index: \<open>slot\<close>, \<open>lookup\<close>, \<open>insert_map\<close>, \<open>remove_map\<close>\<close>

definition slot :: "Params \<Rightarrow> OrderId \<Rightarrow> nat" where
  "slot c i = unat i mod MaxOrders c"

text \<open>The loop \<open>while (idx != start)\<close> of \<open>lookup\<close>.\<close>

partial_function (option) lookup_probe ::
  "Params \<Rightarrow> OrderBook \<Rightarrow> OrderId \<Rightarrow> nat \<Rightarrow> nat \<Rightarrow> ptr option" where
  "lookup_probe c s i start idx =
     (if idx \<noteq> start then
        (if order_map s idx = Null then Some Null
         else do {
           ord \<leftarrow> deref c s (order_map s idx);
           if oid ord = i then Some (order_map s idx)
           else lookup_probe c s i start ((idx + 1) mod MaxOrders c)
         })
      else Some Null)"

definition lookup :: "Params \<Rightarrow> OrderBook \<Rightarrow> OrderId \<Rightarrow> ptr option" where
  "lookup c s i =
     (if order_map s (slot c i) = Null
      then lookup_probe c s i (slot c i) ((slot c i + 1) mod MaxOrders c)
      else do {
        ord \<leftarrow> deref c s (order_map s (slot c i));
        if oid ord = i then Some (order_map s (slot c i))
        else lookup_probe c s i (slot c i) ((slot c i + 1) mod MaxOrders c)
      })"

text \<open>
  The loop of \<open>insert_map\<close>; \<open>i\<close> is \<open>o->id\<close>, which the loop does not change.
\<close>

partial_function (option) insert_probe ::
  "Params \<Rightarrow> OrderBook \<Rightarrow> ptr \<Rightarrow> OrderId \<Rightarrow> nat \<Rightarrow> nat \<Rightarrow> (bool \<times> OrderBook) option" where
  "insert_probe c s o_ptr i start idx =
     (if order_map s idx \<noteq> Null then do {
        ord \<leftarrow> deref c s (order_map s idx);
        if oid ord = i then Some (False, s)
        else if (idx + 1) mod MaxOrders c = start then Some (False, s)
        else insert_probe c s o_ptr i start ((idx + 1) mod MaxOrders c)
      }
      else Some (True, s\<lparr>order_map := (order_map s)(idx := o_ptr)\<rparr>))"

definition insert_map :: "Params \<Rightarrow> OrderBook \<Rightarrow> ptr \<Rightarrow> (bool \<times> OrderBook) option" where
  "insert_map c s o_ptr = do {
     ord \<leftarrow> deref c s o_ptr;
     insert_probe c s o_ptr (oid ord) (slot c (oid ord)) (slot c (oid ord))
   }"

text \<open>The inner loop of \<open>remove_map\<close>: every entry up to the next vacancy is re-inserted.\<close>

partial_function (option) rehash ::
  "Params \<Rightarrow> OrderBook \<Rightarrow> nat \<Rightarrow> OrderBook option" where
  "rehash c s nxt =
     (if order_map s nxt \<noteq> Null then do {
        r \<leftarrow> insert_map c (s\<lparr>order_map := (order_map s)(nxt := Null)\<rparr>) (order_map s nxt);
        rehash c (snd r) ((nxt + 1) mod MaxOrders c)
      }
      else Some s)"

partial_function (option) remove_probe ::
  "Params \<Rightarrow> OrderBook \<Rightarrow> OrderId \<Rightarrow> nat \<Rightarrow> OrderBook option" where
  "remove_probe c s i idx =
     (if order_map s idx \<noteq> Null then do {
        ord \<leftarrow> deref c s (order_map s idx);
        if oid ord = i
        then rehash c (s\<lparr>order_map := (order_map s)(idx := Null)\<rparr>) ((idx + 1) mod MaxOrders c)
        else remove_probe c s i ((idx + 1) mod MaxOrders c)
      }
      else Some s)"

definition remove_map :: "Params \<Rightarrow> OrderBook \<Rightarrow> OrderId \<Rightarrow> OrderBook option" where
  "remove_map c s i = remove_probe c s i (slot c i)"

subsection \<open>Best prices\<close>

function update_best_bid :: "Params \<Rightarrow> OrderBook \<Rightarrow> OrderBook option" where
  "update_best_bid c s =
     (if 0 \<le> best_bid s then do {
        lv \<leftarrow> level_ref c s (best_bid s);
        if level_empty lv then update_best_bid c (s\<lparr>best_bid := best_bid s - 1\<rparr>)
        else Some s
      }
      else Some s)"
  by pat_completeness auto
termination
  by (relation "measure (\<lambda>(c, s). nat (best_bid s + 1))") auto

function update_best_ask :: "Params \<Rightarrow> OrderBook \<Rightarrow> OrderBook option" where
  "update_best_ask c s =
     (if best_ask s \<le> MaxPrice c then do {
        lv \<leftarrow> level_ref c s (best_ask s);
        if level_empty lv then update_best_ask c (s\<lparr>best_ask := best_ask s + 1\<rparr>)
        else Some s
      }
      else Some s)"
  by pat_completeness auto
termination
  by (relation "measure (\<lambda>(c, s). nat (MaxPrice c + 1 - best_ask s))") auto

subsection \<open>\<open>remove_from_book\<close>\<close>

definition remove_from_book :: "Params \<Rightarrow> OrderBook \<Rightarrow> ptr \<Rightarrow> OrderBook option" where
  "remove_from_book c s o_ptr = do {
     ord \<leftarrow> deref c s o_ptr;
     s1 \<leftarrow> remove_order c s (price ord) o_ptr;
     ord1 \<leftarrow> deref c s1 o_ptr;
     s2 \<leftarrow> remove_map c s1 (oid ord1);
     pl \<leftarrow> dealloc (MaxOrders c) o_ptr (pool s2);
     Some (s2\<lparr>pool := pl, total_orders := total_orders s2 - 1\<rparr>)
   }"

subsection \<open>Matching\<close>

text \<open>\<open>std::min(a, b)\<close> on \<open>Qty\<close> is \<open>(b < a) ? b : a\<close> on the signed values.\<close>

definition min_qty :: "Qty \<Rightarrow> Qty \<Rightarrow> Qty" where
  "min_qty a b = (if sint b < sint a then b else a)"

text \<open>
  \<open>match_level\<close> on the level at index \<open>p\<close>.  The prefetch of \<open>o->next\<close> has no effect on
  the state and is left out.
\<close>

partial_function (option) match_level ::
  "Params \<Rightarrow> OrderBook \<Rightarrow> Price \<Rightarrow> Qty \<Rightarrow> (Qty \<times> OrderBook) option" where
  "match_level c s p q =
     (if 0 < sint q \<and> \<not> level_empty (levels s p) then do {
        ord \<leftarrow> deref c s (front (levels s p));
        s1 \<leftarrow> modify c (front (levels s p)) (fill (min_qty q (qty ord))) s;
        ord1 \<leftarrow> deref c (reduce_qty s1 p (min_qty q (qty ord))) (front (levels s p));
        if filled ord1 then do {
          s3 \<leftarrow> remove_from_book c (reduce_qty s1 p (min_qty q (qty ord))) (front (levels s p));
          match_level c s3 p (q - min_qty q (qty ord))
        }
        else match_level c (reduce_qty s1 p (min_qty q (qty ord))) p (q - min_qty q (qty ord))
      }
      else Some (q, s))"

text \<open>The two loops of \<open>match_internal\<close>, one per aggressor side.\<close>

partial_function (option) match_asks ::
  "Params \<Rightarrow> OrderBook \<Rightarrow> Qty \<Rightarrow> Price \<Rightarrow> (Qty \<times> OrderBook) option" where
  "match_asks c s q limit =
     (if 0 < sint q \<and> best_ask s \<le> limit \<and> best_ask s \<le> MaxPrice c then do {
        lv \<leftarrow> level_ref c s (best_ask s);
        r \<leftarrow> match_level c s (best_ask s) q;
        if level_empty (levels (snd r) (best_ask s)) then do {
          s2 \<leftarrow> update_best_ask c (snd r);
          match_asks c s2 (fst r) limit
        }
        else match_asks c (snd r) (fst r) limit
      }
      else Some (q, s))"

partial_function (option) match_bids ::
  "Params \<Rightarrow> OrderBook \<Rightarrow> Qty \<Rightarrow> Price \<Rightarrow> (Qty \<times> OrderBook) option" where
  "match_bids c s q limit =
     (if 0 < sint q \<and> limit \<le> best_bid s \<and> 0 \<le> best_bid s then do {
        lv \<leftarrow> level_ref c s (best_bid s);
        r \<leftarrow> match_level c s (best_bid s) q;
        if level_empty (levels (snd r) (best_bid s)) then do {
          s2 \<leftarrow> update_best_bid c (snd r);
          match_bids c s2 (fst r) limit
        }
        else match_bids c (snd r) (fst r) limit
      }
      else Some (q, s))"

definition match_internal ::
  "Params \<Rightarrow> OrderBook \<Rightarrow> Side \<Rightarrow> Qty \<Rightarrow> Price \<Rightarrow> (Qty \<times> OrderBook) option" where
  "match_internal c s aggressor q limit =
     (if aggressor = Buy then match_asks c s q limit else match_bids c s q limit)"

subsection \<open>The public operations\<close>

text \<open>The part of \<open>add\<close> after the matching: the remainder \<open>q\<close> rests, unless the pool is full.\<close>

definition rest_order ::
  "Params \<Rightarrow> OrderBook \<Rightarrow> OrderId \<Rightarrow> Side \<Rightarrow> Price \<Rightarrow> Qty \<Rightarrow> OrdType \<Rightarrow> Timestamp \<Rightarrow>
     (AddResult \<times> OrderBook) option" where
  "rest_order c s i sd px q t tm = do {
     a \<leftarrow> alloc (MaxOrders c) (pool s);
     if fst a = Null then Some (PoolExhausted, s\<lparr>pool := snd a\<rparr>)
     else do {
       m \<leftarrow> insert_map c (assign (s\<lparr>pool := snd a\<rparr>) (fst a) (Order_new i px q sd t tm)) (fst a);
       if \<not> fst m then do {
         pl \<leftarrow> dealloc (MaxOrders c) (fst a) (pool (snd m));
         Some (DuplicateId, (snd m)\<lparr>pool := pl\<rparr>)
       }
       else do {
         s5 \<leftarrow> push_back c (snd m) px (fst a);
         Some (Ok,
           (if sd = Buy
            then (if best_bid s5 < px
                  then s5\<lparr>total_orders := total_orders s5 + 1, best_bid := px\<rparr>
                  else s5\<lparr>total_orders := total_orders s5 + 1\<rparr>)
            else (if px < best_ask s5
                  then s5\<lparr>total_orders := total_orders s5 + 1, best_ask := px\<rparr>
                  else s5\<lparr>total_orders := total_orders s5 + 1\<rparr>)))
       }
     }
   }"

text \<open>The block \<open>match if crossing\<close> of \<open>add\<close>: the remaining quantity and the state after it.\<close>

definition crossing ::
  "Params \<Rightarrow> OrderBook \<Rightarrow> Side \<Rightarrow> Price \<Rightarrow> Qty \<Rightarrow> (Qty \<times> OrderBook) option" where
  "crossing c s sd px q =
     (if sd = Buy
      then (if best_ask s \<le> px then match_internal c s sd q px else Some (q, s))
      else (if px \<le> best_bid s then match_internal c s sd q px else Some (q, s)))"

definition add ::
  "Params \<Rightarrow> OrderBook \<Rightarrow> OrderId \<Rightarrow> Side \<Rightarrow> Price \<Rightarrow> Qty \<Rightarrow> OrdType \<Rightarrow> Timestamp \<Rightarrow>
     (AddResult \<times> OrderBook) option" where
  "add c s i sd px q t tm = do {
     found \<leftarrow> lookup c s i;
     if found \<noteq> Null then Some (DuplicateId, s)
     else if sint q \<le> 0 then Some (InvalidQty, s)
     else if px < 0 \<or> MaxPrice c < px then Some (InvalidPrice, s)
     else do {
       r \<leftarrow> crossing c s sd px q;
       if t = IOC \<or> t = Market then Some (Ok, snd r)
       else if sint (fst r) \<le> 0 then Some (Ok, snd r)
       else rest_order c (snd r) i sd px (fst r) t tm
     }
   }"

definition cancel :: "Params \<Rightarrow> OrderBook \<Rightarrow> OrderId \<Rightarrow> (bool \<times> OrderBook) option" where
  "cancel c s i = do {
     o_ptr \<leftarrow> lookup c s i;
     if o_ptr = Null then Some (False, s)
     else do {
       ord \<leftarrow> deref c s o_ptr;
       s1 \<leftarrow> remove_from_book c s o_ptr;
       if side ord = Buy then
         (if price ord = best_bid s1
          then map_option (Pair True) (update_best_bid c s1) else Some (True, s1))
       else
         (if price ord = best_ask s1
          then map_option (Pair True) (update_best_ask c s1) else Some (True, s1))
     }
   }"

definition match :: "Params \<Rightarrow> OrderBook \<Rightarrow> Side \<Rightarrow> Qty \<Rightarrow> (Qty \<times> OrderBook) option" where
  "match c s aggressor q =
     match_internal c s aggressor q (if aggressor = Buy then MaxPrice c else 0)"

subsection \<open>Accessors\<close>

definition bid :: "OrderBook \<Rightarrow> Price" where
  "bid s = best_bid s"

definition ask :: "OrderBook \<Rightarrow> Price" where
  "ask s = best_ask s"

definition has_bid :: "OrderBook \<Rightarrow> bool" where
  "has_bid s \<longleftrightarrow> 0 \<le> best_bid s"

definition has_ask :: "Params \<Rightarrow> OrderBook \<Rightarrow> bool" where
  "has_ask c s \<longleftrightarrow> best_ask s \<le> MaxPrice c"

definition crossed :: "Params \<Rightarrow> OrderBook \<Rightarrow> bool" where
  "crossed c s \<longleftrightarrow> has_bid s \<and> has_ask c s \<and> best_ask s \<le> best_bid s"

definition order_count :: "OrderBook \<Rightarrow> size_t" where
  "order_count s = total_orders s"

definition pool_used :: "OrderBook \<Rightarrow> size_t" where
  "pool_used s = used (pool s)"

definition get_order :: "Params \<Rightarrow> OrderBook \<Rightarrow> OrderId \<Rightarrow> ptr option" where
  "get_order c s i = lookup c s i"

definition level_at :: "OrderBook \<Rightarrow> Price \<Rightarrow> PriceLevel" where
  "level_at s px = levels s px"

subsection \<open>The book of the tests\<close>

text \<open>\<open>using TestBook = OrderBook<10000, 1000>\<close> (tests/correctness.cpp).\<close>

definition test_params :: Params where
  "test_params = \<lparr>MaxPrice = 10000, MaxOrders = 1000\<rparr>"

text \<open>The book that holds the single order \<open>add(1, Sell, 100, 10)\<close>.\<close>

definition one_ask_book :: OrderBook where
  "one_ask_book =
     (case add test_params (OrderBook_init test_params) 1 Sell 100 10 Limit 0 of
        Some r \<Rightarrow> snd r
      | None \<Rightarrow> OrderBook_init test_params)"

subsection \<open>Sequences of calls and what a caller observes\<close>

text \<open>A smaller instance, \<open>OrderBook<10, 2>\<close>, whose pool is full after two orders.\<close>

definition small_params :: Params where
  "small_params = \<lparr>MaxPrice = 10, MaxOrders = 2\<rparr>"

datatype call =
    Add OrderId Side Price Qty OrdType Timestamp
  | Cancel OrderId
  | Match Side Qty

fun exec :: "Params \<Rightarrow> call \<Rightarrow> OrderBook \<Rightarrow> OrderBook option" where
  "exec c (Add i sd px q t tm) s = map_option snd (add c s i sd px q t tm)"
| "exec c (Cancel i) s = map_option snd (cancel c s i)"
| "exec c (Match sd q) s = map_option snd (match c s sd q)"

fun run :: "Params \<Rightarrow> call list \<Rightarrow> OrderBook \<Rightarrow> OrderBook option" where
  "run c [] s = Some s"
| "run c (x # xs) s = exec c x s \<bind> run c xs"

text \<open>The book after the calls \<open>xs\<close> on the empty book.\<close>

definition book_of :: "Params \<Rightarrow> call list \<Rightarrow> OrderBook" where
  "book_of c xs =
     (case run c xs (OrderBook_init c) of Some s \<Rightarrow> s | None \<Rightarrow> OrderBook_init c)"

text \<open>
  What the accessors show of a state, with the level at index \<open>p\<close>: \<open>order_count\<close>,
  \<open>pool_used\<close>, \<open>bid\<close>, \<open>ask\<close>, and the count and total quantity of the level.
\<close>

definition view :: "OrderBook \<Rightarrow> Price \<Rightarrow> size_t \<times> size_t \<times> Price \<times> Price \<times> size_t \<times> Qty" where
  "view s p =
     (order_count s, pool_used s, bid s, ask s, order_cnt (level_at s p), total_qty (level_at s p))"

text \<open>\<open>add\<close> followed by \<open>cancel\<close> of the same id, and what is observed after the two calls.\<close>

definition add_cancel ::
  "Params \<Rightarrow> OrderBook \<Rightarrow> OrderId \<Rightarrow> Side \<Rightarrow> Price \<Rightarrow> Qty \<Rightarrow> OrdType \<Rightarrow> Timestamp \<Rightarrow>
     (AddResult \<times> bool \<times> OrderBook) option" where
  "add_cancel c s i sd px q t tm = do {
     r \<leftarrow> add c s i sd px q t tm;
     r2 \<leftarrow> cancel c (snd r) i;
     Some (fst r, fst r2, snd r2)
   }"

definition add_cancel_view ::
  "Params \<Rightarrow> OrderBook \<Rightarrow> OrderId \<Rightarrow> Side \<Rightarrow> Price \<Rightarrow> Qty \<Rightarrow> OrdType \<Rightarrow> Timestamp \<Rightarrow> Price \<Rightarrow>
     (AddResult \<times> bool \<times> size_t \<times> size_t \<times> Price \<times> Price \<times> size_t \<times> Qty) option" where
  "add_cancel_view c s i sd px q t tm p =
     map_option (\<lambda>r. (fst r, fst (snd r), view (snd (snd r)) p)) (add_cancel c s i sd px q t tm)"


text \<open>\<open>cancel\<close> of the id \<open>i\<close> followed by \<open>get_order\<close> of the id \<open>j\<close>.\<close>

definition cancel_get ::
  "Params \<Rightarrow> OrderBook \<Rightarrow> OrderId \<Rightarrow> OrderId \<Rightarrow> (bool \<times> ptr) option" where
  "cancel_get c s i j = do {
     r \<leftarrow> cancel c s i;
     o_ptr \<leftarrow> get_order c (snd r) j;
     Some (fst r, o_ptr)
   }"

section \<open>What a state stands for\<close>

subsection \<open>Orders in the pool\<close>

text \<open>
  \<open>ord_at s x\<close> is the order constructed in slot \<open>x\<close>; \<open>dat s x\<close> is the slot without the
  two link fields, and \<open>pay s x\<close> the order read from it: the fields of an order that the list
  operations leave alone.  A slot is \<open>live\<close> when it holds an order.
\<close>

definition payload :: "Order \<Rightarrow> Order" where
  "payload ord = ord\<lparr>prev := Null, next_ptr := Null\<rparr>"

fun strip :: "cell \<Rightarrow> cell" where
  "strip (FreeNode n) = FreeNode n"
| "strip (Obj ord) = Obj (payload ord)"

fun cell_order :: "cell \<Rightarrow> Order" where
  "cell_order (Obj ord) = ord"
| "cell_order (FreeNode n) = Order_default"

fun is_obj :: "cell \<Rightarrow> bool" where
  "is_obj (Obj ord) = True"
| "is_obj (FreeNode n) = False"

definition ord_at :: "OrderBook \<Rightarrow> nat \<Rightarrow> Order" where
  "ord_at s x = cell_order (storage (pool s) x)"

definition dat :: "OrderBook \<Rightarrow> nat \<Rightarrow> cell" where
  "dat s x = strip (storage (pool s) x)"

definition pay :: "OrderBook \<Rightarrow> nat \<Rightarrow> Order" where
  "pay s x = cell_order (dat s x)"

definition live :: "Params \<Rightarrow> OrderBook \<Rightarrow> nat \<Rightarrow> bool" where
  "live c s x \<longleftrightarrow> x < MaxOrders c \<and> is_obj (dat s x)"

definition key :: "OrderBook \<Rightarrow> nat \<Rightarrow> OrderId" where
  "key s x = oid (pay s x)"

subsection \<open>The lists of the levels\<close>

text \<open>The \<open>next\<close> and \<open>prev\<close> fields as functions on pointers.\<close>

definition nxt :: "OrderBook \<Rightarrow> ptr \<Rightarrow> ptr" where
  "nxt s p =
     (case p of Null \<Rightarrow> Null
      | Sentinel px \<Rightarrow> next_ptr (sentinel (levels s px))
      | Slot x \<Rightarrow> next_ptr (ord_at s x))"

definition prv :: "OrderBook \<Rightarrow> ptr \<Rightarrow> ptr" where
  "prv s p =
     (case p of Null \<Rightarrow> Null
      | Sentinel px \<Rightarrow> prev (sentinel (levels s px))
      | Slot x \<Rightarrow> prev (ord_at s x))"

definition cnt :: "OrderBook \<Rightarrow> Price \<Rightarrow> size_t" where
  "cnt s p = order_cnt (levels s p)"

definition tot :: "OrderBook \<Rightarrow> Price \<Rightarrow> Qty" where
  "tot s p = total_qty (levels s p)"

text \<open>\<open>path f a xs b\<close>: following \<open>f\<close> from \<open>a\<close> visits the slots \<open>xs\<close> and arrives at \<open>b\<close>.\<close>

fun path :: "(ptr \<Rightarrow> ptr) \<Rightarrow> ptr \<Rightarrow> nat list \<Rightarrow> ptr \<Rightarrow> bool" where
  "path f a [] b \<longleftrightarrow> a = b"
| "path f a (x # xs) b \<longleftrightarrow> a = Slot x \<and> path f (f (Slot x)) xs b"

text \<open>
  \<open>chain s p xs\<close>: the orders linked in the level at index \<open>p\<close> are the slots \<open>xs\<close>, head
  first: \<open>next\<close> leads from the sentinel through \<open>xs\<close> back to the sentinel, and \<open>prev\<close> does
  so through \<open>xs\<close> reversed.
\<close>

definition chainf :: "(ptr \<Rightarrow> ptr) \<Rightarrow> (ptr \<Rightarrow> ptr) \<Rightarrow> Price \<Rightarrow> nat list \<Rightarrow> bool" where
  "chainf nf pf p xs \<longleftrightarrow>
     path nf (nf (Sentinel p)) xs (Sentinel p) \<and> path pf (pf (Sentinel p)) (rev xs) (Sentinel p)"

definition chain :: "OrderBook \<Rightarrow> Price \<Rightarrow> nat list \<Rightarrow> bool" where
  "chain s p xs \<longleftrightarrow> chainf (nxt s) (prv s) p xs"

text \<open>The pointers that can be dereferenced, and the part of a state that is not a level.\<close>

definition valid_ptr :: "Params \<Rightarrow> OrderBook \<Rightarrow> ptr \<Rightarrow> bool" where
  "valid_ptr c s p =
     (case p of Null \<Rightarrow> False
      | Sentinel px \<Rightarrow> 0 \<le> px \<and> px \<le> MaxPrice c
      | Slot x \<Rightarrow> live c s x)"

definition rest ::
  "OrderBook \<Rightarrow> (nat \<Rightarrow> cell) \<times> (nat \<Rightarrow> ptr) \<times> Price \<times> Price \<times> size_t \<times> nat option \<times> size_t" where
  "rest s = (dat s, order_map s, best_bid s, best_ask s, total_orders s, free_head (pool s),
     alloc_cnt (pool s))"

definition level_qty :: "OrderBook \<Rightarrow> nat list \<Rightarrow> Qty" where
  "level_qty s xs = sum_list (map (\<lambda>x. qty (pay s x)) xs)"

subsection \<open>The index\<close>

text \<open>
  \<open>home c s x\<close> is the index at which the probing for the order in slot \<open>x\<close> starts, and
  \<open>pos c a k\<close> the \<open>k\<close>-th index probed from \<open>a\<close>.  An entry is reachable (\<open>entry_ok\<close>) when
  no index probed before it is vacant.
\<close>

definition home :: "Params \<Rightarrow> OrderBook \<Rightarrow> nat \<Rightarrow> nat" where
  "home c s x = slot c (key s x)"

definition pos :: "Params \<Rightarrow> nat \<Rightarrow> nat \<Rightarrow> nat" where
  "pos c a k = (a + k) mod MaxOrders c"

definition entry_ok :: "Params \<Rightarrow> OrderBook \<Rightarrow> nat \<Rightarrow> bool" where
  "entry_ok c s idx \<longleftrightarrow>
     (case order_map s idx of
        Slot x \<Rightarrow> \<exists>d < MaxOrders c. idx = pos c (home c s x) d \<and>
                   (\<forall>k < d. order_map s (pos c (home c s x) k) \<noteq> Null)
      | _ \<Rightarrow> True)"

definition probe_ok :: "Params \<Rightarrow> OrderBook \<Rightarrow> bool" where
  "probe_ok c s \<longleftrightarrow> (\<forall>idx < MaxOrders c. entry_ok c s idx)"

text \<open>
  \<open>table_ok c s M\<close>: the entries of the index are the slots \<open>M\<close>, each of them once; the
  orders in them are live and have different ids.
\<close>

definition table_ok :: "Params \<Rightarrow> OrderBook \<Rightarrow> nat set \<Rightarrow> bool" where
  "table_ok c s M \<longleftrightarrow>
     (\<forall>x \<in> M. live c s x) \<and> inj_on (key s) M \<and>
     (\<forall>idx < MaxOrders c. order_map s idx = Null \<or> (\<exists>x \<in> M. order_map s idx = Slot x)) \<and>
     (\<forall>x \<in> M. \<exists>idx < MaxOrders c. order_map s idx = Slot x) \<and>
     (\<forall>i < MaxOrders c. \<forall>j < MaxOrders c.
        order_map s i = order_map s j \<longrightarrow> order_map s i \<noteq> Null \<longrightarrow> i = j)"

text \<open>Measures for the loop that re-inserts the entries that follow a vacated index.\<close>

definition in_run :: "Params \<Rightarrow> OrderBook \<Rightarrow> nat \<Rightarrow> nat \<Rightarrow> bool" where
  "in_run c s a e \<longleftrightarrow>
     (\<exists>k < MaxOrders c. e = pos c a k \<and> (\<forall>j \<le> k. order_map s (pos c a j) \<noteq> Null))"

definition dist :: "Params \<Rightarrow> nat \<Rightarrow> nat \<Rightarrow> nat" where
  "dist c a b = (b + MaxOrders c - a) mod MaxOrders c"

definition wt :: "Params \<Rightarrow> OrderBook \<Rightarrow> nat \<Rightarrow> nat" where
  "wt c s idx = (case order_map s idx of Slot x \<Rightarrow> dist c (home c s x) idx | _ \<Rightarrow> 0)"

definition Dsum :: "Params \<Rightarrow> OrderBook \<Rightarrow> nat" where
  "Dsum c s = (\<Sum>idx < MaxOrders c. wt c s idx)"

definition runlen :: "Params \<Rightarrow> OrderBook \<Rightarrow> nat \<Rightarrow> nat" where
  "runlen c s a = (LEAST k. order_map s (pos c a k) = Null)"

subsection \<open>The free list\<close>

fun fpath :: "(nat \<Rightarrow> cell) \<Rightarrow> nat option \<Rightarrow> nat list \<Rightarrow> bool" where
  "fpath st h [] \<longleftrightarrow> h = None"
| "fpath st h (x # xs) \<longleftrightarrow>
     h = Some x \<and> (case st x of FreeNode n \<Rightarrow> fpath st n xs | Obj ord \<Rightarrow> False)"

definition pool_ok :: "Params \<Rightarrow> OrderBook \<Rightarrow> bool" where
  "pool_ok c s \<longleftrightarrow>
     (\<exists>fs. fpath (dat s) (free_head (pool s)) fs \<and> distinct fs \<and>
           set fs = {x. x < MaxOrders c \<and> \<not> live c s x}) \<and>
     alloc_cnt (pool s) = of_nat (card {x. live c s x})"

text \<open>
  The state after \<open>alloc\<close> has returned slot \<open>x\<close>, whose free node pointed to \<open>n\<close>, and
  \<open>ord\<close> has been constructed in it; and the state after \<open>dealloc\<close> of slot \<open>x\<close> and the
  decrement of \<open>total_orders\<close> that follows it in \<open>remove_from_book\<close>.
\<close>

definition construct :: "OrderBook \<Rightarrow> nat \<Rightarrow> nat option \<Rightarrow> Order \<Rightarrow> OrderBook" where
  "construct s x n ord =
     assign (s\<lparr>pool := (pool s)\<lparr>free_head := n, alloc_cnt := alloc_cnt (pool s) + 1\<rparr>\<rparr>) (Slot x) ord"

definition release :: "OrderBook \<Rightarrow> nat \<Rightarrow> OrderBook" where
  "release s x =
     s\<lparr>pool := (pool s)\<lparr>storage := (storage (pool s))(x := FreeNode (free_head (pool s))),
          free_head := Some x, alloc_cnt := alloc_cnt (pool s) - 1\<rparr>,
       total_orders := total_orders s - 1\<rparr>"

subsection \<open>The invariant\<close>

text \<open>
  \<open>L p\<close> is the list of the slots linked in the level at index \<open>p\<close>.
\<close>

definition levels_ok :: "Params \<Rightarrow> OrderBook \<Rightarrow> (Price \<Rightarrow> nat list) \<Rightarrow> bool" where
  "levels_ok c s L \<longleftrightarrow>
     (\<forall>p. 0 \<le> p \<and> p \<le> MaxPrice c \<longrightarrow>
        chain s p (L p) \<and> distinct (L p) \<and> cnt s p = of_nat (length (L p)) \<and>
        tot s p = level_qty s (L p)) \<and>
     (\<forall>p x. x \<in> set (L p) \<longrightarrow> 0 \<le> p \<and> p \<le> MaxPrice c \<and> live c s x \<and> price (pay s x) = p)"

text \<open>Every order of the pool is linked in the level of its price.\<close>

definition covers :: "Params \<Rightarrow> OrderBook \<Rightarrow> (Price \<Rightarrow> nat list) \<Rightarrow> bool" where
  "covers c s L \<longleftrightarrow> (\<forall>x. live c s x \<longrightarrow> x \<in> set (L (price (pay s x))))"

definition order_ok :: "OrderBook \<Rightarrow> nat \<Rightarrow> bool" where
  "order_ok s x \<longleftrightarrow>
     0 < sint (qty (pay s x)) \<and> sint (qty (pay s x)) \<le> sint (orig_qty (pay s x)) \<and>
     (side (pay s x) = Buy \<longrightarrow> price (pay s x) \<le> best_bid s) \<and>
     (side (pay s x) = Sell \<longrightarrow> best_ask s \<le> price (pay s x))"

definition orders_ok :: "Params \<Rightarrow> OrderBook \<Rightarrow> bool" where
  "orders_ok c s \<longleftrightarrow> (\<forall>x. live c s x \<longrightarrow> order_ok s x)"

definition gap_ok :: "Params \<Rightarrow> OrderBook \<Rightarrow> (Price \<Rightarrow> nat list) \<Rightarrow> bool" where
  "gap_ok c s L \<longleftrightarrow>
     - 1 \<le> best_bid s \<and> best_bid s < best_ask s \<and> best_ask s \<le> MaxPrice c + 1 \<and>
     (\<forall>p. best_bid s < p \<and> p < best_ask s \<longrightarrow> L p = [])"

definition tight_bid :: "OrderBook \<Rightarrow> (Price \<Rightarrow> nat list) \<Rightarrow> bool" where
  "tight_bid s L \<longleftrightarrow> (0 \<le> best_bid s \<longrightarrow> L (best_bid s) \<noteq> [])"

definition tight_ask :: "Params \<Rightarrow> OrderBook \<Rightarrow> (Price \<Rightarrow> nat list) \<Rightarrow> bool" where
  "tight_ask c s L \<longleftrightarrow> (best_ask s \<le> MaxPrice c \<longrightarrow> L (best_ask s) \<noteq> [])"

text \<open>
  \<open>struct_ok\<close> is about the data structures, \<open>orders_ok\<close> about the orders in them;
  \<open>core c s L\<close> holds during a sweep as well; between public calls the best prices are tight
  too: each of them is a sentinel or the index of a level that is not empty.
\<close>

definition struct_ok :: "Params \<Rightarrow> OrderBook \<Rightarrow> (Price \<Rightarrow> nat list) \<Rightarrow> bool" where
  "struct_ok c s L \<longleftrightarrow>
     valid_params c \<and> levels_ok c s L \<and> covers c s L \<and> gap_ok c s L \<and> pool_ok c s \<and>
     table_ok c s {x. live c s x} \<and> probe_ok c s \<and>
     total_orders s = of_nat (card {x. live c s x})"

definition core :: "Params \<Rightarrow> OrderBook \<Rightarrow> (Price \<Rightarrow> nat list) \<Rightarrow> bool" where
  "core c s L \<longleftrightarrow> struct_ok c s L \<and> orders_ok c s"

definition book_inv :: "Params \<Rightarrow> OrderBook \<Rightarrow> (Price \<Rightarrow> nat list) \<Rightarrow> bool" where
  "book_inv c s L \<longleftrightarrow> core c s L \<and> tight_bid s L \<and> tight_ask c s L"

subsection \<open>Price-time priority, as the specification words it\<close>

text \<open>
  The two functions below are not taken from the code.  They say what the specification asks
  of a match, on lists of pairs of an order id and a remaining quantity, head of the level
  first: \<open>fifo_fill q es\<close> fills the quantity \<open>q\<close> against one level, an order after the other
  in arrival order; an order that is filled is gone, an order that is filled in part stays
  where it is with what is left of it, and the orders behind it are not touched.  The result
  is what is left of \<open>q\<close> and of the level.  \<open>sweep_fill q ls\<close> does so for the levels \<open>ls\<close>,
  best price first.
\<close>

fun fifo_fill :: "int \<Rightarrow> ('a \<times> int) list \<Rightarrow> int \<times> ('a \<times> int) list" where
  "fifo_fill q [] = (q, [])"
| "fifo_fill q ((i, a) # es) =
     (if q \<le> 0 then (q, (i, a) # es)
      else if a \<le> q then fifo_fill (q - a) es
      else (0, (i, a - q) # es))"

fun sweep_fill :: "int \<Rightarrow> ('a \<times> int) list list \<Rightarrow> int \<times> ('a \<times> int) list list" where
  "sweep_fill q [] = (q, [])"
| "sweep_fill q (l # ls) =
     (case fifo_fill q l of (r, l') \<Rightarrow>
        (case sweep_fill r ls of (r', ls') \<Rightarrow> (r', l' # ls')))"

text \<open>
  What a level of a state holds is read from the state itself: \<open>level_orders s p\<close> follows
  \<open>next\<close> from the sentinel of the level at index \<open>p\<close> for \<open>count\<close> steps, and \<open>level_book s p\<close>
  is the id and the remaining quantity of each order met.  \<open>opposite s sd limit\<close> are the
  indices of the levels an aggressor of side \<open>sd\<close> may trade at, best price first.
\<close>

fun walk :: "(ptr \<Rightarrow> ptr) \<Rightarrow> nat \<Rightarrow> ptr \<Rightarrow> nat list" where
  "walk f 0 a = []"
| "walk f (Suc n) a = (case a of Slot x \<Rightarrow> x # walk f n (f a) | _ \<Rightarrow> [])"

definition level_orders :: "OrderBook \<Rightarrow> Price \<Rightarrow> nat list" where
  "level_orders s p = walk (nxt s) (unat (cnt s p)) (nxt s (Sentinel p))"

definition entries :: "OrderBook \<Rightarrow> nat list \<Rightarrow> (OrderId \<times> int) list" where
  "entries s xs = map (\<lambda>x. (key s x, sint (qty (pay s x)))) xs"

definition level_book :: "OrderBook \<Rightarrow> Price \<Rightarrow> (OrderId \<times> int) list" where
  "level_book s p = entries s (level_orders s p)"

definition opposite :: "OrderBook \<Rightarrow> Side \<Rightarrow> Price \<Rightarrow> Price list" where
  "opposite s sd limit = (if sd = Buy then [best_ask s..limit] else rev [limit..best_bid s])"

subsection \<open>What a sweep does\<close>

text \<open>
  \<open>level_post\<close> relates the state \<open>s\<close> with lists \<open>L\<close> before \<open>match_level\<close> on the level
  at index \<open>p\<close> with quantity \<open>q\<close> to the result \<open>(q', s')\<close> with lists \<open>L'\<close>: a prefix of the
  list of the level is gone, the order that is now the head has at most lost quantity, and
  every other order is as it was; what is left of the quantity and of the level is what
  \<open>fifo_fill\<close> says.
\<close>

definition level_post ::
  "Params \<Rightarrow> OrderBook \<Rightarrow> (Price \<Rightarrow> nat list) \<Rightarrow> Price \<Rightarrow> Qty \<Rightarrow> Qty \<Rightarrow> OrderBook \<Rightarrow>
     (Price \<Rightarrow> nat list) \<Rightarrow> bool" where
  "level_post c s L p q q' s' L' \<longleftrightarrow>
     core c s' L' \<and> best_bid s' = best_bid s \<and> best_ask s' = best_ask s \<and>
     (\<forall>r. r \<noteq> p \<longrightarrow> L' r = L r) \<and> (\<exists>k. L' p = drop k (L p)) \<and>
     (0 < sint q' \<longrightarrow> L' p = []) \<and>
     (\<forall>y. live c s' y \<longrightarrow> live c s y \<and> key s' y = key s y) \<and>
     (\<forall>y. live c s' y \<longrightarrow> y \<notin> set (take 1 (L' p)) \<longrightarrow> pay s' y = pay s y) \<and>
     (\<forall>y \<in> set (take 1 (L' p)).
        pay s' y = (pay s y)\<lparr>qty := qty (pay s' y)\<rparr> \<and> sint (qty (pay s' y)) \<le> sint (qty (pay s y))) \<and>
     (0 < sint q \<longrightarrow> L p \<noteq> [] \<longrightarrow> sint q' \<le> 0 \<or> (\<exists>y < MaxOrders c. \<not> live c s' y)) \<and>
     (sint q', entries s' (L' p)) = fifo_fill (sint q) (entries s (L p))"

text \<open>
  \<open>sweep_post\<close> relates the state before a loop of \<open>match_internal\<close> to its result;
  \<open>entered\<close> says whether the loop condition held at the start.
\<close>

definition sweep_post ::
  "Params \<Rightarrow> OrderBook \<Rightarrow> bool \<Rightarrow> Qty \<Rightarrow> Qty \<Rightarrow> OrderBook \<Rightarrow> (Price \<Rightarrow> nat list) \<Rightarrow> bool" where
  "sweep_post c s entered q q' s' L' \<longleftrightarrow>
     book_inv c s' L' \<and> best_bid s' \<le> best_bid s \<and> best_ask s \<le> best_ask s' \<and>
     (\<forall>y. live c s' y \<longrightarrow> live c s y \<and> key s' y = key s y) \<and>
     (entered \<longrightarrow> sint q' \<le> 0 \<or> (\<exists>y < MaxOrders c. \<not> live c s' y)) \<and>
     (\<not> entered \<longrightarrow> q' = q \<and> s' = s)"

text \<open>
  \<open>rest_post c s ord s' x\<close>: from \<open>s\<close>, the order \<open>ord\<close> has come to rest in the free slot
  \<open>x\<close>, which gives \<open>s'\<close>; \<open>pool_full\<close>: no slot of the pool is free.
\<close>

definition rest_post :: "Params \<Rightarrow> OrderBook \<Rightarrow> Order \<Rightarrow> OrderBook \<Rightarrow> nat \<Rightarrow> bool" where
  "rest_post c s ord s' x \<longleftrightarrow>
     \<not> live c s x \<and> (\<forall>y. live c s' y \<longleftrightarrow> live c s y \<or> y = x) \<and>
     pay s' = (pay s)(x := payload ord) \<and>
     best_bid s' = (if side ord = Buy then max (best_bid s) (price ord) else best_bid s) \<and>
     best_ask s' = (if side ord = Sell then min (best_ask s) (price ord) else best_ask s) \<and>
     cnt s' = (cnt s)(price ord := cnt s (price ord) + 1) \<and>
     tot s' = (tot s)(price ord := tot s (price ord) + qty ord)"

definition pool_full :: "Params \<Rightarrow> OrderBook \<Rightarrow> bool" where
  "pool_full c s \<longleftrightarrow> (\<forall>x < MaxOrders c. live c s x)"

subsection \<open>The states the public operations lead to\<close>

inductive reachable :: "Params \<Rightarrow> OrderBook \<Rightarrow> bool" for c :: Params where
  reach_init: "valid_params c \<Longrightarrow> reachable c (OrderBook_init c)"
| reach_add: "reachable c s \<Longrightarrow> add c s i sd px q t tm = Some (r, s') \<Longrightarrow> reachable c s'"
| reach_cancel: "reachable c s \<Longrightarrow> cancel c s i = Some (b, s') \<Longrightarrow> reachable c s'"
| reach_match: "reachable c s \<Longrightarrow> match c s sd q = Some (q', s') \<Longrightarrow> reachable c s'"

section \<open>Evaluation\<close>

lemma MemPool_build_closed:
  "MemPool_build n m =
     m\<lparr>storage := (\<lambda>i. if i < n then FreeNode (if Suc i < n then Some (Suc i) else free_head m)
                          else storage m i),
       free_head := (if n = 0 then free_head m else Some 0)\<rparr>"
proof (induction n arbitrary: m)
  case 0
  show ?case by simp
next
  case (Suc n)
  show ?case
    by (simp add: Suc.IH fun_eq_iff less_Suc_eq)
qed

lemma MemPool_init_closed:
  "MemPool_init n =
     \<lparr>storage = (\<lambda>i. FreeNode (if Suc i < n then Some (Suc i) else None)),
      free_head = (if n = 0 then None else Some 0), alloc_cnt = 0\<rparr>"
  by (auto simp add: MemPool_init_def MemPool_build_closed fun_eq_iff)

lemmas book_eval =
  add_def crossing_def rest_order_def lookup_def lookup_probe.simps insert_map_def insert_probe.simps
  match_internal_def match_asks.simps match_bids.simps match_level.simps rehash.simps
  remove_probe.simps remove_map_def remove_from_book_def push_back_def remove_order_def
  reduce_qty_def set_counts_def modify_def deref_def assign_def level_ref_def alloc_def
  dealloc_def slot_def OrderBook_init_def MemPool_init_closed PriceLevel_init_def
  Order_new_def Order_default_def level_empty_def front_def fill_def filled_def min_qty_def
  match_def cancel_def NO_BID_def get_order_def order_count_def pool_used_def used_def

lemma one_ask_book_eq:
  "add test_params (OrderBook_init test_params) 1 Sell 100 10 Limit 0 = Some (Ok, one_ask_book)"
  by (simp add: one_ask_book_def book_eval test_params_def)

lemmas run_eval = book_of_def book_eval

section \<open>Orders in the pool\<close>

lemma is_obj_strip [simp]: "is_obj (strip cl) = is_obj cl"
  by (cases cl) simp_all

lemma cell_order_strip: "cell_order (strip cl) = payload (cell_order cl)"
  by (cases cl) (simp_all add: payload_def Order_default_def)

lemma pay_ord_at: "pay s x = payload (ord_at s x)"
  by (simp add: pay_def dat_def ord_at_def cell_order_strip)

lemma oid_ord_at [simp]: "oid (ord_at s x) = key s x"
  by (simp add: key_def pay_ord_at payload_def)

lemma ord_at_fields [simp]:
  "price (ord_at s x) = price (pay s x)" "qty (ord_at s x) = qty (pay s x)"
  "orig_qty (ord_at s x) = orig_qty (pay s x)" "side (ord_at s x) = side (pay s x)"
  by (simp_all add: pay_ord_at payload_def)

lemma live_storage: "live c s x \<longleftrightarrow> x < MaxOrders c \<and> is_obj (storage (pool s) x)"
  by (simp add: live_def dat_def)

lemma deref_live: "live c s x \<Longrightarrow> deref c s (Slot x) = Some (ord_at s x)"
  by (cases "storage (pool s) x") (simp_all add: live_storage deref_def ord_at_def)


section \<open>The index\<close>

lemma pos_less: "0 < MaxOrders c \<Longrightarrow> pos c a k < MaxOrders c"
  by (simp add: pos_def)

lemma pos_0: "a < MaxOrders c \<Longrightarrow> pos c a 0 = a"
  by (simp add: pos_def)

lemma pos_Suc: "Suc (pos c a k) mod MaxOrders c = pos c a (Suc k)"
  by (simp add: pos_def mod_Suc_eq)

lemma pos_1: "Suc a mod MaxOrders c = pos c a 1"
  by (simp add: pos_def)

lemma pos_inj:
  assumes "pos c a j = pos c a k" "j < MaxOrders c" "k < MaxOrders c"
  shows "j = k"
proof -
  have e: "(a + j) mod MaxOrders c = (a + k) mod MaxOrders c"
    using assms(1) by (simp add: pos_def)
  have aux: "u = v" if "u \<le> v" "v < MaxOrders c" "(a + v) mod MaxOrders c = (a + u) mod MaxOrders c"
    for u v
  proof -
    have "MaxOrders c dvd (a + v) - (a + u)"
      using that(1,3) mod_eq_dvd_iff_nat [of "a + u" "a + v" "MaxOrders c"] by simp
    then have "MaxOrders c dvd v - u" by simp
    moreover have "v - u < MaxOrders c" using that(2) by simp
    ultimately have "v - u = 0" using dvd_imp_le by fastforce
    then show ?thesis using that(1) by simp
  qed
  show ?thesis
  proof (cases "j \<le> k")
    case True
    then show ?thesis using aux [of j k] e assms(3) by simp
  next
    case False
    then show ?thesis using aux [of k j] e assms(2) by simp
  qed
qed

lemma pos_surj:
  assumes "a < MaxOrders c" "b < MaxOrders c"
  shows "\<exists>k < MaxOrders c. pos c a k = b"
proof (cases "a \<le> b")
  case True
  then have "pos c a (b - a) = b" using assms by (simp add: pos_def)
  moreover have "b - a < MaxOrders c" using assms by simp
  ultimately show ?thesis by blast
next
  case False
  then have "pos c a (MaxOrders c + b - a) = b" using assms by (simp add: pos_def)
  moreover have "MaxOrders c + b - a < MaxOrders c" using assms False by simp
  ultimately show ?thesis by blast
qed

lemma slot_less: "0 < MaxOrders c \<Longrightarrow> slot c i < MaxOrders c"
  by (simp add: slot_def)



lemma table_entry:
  assumes "table_ok c s M" "idx < MaxOrders c" "order_map s idx \<noteq> Null"
  obtains y where "y \<in> M" "order_map s idx = Slot y" "live c s y"
  using assms unfolding table_ok_def by blast

lemma table_same_entry:
  assumes "table_ok c s M" "i < MaxOrders c" "j < MaxOrders c"
    "order_map s i = Slot y" "order_map s j = Slot y"
  shows "i = j"
  using assms unfolding table_ok_def by (metis ptr.distinct(3))

lemma table_key_neq:
  assumes "table_ok c s M" "x \<in> M" "y \<in> M" "x \<noteq> y"
  shows "key s y \<noteq> key s x"
  using assms unfolding table_ok_def inj_on_def by blast

lemma pos_neq_start:
  assumes "a < MaxOrders c" "0 < k" "k < MaxOrders c"
  shows "pos c a k \<noteq> a"
proof
  assume "pos c a k = a"
  then have "pos c a k = pos c a 0" using assms(1) by (simp add: pos_0)
  then show False using pos_inj [of c a k 0] assms by simp
qed

lemma pos_wrap: "a < MaxOrders c \<Longrightarrow> pos c a (MaxOrders c) = a"
  by (simp add: pos_def)

lemma lookup_probe_hit:
  assumes N: "0 < MaxOrders c" and T: "table_ok c s M" and x: "x \<in> M" "key s x = i"
    and d: "d < MaxOrders c" "order_map s (pos c (slot c i) d) = Slot x"
    and run: "\<forall>k < d. order_map s (pos c (slot c i) k) \<noteq> Null"
  shows "0 < k \<Longrightarrow> k \<le> d \<Longrightarrow> lookup_probe c s i (slot c i) (pos c (slot c i) k) = Some (Slot x)"
proof (induction "d - k" arbitrary: k)
  case 0
  then have k: "k = d" by simp
  have ne: "pos c (slot c i) d \<noteq> slot c i"
    using pos_neq_start [of "slot c i" c d] slot_less [OF N] d(1) "0.prems" k by simp
  have lv: "live c s x" using T x(1) by (simp add: table_ok_def)
  show ?case
    by (subst lookup_probe.simps) (simp add: k ne d(2) deref_live [OF lv] x(2))
next
  case (Suc n)
  then have k: "k < d" by simp
  let ?idx = "pos c (slot c i) k"
  have lt: "?idx < MaxOrders c" by (rule pos_less [OF N])
  have ne: "?idx \<noteq> slot c i"
    using pos_neq_start [of "slot c i" c k] slot_less [OF N] d(1) Suc.prems k by simp
  have nn: "order_map s ?idx \<noteq> Null" using run k by simp
  obtain y where y: "y \<in> M" "order_map s ?idx = Slot y" "live c s y"
    using table_entry [OF T lt nn] by blast
  have "y \<noteq> x"
  proof
    assume "y = x"
    then have "?idx = pos c (slot c i) d"
      using table_same_entry [OF T lt pos_less [OF N] y(2)] d(2) by simp
    then have "k = d" using pos_inj k d(1) by (meson less_trans)
    then show False using k by simp
  qed
  then have kn: "key s y \<noteq> i"
    using table_key_neq [OF T x(1) y(1)] x(2) by simp
  have IH: "lookup_probe c s i (slot c i) (pos c (slot c i) (Suc k)) = Some (Slot x)"
    using Suc.hyps(1) [of "Suc k"] Suc.hyps(2) k by simp
  show ?case
    by (subst lookup_probe.simps) (simp add: ne y(2) deref_live [OF y(3)] kn pos_Suc IH)
qed

lemma lookup_probe_miss:
  assumes N: "0 < MaxOrders c" and T: "table_ok c s M" and x: "\<forall>x \<in> M. key s x \<noteq> i"
  shows "0 < k \<Longrightarrow> k \<le> MaxOrders c \<Longrightarrow>
    lookup_probe c s i (slot c i) (pos c (slot c i) k) = Some Null"
proof (induction "MaxOrders c - k" arbitrary: k)
  case 0
  then have "k = MaxOrders c" by simp
  then show ?case
    by (subst lookup_probe.simps) (simp add: pos_wrap slot_less [OF N])
next
  case (Suc n)
  then have k: "k < MaxOrders c" by simp
  let ?idx = "pos c (slot c i) k"
  have lt: "?idx < MaxOrders c" by (rule pos_less [OF N])
  have ne: "?idx \<noteq> slot c i"
    using pos_neq_start [of "slot c i" c k] slot_less [OF N] Suc.prems k by simp
  have IH: "lookup_probe c s i (slot c i) (pos c (slot c i) (Suc k)) = Some Null"
    using Suc.hyps(1) [of "Suc k"] Suc.hyps(2) k by simp
  show ?case
  proof (cases "order_map s ?idx = Null")
    case True
    then show ?thesis by (subst lookup_probe.simps) (simp add: ne)
  next
    case False
    obtain y where y: "y \<in> M" "order_map s ?idx = Slot y" "live c s y"
      using table_entry [OF T lt False] by blast
    have kn: "key s y \<noteq> i" using x y(1) by simp
    show ?thesis
      by (subst lookup_probe.simps) (simp add: ne y(2) deref_live [OF y(3)] kn pos_Suc IH)
  qed
qed

lemma entry_okD:
  assumes "probe_ok c s" "idx < MaxOrders c" "order_map s idx = Slot x"
  obtains d where "d < MaxOrders c" "idx = pos c (home c s x) d"
    "\<forall>k < d. order_map s (pos c (home c s x) k) \<noteq> Null"
  using assms unfolding probe_ok_def entry_ok_def by fastforce

lemma lookup_hit:
  assumes N: "0 < MaxOrders c" and T: "table_ok c s M" and P: "probe_ok c s"
    and x: "x \<in> M" "key s x = i"
  shows "lookup c s i = Some (Slot x)"
proof -
  obtain idx where idx: "idx < MaxOrders c" "order_map s idx = Slot x"
    using T x(1) unfolding table_ok_def by blast
  have h: "home c s x = slot c i" by (simp add: home_def x(2))
  obtain d where d: "d < MaxOrders c" "idx = pos c (slot c i) d"
    "\<forall>k < d. order_map s (pos c (slot c i) k) \<noteq> Null"
    using entry_okD [OF P idx] h by metis
  have lv: "live c s x" using T x(1) by (simp add: table_ok_def)
  have p0: "pos c (slot c i) 0 = slot c i" by (simp add: pos_0 slot_less [OF N])
  show ?thesis
  proof (cases "d = 0")
    case True
    then have "order_map s (slot c i) = Slot x" using d(2) idx(2) p0 by simp
    then show ?thesis
      by (simp add: lookup_def deref_live [OF lv] x(2))
  next
    case False
    then have nn: "order_map s (slot c i) \<noteq> Null" using d(3) p0 by (metis neq0_conv)
    obtain y where y: "y \<in> M" "order_map s (slot c i) = Slot y" "live c s y"
      using table_entry [OF T slot_less [OF N] nn] by blast
    have "y \<noteq> x"
    proof
      assume "y = x"
      then have "slot c i = idx"
        using table_same_entry [OF T slot_less [OF N] idx(1) y(2)] idx(2) by simp
      then have "pos c (slot c i) 0 = pos c (slot c i) d" using p0 d(2) by simp
      then show False using pos_inj [of c "slot c i" 0 d] d(1) False by simp
    qed
    then have kn: "key s y \<noteq> i"
      using table_key_neq [OF T x(1) y(1)] x(2) by simp
    have "lookup_probe c s i (slot c i) (pos c (slot c i) 1) = Some (Slot x)"
      using lookup_probe_hit [OF N T x d(1) _ d(3), of 1] d(2) idx(2) False by simp
    then show ?thesis
      by (simp add: lookup_def y(2) deref_live [OF y(3)] kn pos_1)
  qed
qed

lemma lookup_miss:
  assumes N: "0 < MaxOrders c" and T: "table_ok c s M" and x: "\<forall>x \<in> M. key s x \<noteq> i"
  shows "lookup c s i = Some Null"
proof -
  have p0: "pos c (slot c i) 0 = slot c i" by (simp add: pos_0 slot_less [OF N])
  have pr: "lookup_probe c s i (slot c i) (Suc (slot c i) mod MaxOrders c) = Some Null"
    using lookup_probe_miss [OF N T x, of 1] N by (simp add: pos_1)
  show ?thesis
  proof (cases "order_map s (slot c i) = Null")
    case True
    then show ?thesis by (simp add: lookup_def pr)
  next
    case False
    obtain y where y: "y \<in> M" "order_map s (slot c i) = Slot y" "live c s y"
      using table_entry [OF T slot_less [OF N] False] by blast
    have kn: "key s y \<noteq> i" using x y(1) by simp
    show ?thesis by (simp add: lookup_def y(2) deref_live [OF y(3)] kn pr)
  qed
qed

lemma pos_pos: "pos c (pos c a k) j = pos c a (k + j)"
  by (simp add: pos_def mod_add_left_eq add.assoc)

lemma dat_map_upd [simp]: "dat (s\<lparr>order_map := m\<rparr>) = dat s"
  by (simp add: dat_def fun_eq_iff)

lemma live_map_upd [simp]: "live c (s\<lparr>order_map := m\<rparr>) x = live c s x"
  by (simp add: live_def)

lemma key_map_upd [simp]: "key (s\<lparr>order_map := m\<rparr>) x = key s x"
  by (simp add: key_def pay_def)

lemma home_map_upd [simp]: "home c (s\<lparr>order_map := m\<rparr>) x = home c s x"
  by (simp add: home_def)

lemma ord_at_map_upd [simp]: "ord_at (s\<lparr>order_map := m\<rparr>) x = ord_at s x"
  by (simp add: ord_at_def)

lemma deref_map_upd [simp]: "deref c (s\<lparr>order_map := m\<rparr>) p = deref c s p"
  by (cases p) (simp_all add: deref_def)

text \<open>The first vacancy on the probe sequence from \<open>a\<close>.\<close>

lemma first_null:
  assumes N: "0 < MaxOrders c" and a: "a < MaxOrders c"
    and hole: "g < MaxOrders c" "order_map s g = Null"
  obtains d where "d < MaxOrders c" "order_map s (pos c a d) = Null"
    "\<forall>k < d. order_map s (pos c a k) \<noteq> Null"
proof -
  obtain k0 where k0: "k0 < MaxOrders c" "pos c a k0 = g"
    using pos_surj [OF a hole(1)] by blast
  define d where "d = (LEAST k. order_map s (pos c a k) = Null)"
  have P: "order_map s (pos c a k0) = Null" using k0 hole by simp
  have 1: "order_map s (pos c a d) = Null" unfolding d_def using P by (rule LeastI)
  have 2: "d \<le> k0" unfolding d_def using P by (rule Least_le)
  have 3: "\<forall>k < d. order_map s (pos c a k) \<noteq> Null"
    unfolding d_def using not_less_Least by blast
  show ?thesis using that [of d] 1 2 3 k0(1) by simp
qed

lemma insert_probe_run:
  assumes N: "0 < MaxOrders c" and T: "table_ok c s M" and K: "\<forall>y \<in> M. key s y \<noteq> i"
    and a: "a < MaxOrders c"
    and d: "d < MaxOrders c" "order_map s (pos c a d) = Null"
      "\<forall>k < d. order_map s (pos c a k) \<noteq> Null"
  shows "k \<le> d \<Longrightarrow> insert_probe c s o_ptr i a (pos c a k) =
           Some (True, s\<lparr>order_map := (order_map s)(pos c a d := o_ptr)\<rparr>)"
proof (induction "d - k" arbitrary: k)
  case 0
  then have "k = d" by simp
  then show ?case by (subst insert_probe.simps) (simp add: d(2))
next
  case (Suc n)
  then have k: "k < d" by simp
  let ?idx = "pos c a k"
  have lt: "?idx < MaxOrders c" by (rule pos_less [OF N])
  have nn: "order_map s ?idx \<noteq> Null" using d(3) k by simp
  obtain y where y: "y \<in> M" "order_map s ?idx = Slot y" "live c s y"
    using table_entry [OF T lt nn] by blast
  have kn: "key s y \<noteq> i" using K y(1) by simp
  have ns: "pos c a (Suc k) \<noteq> a"
    using pos_neq_start [OF a, of "Suc k"] k d(1) by simp
  have IH: "insert_probe c s o_ptr i a (pos c a (Suc k)) =
           Some (True, s\<lparr>order_map := (order_map s)(pos c a d := o_ptr)\<rparr>)"
    using Suc.hyps(1) [of "Suc k"] Suc.hyps(2) k by simp
  show ?case
    by (subst insert_probe.simps) (simp add: y(2) deref_live [OF y(3)] kn pos_Suc ns IH)
qed

lemma insert_map_eq:
  assumes N: "0 < MaxOrders c" and T: "table_ok c s M" and lv: "live c s x"
    and K: "\<forall>y \<in> M. key s y \<noteq> key s x"
    and d: "d < MaxOrders c" "order_map s (pos c (home c s x) d) = Null"
      "\<forall>k < d. order_map s (pos c (home c s x) k) \<noteq> Null"
  shows "insert_map c s (Slot x) =
           Some (True, s\<lparr>order_map := (order_map s)(pos c (home c s x) d := Slot x)\<rparr>)"
proof -
  have a: "home c s x < MaxOrders c" by (simp add: home_def slot_less [OF N])
  have "insert_probe c s (Slot x) (key s x) (home c s x) (pos c (home c s x) 0) =
           Some (True, s\<lparr>order_map := (order_map s)(pos c (home c s x) d := Slot x)\<rparr>)"
    by (rule insert_probe_run [OF N T K a d]) simp
  then show ?thesis
    by (simp add: insert_map_def deref_live [OF lv] pos_0 [OF a] home_def [symmetric])
qed

lemma table_ok_vacate:
  assumes T: "table_ok c s M" and g: "g < MaxOrders c" "order_map s g = Slot x"
  shows "table_ok c (s\<lparr>order_map := (order_map s)(g := Null)\<rparr>) (M - {x})"
proof -
  have xM: "x \<in> M" using T g unfolding table_ok_def by (metis ptr.distinct(3) ptr.inject(2))
  have uniq: "\<And>j. j < MaxOrders c \<Longrightarrow> order_map s j = Slot x \<Longrightarrow> j = g"
    using table_same_entry [OF T _ g(1) _ g(2)] by blast
  show ?thesis
    unfolding table_ok_def
  proof (intro conjI)
    show "\<forall>x\<in>M - {x}. live c (s\<lparr>order_map := (order_map s)(g := Null)\<rparr>) x"
      using T by (simp add: table_ok_def)
    show "inj_on (key (s\<lparr>order_map := (order_map s)(g := Null)\<rparr>)) (M - {x})"
      using T by (auto simp: table_ok_def inj_on_def)
    show "\<forall>idx<MaxOrders c. order_map (s\<lparr>order_map := (order_map s)(g := Null)\<rparr>) idx = Null \<or>
        (\<exists>x\<in>M - {x}. order_map (s\<lparr>order_map := (order_map s)(g := Null)\<rparr>) idx = Slot x)"
      using T uniq by (auto simp: table_ok_def)
    show "\<forall>x\<in>M - {x}. \<exists>idx<MaxOrders c.
        order_map (s\<lparr>order_map := (order_map s)(g := Null)\<rparr>) idx = Slot x"
    proof
      fix y assume y: "y \<in> M - {x}"
      then obtain idx where idx: "idx < MaxOrders c" "order_map s idx = Slot y"
        using T unfolding table_ok_def by blast
      then have "idx \<noteq> g" using g(2) y by auto
      then show "\<exists>idx<MaxOrders c.
        order_map (s\<lparr>order_map := (order_map s)(g := Null)\<rparr>) idx = Slot y"
        using idx by auto
    qed
    show "\<forall>i<MaxOrders c. \<forall>j<MaxOrders c.
        order_map (s\<lparr>order_map := (order_map s)(g := Null)\<rparr>) i =
        order_map (s\<lparr>order_map := (order_map s)(g := Null)\<rparr>) j \<longrightarrow>
        order_map (s\<lparr>order_map := (order_map s)(g := Null)\<rparr>) i \<noteq> Null \<longrightarrow> i = j"
      using T by (auto simp: table_ok_def)
  qed
qed

lemma table_ok_fill:
  assumes T: "table_ok c s M" and j: "j < MaxOrders c" "order_map s j = Null"
    and x: "x \<notin> M" "live c s x" "\<forall>y \<in> M. key s y \<noteq> key s x"
  shows "table_ok c (s\<lparr>order_map := (order_map s)(j := Slot x)\<rparr>) (insert x M)"
  unfolding table_ok_def
proof (intro conjI)
  let ?s = "s\<lparr>order_map := (order_map s)(j := Slot x)\<rparr>"
  show "\<forall>x\<in>insert x M. live c ?s x"
    using T x(2) by (simp add: table_ok_def)
  show "inj_on (key ?s) (insert x M)"
    using T x(1,3) by (auto simp: table_ok_def inj_on_def)
  show "\<forall>idx<MaxOrders c. order_map ?s idx = Null \<or> (\<exists>x\<in>insert x M. order_map ?s idx = Slot x)"
    using T by (auto simp: table_ok_def)
  show "\<forall>x\<in>insert x M. \<exists>idx<MaxOrders c. order_map ?s idx = Slot x"
    using T j by (auto simp: table_ok_def) (metis ptr.distinct(3))
  show "\<forall>i<MaxOrders c. \<forall>j<MaxOrders c. order_map ?s i = order_map ?s j \<longrightarrow>
        order_map ?s i \<noteq> Null \<longrightarrow> i = j"
    using T x(1) by (auto simp: table_ok_def)
qed

lemma dist_pos:
  assumes "a < MaxOrders c" "d < MaxOrders c"
  shows "dist c a (pos c a d) = d"
proof (cases "a + d < MaxOrders c")
  case True
  then show ?thesis using assms by (simp add: dist_def pos_def)
next
  case False
  then have "(a + d) mod MaxOrders c = a + d - MaxOrders c"
    using assms by (simp add: mod_if)
  then show ?thesis using assms False by (simp add: dist_def pos_def)
qed

lemma runlen_step:
  assumes a: "a < MaxOrders c" and nn: "order_map s a \<noteq> Null"
    and hole: "g < MaxOrders c" "order_map s g = Null"
  shows "runlen c s (pos c a 1) < runlen c s a"
proof -
  obtain k0 where k0: "k0 < MaxOrders c" "pos c a k0 = g"
    using pos_surj [OF a hole(1)] by blast
  have P: "order_map s (pos c a k0) = Null" using k0 hole by simp
  have P0: "\<not> order_map s (pos c a 0) = Null" using nn a by (simp add: pos_0)
  have "(LEAST k. order_map s (pos c a k) = Null) =
        Suc (LEAST k. order_map s (pos c a (Suc k)) = Null)"
    using P P0 by (rule Least_Suc)
  then show ?thesis by (simp add: runlen_def pos_pos)
qed

lemma sum_split2:
  fixes f :: "nat \<Rightarrow> nat"
  assumes "a < n" "b < n" "a \<noteq> b"
  shows "(\<Sum>i < n. f i) = f a + f b + (\<Sum>i \<in> {..<n} - {a, b}. f i)"
proof -
  have "(\<Sum>i < n. f i) = f a + (\<Sum>i \<in> {..<n} - {a}. f i)"
    using assms(1) by (simp add: sum.remove)
  also have "(\<Sum>i \<in> {..<n} - {a}. f i) = f b + (\<Sum>i \<in> {..<n} - {a} - {b}. f i)"
    using assms(2,3) by (simp add: sum.remove)
  also have "{..<n} - {a} - {b} = {..<n} - {a, b}" by auto
  finally show ?thesis by simp
qed

lemma Dsum_decrease:
  assumes n: "nx < MaxOrders c" "j < MaxOrders c" "j \<noteq> nx"
    and m: "order_map s nx = Slot x" "order_map s j = Null"
    and d: "dist c (home c s x) j < dist c (home c s x) nx"
  shows "Dsum c (s\<lparr>order_map := (order_map s)(nx := Null, j := Slot x)\<rparr>) < Dsum c s"
proof -
  let ?s2 = "s\<lparr>order_map := (order_map s)(nx := Null, j := Slot x)\<rparr>"
  have rest: "(\<Sum>i \<in> {..<MaxOrders c} - {nx, j}. wt c ?s2 i) =
              (\<Sum>i \<in> {..<MaxOrders c} - {nx, j}. wt c s i)"
    by (rule sum.cong) (auto simp: wt_def split: ptr.splits)
  have "Dsum c ?s2 = wt c ?s2 nx + wt c ?s2 j + (\<Sum>i \<in> {..<MaxOrders c} - {nx, j}. wt c ?s2 i)"
    unfolding Dsum_def using sum_split2 [of nx "MaxOrders c" j] n by simp
  moreover have "Dsum c s = wt c s nx + wt c s j + (\<Sum>i \<in> {..<MaxOrders c} - {nx, j}. wt c s i)"
    unfolding Dsum_def using sum_split2 [of nx "MaxOrders c" j] n by simp
  moreover have "wt c ?s2 nx = 0" "wt c ?s2 j = dist c (home c s x) j"
    "wt c s nx = dist c (home c s x) nx" "wt c s j = 0"
    using n(3) m by (simp_all add: wt_def split: ptr.splits)
  ultimately show ?thesis using d rest by simp
qed

lemma entry_ok_nonslot: "order_map s e = Null \<Longrightarrow> entry_ok c s e"
  by (simp add: entry_ok_def)

lemma entry_okI:
  assumes "order_map s e = Slot y" "d < MaxOrders c" "e = pos c (home c s y) d"
    "\<forall>k < d. order_map s (pos c (home c s y) k) \<noteq> Null"
  shows "entry_ok c s e"
  using assms unfolding entry_ok_def by auto

lemma entry_okE:
  assumes "entry_ok c s e" "order_map s e = Slot y"
  obtains d where "d < MaxOrders c" "e = pos c (home c s y) d"
    "\<forall>k < d. order_map s (pos c (home c s y) k) \<noteq> Null"
  using assms unfolding entry_ok_def by auto

text \<open>
  An entry that was reachable and stops being so when \<open>g\<close> is vacated lies in the run that
  follows \<open>g\<close>.
\<close>

lemma broken_in_run:
  assumes ok: "entry_ok c s e" and e: "order_map s e = Slot y" "m' e = Slot y"
    and keep: "\<And>p. order_map s p \<noteq> Null \<Longrightarrow> p \<noteq> g \<Longrightarrow> m' p \<noteq> Null"
    and bad: "\<not> entry_ok c (s\<lparr>order_map := m'\<rparr>) e"
  shows "in_run c (s\<lparr>order_map := m'\<rparr>) (pos c g 1) e"
proof -
  obtain d where d: "d < MaxOrders c" "e = pos c (home c s y) d"
    "\<forall>k < d. order_map s (pos c (home c s y) k) \<noteq> Null"
    using entry_okE [OF ok e(1)] by blast
  have "\<not> (\<forall>k < d. m' (pos c (home c s y) k) \<noteq> Null)"
    using bad entry_okI [of "s\<lparr>order_map := m'\<rparr>" e y d c] e(2) d(1,2) by auto
  then obtain k0 where k0: "k0 < d" "m' (pos c (home c s y) k0) = Null" by blast
  have g: "pos c (home c s y) k0 = g" using keep [of "pos c (home c s y) k0"] k0 d(3) by blast
  have posg: "\<And>j. pos c (pos c g 1) j = pos c (home c s y) (k0 + 1 + j)"
    using g by (metis pos_pos add.assoc)
  have "e = pos c (pos c g 1) (d - k0 - 1)" using posg [of "d - k0 - 1"] d(2) k0(1) by simp
  moreover have "d - k0 - 1 < MaxOrders c" using d(1) by simp
  moreover have "\<forall>j \<le> d - k0 - 1. m' (pos c (pos c g 1) j) \<noteq> Null"
  proof (intro allI impI)
    fix j assume j: "j \<le> d - k0 - 1"
    let ?k = "k0 + 1 + j"
    have kd: "?k \<le> d" using j k0(1) by simp
    have nn: "order_map s (pos c (home c s y) ?k) \<noteq> Null"
    proof (cases "?k = d")
      case True then show ?thesis using d(2) e(1) by simp
    next
      case False then show ?thesis using d(3) kd by simp
    qed
    have "pos c (home c s y) ?k \<noteq> g"
    proof
      assume "pos c (home c s y) ?k = g"
      then have "pos c (home c s y) ?k = pos c (home c s y) k0" using g by simp
      then have "?k = k0" using pos_inj [of c "home c s y" ?k k0] kd d(1) k0(1) by simp
      then show False by simp
    qed
    then show "m' (pos c (pos c g 1) j) \<noteq> Null" using keep [OF nn] posg [of j] by simp
  qed
  ultimately show ?thesis unfolding in_run_def by auto
qed

lemma in_run_advance:
  assumes r: "in_run c s g e" and g: "g < MaxOrders c" "e \<noteq> g"
    and keep: "\<And>p. order_map s p \<noteq> Null \<Longrightarrow> p \<noteq> g \<Longrightarrow> m' p \<noteq> Null"
  shows "in_run c (s\<lparr>order_map := m'\<rparr>) (pos c g 1) e"
proof -
  obtain k where k: "k < MaxOrders c" "e = pos c g k" "\<forall>j \<le> k. order_map s (pos c g j) \<noteq> Null"
    using r unfolding in_run_def by blast
  have k0: "k \<noteq> 0"
  proof
    assume "k = 0"
    then have "e = g" using k(2) pos_0 [OF g(1)] by simp
    then show False using g(2) by simp
  qed
  have "e = pos c (pos c g 1) (k - 1)" using k(2) k0 by (simp add: pos_pos)
  moreover have "k - 1 < MaxOrders c" using k(1) by simp
  moreover have "\<forall>j \<le> k - 1. m' (pos c (pos c g 1) j) \<noteq> Null"
  proof (intro allI impI)
    fix j assume j: "j \<le> k - 1"
    have nn: "order_map s (pos c g (1 + j)) \<noteq> Null" using k(3) j k0 by simp
    have "pos c g (1 + j) \<noteq> g"
      using pos_neq_start [OF g(1), of "1 + j"] j k(1) k0 by simp
    then show "m' (pos c (pos c g 1) j) \<noteq> Null" using keep [OF nn] by (simp add: pos_pos)
  qed
  ultimately show ?thesis unfolding in_run_def by auto
qed



lemma rehash_total:
  assumes N: "0 < MaxOrders c"
  shows "table_ok c s M \<Longrightarrow> g < MaxOrders c \<Longrightarrow> order_map s g = Null \<Longrightarrow> nx < MaxOrders c \<Longrightarrow>
    (\<forall>e < MaxOrders c. \<not> entry_ok c s e \<longrightarrow> in_run c s nx e) \<Longrightarrow>
    \<exists>m'. rehash c s nx = Some (s\<lparr>order_map := m'\<rparr>) \<and>
          table_ok c (s\<lparr>order_map := m'\<rparr>) M \<and> probe_ok c (s\<lparr>order_map := m'\<rparr>)"
proof (induction "Dsum c s" arbitrary: s nx g rule: less_induct)
  case less
  note outer = less.hyps
  show ?case using less.prems
  proof (induction "runlen c s nx" arbitrary: nx rule: less_induct)
    case (less nx)
    note T = less.prems(1) and g = less.prems(2,3) and nx = less.prems(4) and bad = less.prems(5)
    show ?case
    proof (cases "order_map s nx = Null")
      case True
      have "entry_ok c s e" if "e < MaxOrders c" for e
      proof (rule ccontr)
        assume "\<not> entry_ok c s e"
        then have "in_run c s nx e" using bad that by blast
        then have "order_map s (pos c nx 0) \<noteq> Null" unfolding in_run_def by blast
        then show False using True pos_0 [OF nx] by simp
      qed
      then have "probe_ok c s" by (simp add: probe_ok_def)
      moreover have "rehash c s nx = Some s" by (subst rehash.simps) (simp add: True)
      moreover have "s\<lparr>order_map := order_map s\<rparr> = s" by simp
      ultimately show ?thesis using T by metis
    next
      case False
      obtain x where x: "x \<in> M" "order_map s nx = Slot x" "live c s x"
        using table_entry [OF T nx False] by blast
      let ?s1 = "s\<lparr>order_map := (order_map s)(nx := Null)\<rparr>"
      have T1: "table_ok c ?s1 (M - {x})" by (rule table_ok_vacate [OF T nx x(2)])
      have K1: "\<forall>y \<in> M - {x}. key ?s1 y \<noteq> key ?s1 x"
        using table_key_neq [OF T x(1)] by auto
      have hx: "home c s x < MaxOrders c" by (simp add: home_def slot_less [OF N])
      obtain d where d: "d < MaxOrders c" "order_map ?s1 (pos c (home c s x) d) = Null"
        "\<forall>k < d. order_map ?s1 (pos c (home c s x) k) \<noteq> Null"
        using first_null [OF N hx nx, of ?s1] by auto
      let ?j = "pos c (home c s x) d"
      let ?s2 = "s\<lparr>order_map := (order_map s)(nx := Null, ?j := Slot x)\<rparr>"
      have jlt: "?j < MaxOrders c" by (rule pos_less [OF N])
      have ins: "insert_map c ?s1 (Slot x) = Some (True, ?s2)"
        using insert_map_eq [OF N T1 _ K1, of d] x(3) d by simp
      have step: "rehash c s nx = rehash c ?s2 (pos c nx 1)"
        by (subst rehash.simps) (simp add: x(2) ins pos_1)
      have T2: "table_ok c ?s2 M"
      proof -
        have a: "x \<notin> M - {x}" by simp
        have b: "live c ?s1 x" using x(3) by simp
        have "table_ok c (?s1\<lparr>order_map := (order_map ?s1)(?j := Slot x)\<rparr>) (insert x (M - {x}))"
          by (rule table_ok_fill [OF T1 jlt d(2) a b K1])
        moreover have "insert x (M - {x}) = M" using x(1) by auto
        ultimately show ?thesis by simp
      qed
      have keep: "order_map ?s2 p \<noteq> Null" if "order_map s p \<noteq> Null" "p \<noteq> nx" for p
        using that by simp
      have okj: "entry_ok c ?s2 ?j"
      proof (rule entry_okI [of _ _ x d])
        show "order_map ?s2 ?j = Slot x" by simp
        show "d < MaxOrders c" by (rule d(1))
        show "?j = pos c (home c ?s2 x) d" by simp
        show "\<forall>k<d. order_map ?s2 (pos c (home c ?s2 x) k) \<noteq> Null"
          using d(3) by auto
      qed
      have bad2: "\<forall>e < MaxOrders c. \<not> entry_ok c ?s2 e \<longrightarrow> in_run c ?s2 (pos c nx 1) e"
      proof (intro allI impI)
        fix e assume e: "e < MaxOrders c" "\<not> entry_ok c ?s2 e"
        have ej: "e \<noteq> ?j" using e(2) okj by auto
        have "order_map ?s2 e \<noteq> Null" using e(2) entry_ok_nonslot by blast
        then have en: "e \<noteq> nx" "order_map s e \<noteq> Null" using ej by (auto split: if_splits)
        then obtain y where y: "order_map s e = Slot y"
          using table_entry [OF T e(1)] by blast
        have y2: "order_map ?s2 e = Slot y" using y ej en(1) by simp
        show "in_run c ?s2 (pos c nx 1) e"
        proof (cases "entry_ok c s e")
          case True
          show ?thesis
            using broken_in_run [OF True y, of "order_map ?s2" nx] y2 keep e(2) by simp
        next
          case False
          then have "in_run c s nx e" using bad e(1) by blast
          then show ?thesis
            using in_run_advance [of c s nx e "order_map ?s2"] nx en(1) keep by simp
        qed
      qed
      have n1: "pos c nx 1 < MaxOrders c" by (rule pos_less [OF N])
      show ?thesis
      proof (cases "?j = nx")
        case True
        then have same: "?s2 = s" using x(2) by (simp add: fun_upd_idem)
        have "runlen c s (pos c nx 1) < runlen c s nx"
          by (rule runlen_step [OF nx False g])
        then show ?thesis
          using less.hyps [OF _ T g n1] bad2 step same by simp
      next
        case False
        have dn: "order_map s ?j = Null" using d(2) False by (simp split: if_splits)
        obtain d2 where d2: "d2 < MaxOrders c" "pos c (home c s x) d2 = nx"
          using pos_surj [OF hx nx] by blast
        have "\<not> d2 < d" using d(3) d2(2) by auto
        moreover have "d2 \<noteq> d" using d2(2) False by auto
        ultimately have "d < d2" by simp
        then have "dist c (home c s x) ?j < dist c (home c s x) nx"
          using dist_pos [OF hx d(1)] dist_pos [OF hx d2(1)] d2(2) by simp
        then have dec: "Dsum c ?s2 < Dsum c s"
          using Dsum_decrease [OF nx jlt False x(2) dn] by simp
        have h2: "order_map ?s2 nx = Null" using False by simp
        obtain m' where "rehash c ?s2 (pos c nx 1) = Some (?s2\<lparr>order_map := m'\<rparr>)"
          "table_ok c (?s2\<lparr>order_map := m'\<rparr>) M" "probe_ok c (?s2\<lparr>order_map := m'\<rparr>)"
          using outer [OF dec T2 nx h2 n1 bad2] by blast
        then show ?thesis using step by auto
      qed
    qed
  qed
qed

text \<open>The outer loop of \<open>remove_map\<close> finds the entry, vacates it and rehashes what follows.\<close>

lemma remove_probe_run:
  assumes N: "0 < MaxOrders c" and T: "table_ok c s M" and P: "probe_ok c s"
    and x: "x \<in> M"
    and d: "d < MaxOrders c" "order_map s (pos c (home c s x) d) = Slot x"
      "\<forall>k < d. order_map s (pos c (home c s x) k) \<noteq> Null"
  shows "k \<le> d \<Longrightarrow> \<exists>m'. remove_probe c s (key s x) (pos c (home c s x) k) = Some (s\<lparr>order_map := m'\<rparr>) \<and>
          table_ok c (s\<lparr>order_map := m'\<rparr>) (M - {x}) \<and> probe_ok c (s\<lparr>order_map := m'\<rparr>)"
proof (induction "d - k" arbitrary: k)
  case 0
  then have k: "k = d" by simp
  let ?g = "pos c (home c s x) d"
  let ?s1 = "s\<lparr>order_map := (order_map s)(?g := Null)\<rparr>"
  have glt: "?g < MaxOrders c" by (rule pos_less [OF N])
  have lv: "live c s x" using T x by (simp add: table_ok_def)
  have T1: "table_ok c ?s1 (M - {x})" by (rule table_ok_vacate [OF T glt d(2)])
  have keep: "order_map ?s1 p \<noteq> Null" if "order_map s p \<noteq> Null" "p \<noteq> ?g" for p
    using that by simp
  have bad1: "\<forall>e < MaxOrders c. \<not> entry_ok c ?s1 e \<longrightarrow> in_run c ?s1 (pos c ?g 1) e"
  proof (intro allI impI)
    fix e assume e: "e < MaxOrders c" "\<not> entry_ok c ?s1 e"
    have "order_map ?s1 e \<noteq> Null" using e(2) entry_ok_nonslot by blast
    then have en: "e \<noteq> ?g" "order_map s e \<noteq> Null" by (auto split: if_splits)
    then obtain y where y: "order_map s e = Slot y"
      using table_entry [OF T e(1)] by blast
    have ok: "entry_ok c s e" using P e(1) by (simp add: probe_ok_def)
    show "in_run c ?s1 (pos c ?g 1) e"
      using broken_in_run [OF ok y, of "order_map ?s1" ?g] y en(1) keep e(2) by simp
  qed
  have "\<exists>m'. rehash c ?s1 (pos c ?g 1) = Some (?s1\<lparr>order_map := m'\<rparr>) \<and>
          table_ok c (?s1\<lparr>order_map := m'\<rparr>) (M - {x}) \<and> probe_ok c (?s1\<lparr>order_map := m'\<rparr>)"
    by (rule rehash_total [OF N T1 glt _ pos_less [OF N] bad1]) simp
  moreover have "remove_probe c s (key s x) ?g = rehash c ?s1 (pos c ?g 1)"
    by (subst remove_probe.simps) (simp add: d(2) deref_live [OF lv] pos_1)
  ultimately show ?case using k by auto
next
  case (Suc n)
  then have k: "k < d" by simp
  let ?idx = "pos c (home c s x) k"
  have lt: "?idx < MaxOrders c" by (rule pos_less [OF N])
  have nn: "order_map s ?idx \<noteq> Null" using d(3) k by simp
  obtain y where y: "y \<in> M" "order_map s ?idx = Slot y" "live c s y"
    using table_entry [OF T lt nn] by blast
  have "y \<noteq> x"
  proof
    assume "y = x"
    then have "?idx = pos c (home c s x) d"
      using table_same_entry [OF T lt pos_less [OF N] y(2)] d(2) by simp
    then have "k = d" using pos_inj k d(1) by (meson less_trans)
    then show False using k by simp
  qed
  then have kn: "key s y \<noteq> key s x"
    using table_key_neq [OF T x y(1)] by simp
  have "remove_probe c s (key s x) ?idx = remove_probe c s (key s x) (pos c (home c s x) (Suc k))"
    by (subst remove_probe.simps) (simp add: y(2) deref_live [OF y(3)] kn pos_Suc)
  then show ?case using Suc.hyps(1) [of "Suc k"] Suc.hyps(2) k by simp
qed

lemma remove_map_total:
  assumes N: "0 < MaxOrders c" and T: "table_ok c s M" and P: "probe_ok c s" and x: "x \<in> M"
  shows "\<exists>m'. remove_map c s (key s x) = Some (s\<lparr>order_map := m'\<rparr>) \<and>
          table_ok c (s\<lparr>order_map := m'\<rparr>) (M - {x}) \<and> probe_ok c (s\<lparr>order_map := m'\<rparr>)"
proof -
  obtain idx where idx: "idx < MaxOrders c" "order_map s idx = Slot x"
    using T x unfolding table_ok_def by blast
  obtain d where d: "d < MaxOrders c" "idx = pos c (home c s x) d"
    "\<forall>k < d. order_map s (pos c (home c s x) k) \<noteq> Null"
    using entry_okD [OF P idx] by metis
  have hx: "home c s x < MaxOrders c" by (simp add: home_def slot_less [OF N])
  show ?thesis
    using remove_probe_run [OF N T P x d(1) _ d(3), of 0] idx(2) d(2) pos_0 [OF hx]
    by (simp add: remove_map_def home_def)
qed

text \<open>Insertion of a new order into a table that has a vacancy.\<close>

lemma insert_map_total:
  assumes N: "0 < MaxOrders c" and T: "table_ok c s M" and P: "probe_ok c s"
    and x: "x \<notin> M" "live c s x" "\<forall>y \<in> M. key s y \<noteq> key s x"
    and hole: "g < MaxOrders c" "order_map s g = Null"
  shows "\<exists>m'. insert_map c s (Slot x) = Some (True, s\<lparr>order_map := m'\<rparr>) \<and>
          table_ok c (s\<lparr>order_map := m'\<rparr>) (insert x M) \<and> probe_ok c (s\<lparr>order_map := m'\<rparr>)"
proof -
  have hx: "home c s x < MaxOrders c" by (simp add: home_def slot_less [OF N])
  obtain d where d: "d < MaxOrders c" "order_map s (pos c (home c s x) d) = Null"
    "\<forall>k < d. order_map s (pos c (home c s x) k) \<noteq> Null"
    using first_null [OF N hx hole] by blast
  let ?j = "pos c (home c s x) d"
  let ?s2 = "s\<lparr>order_map := (order_map s)(?j := Slot x)\<rparr>"
  have jlt: "?j < MaxOrders c" by (rule pos_less [OF N])
  have ins: "insert_map c s (Slot x) = Some (True, ?s2)"
    by (rule insert_map_eq [OF N T x(2,3) d])
  have T2: "table_ok c ?s2 (insert x M)" by (rule table_ok_fill [OF T jlt d(2) x])
  have "entry_ok c ?s2 e" if e: "e < MaxOrders c" for e
  proof (cases "e = ?j")
    case True
    show ?thesis unfolding True
    proof (rule entry_okI [of _ _ x d])
      show "order_map ?s2 ?j = Slot x" by simp
      show "d < MaxOrders c" by (rule d(1))
      show "?j = pos c (home c ?s2 x) d" by simp
      show "\<forall>k<d. order_map ?s2 (pos c (home c ?s2 x) k) \<noteq> Null" using d(3) by auto
    qed
  next
    case False
    show ?thesis
    proof (cases "order_map s e = Null")
      case True
      then show ?thesis using False by (simp add: entry_ok_def)
    next
      case nn: False
      obtain y where y: "order_map s e = Slot y" using table_entry [OF T e nn] by blast
      have ok: "entry_ok c s e" using P e by (simp add: probe_ok_def)
      obtain dy where dy: "dy < MaxOrders c" "e = pos c (home c s y) dy"
        "\<forall>k < dy. order_map s (pos c (home c s y) k) \<noteq> Null"
        using entry_okE [OF ok y] by blast
      show ?thesis
      proof (rule entry_okI [of _ _ y dy])
        show "order_map ?s2 e = Slot y" using y False by simp
        show "dy < MaxOrders c" by (rule dy(1))
        show "e = pos c (home c ?s2 y) dy" using dy(2) by simp
        show "\<forall>k<dy. order_map ?s2 (pos c (home c ?s2 y) k) \<noteq> Null" using dy(3) by auto
      qed
    qed
  qed
  then have "probe_ok c ?s2" by (simp add: probe_ok_def)
  then show ?thesis using ins T2 by blast
qed

section \<open>Paths\<close>

lemma path_append: "path f a (xs @ ys) b \<longleftrightarrow> (\<exists>m. path f a xs m \<and> path f m ys b)"
  by (induction xs arbitrary: a) auto

lemma path_snoc: "path f a (xs @ [x]) b \<longleftrightarrow> path f a xs (Slot x) \<and> f (Slot x) = b"
  by (auto simp: path_append)

lemma path_cong: "(\<And>x. x \<in> set xs \<Longrightarrow> g (Slot x) = f (Slot x)) \<Longrightarrow> path g a xs b = path f a xs b"
  by (induction xs arbitrary: a) auto

lemma path_upd: "q \<notin> Slot ` set xs \<Longrightarrow> path (f(q := v)) a xs b = path f a xs b"
  by (rule path_cong) auto

lemma path_hd: "path f a (x # xs) b \<Longrightarrow> a = Slot x"
  by simp

lemma path_sentinel_nil: "path f (Sentinel p) xs b \<longleftrightarrow> xs = [] \<and> b = Sentinel p"
  by (cases xs) auto


section \<open>The list of a level\<close>

lemma chainf_nil: "chainf nf pf p [] \<longleftrightarrow> nf (Sentinel p) = Sentinel p \<and> pf (Sentinel p) = Sentinel p"
  by (auto simp: chainf_def)

lemma chainf_front: "chainf nf pf p (x # xs) \<Longrightarrow> nf (Sentinel p) = Slot x"
  by (simp add: chainf_def)

lemma chainf_front_nil: "chainf nf pf p xs \<Longrightarrow> nf (Sentinel p) = Sentinel p \<Longrightarrow> xs = []"
  by (cases xs) (auto simp: chainf_def)

lemma chainf_back: "chainf nf pf p (xs @ [x]) \<Longrightarrow> pf (Sentinel p) = Slot x"
  by (simp add: chainf_def)


lemma chainf_cong:
  assumes "\<And>x. x \<in> set xs \<Longrightarrow> nf' (Slot x) = nf (Slot x) \<and> pf' (Slot x) = pf (Slot x)"
    "nf' (Sentinel p) = nf (Sentinel p)" "pf' (Sentinel p) = pf (Sentinel p)"
  shows "chainf nf' pf' p xs = chainf nf pf p xs"
  unfolding chainf_def using assms path_cong [of xs nf' nf] path_cong [of "rev xs" pf' pf]
  by simp

lemma chainf_push:
  assumes ch: "chainf nf pf p xs" and d: "distinct xs" and x: "x \<notin> set xs"
  shows "chainf (nf(Slot x := Sentinel p, pf (Sentinel p) := Slot x))
                (pf(Slot x := pf (Sentinel p), Sentinel p := Slot x)) p (xs @ [x])"
proof (cases xs rule: rev_cases)
  case Nil
  then have "nf (Sentinel p) = Sentinel p" "pf (Sentinel p) = Sentinel p"
    using ch by (simp_all add: chainf_nil)
  then show ?thesis using Nil by (simp add: chainf_def)
next
  case (snoc ys y)
  have t: "pf (Sentinel p) = Slot y" using ch snoc chainf_back by blast
  have yx: "y \<noteq> x" "y \<notin> set ys" "x \<notin> set ys" using d x snoc by auto
  have f: "path nf (nf (Sentinel p)) ys (Slot y)" "nf (Slot y) = Sentinel p"
    using ch snoc by (simp_all add: chainf_def path_snoc)
  have b: "path pf (pf (Sentinel p)) (rev xs) (Sentinel p)" using ch by (simp add: chainf_def)
  have "path (nf(Slot x := Sentinel p, Slot y := Slot x)) (nf (Sentinel p)) ys (Slot y)"
    using f(1) yx by (simp add: path_upd image_iff)
  then have 1: "path (nf(Slot x := Sentinel p, Slot y := Slot x))
                 ((nf(Slot x := Sentinel p, Slot y := Slot x)) (Sentinel p)) (xs @ [x]) (Sentinel p)"
    using yx snoc by (auto simp: path_append)
  have "path (pf(Slot x := Slot y, Sentinel p := Slot x)) (Slot y) (rev xs) (Sentinel p)"
    using b t x by (simp add: path_upd image_iff)
  then have 2: "path (pf(Slot x := Slot y, Sentinel p := Slot x))
                 ((pf(Slot x := Slot y, Sentinel p := Slot x)) (Sentinel p)) (rev (xs @ [x])) (Sentinel p)"
    by simp
  show ?thesis unfolding chainf_def t using 1 2 by simp
qed

lemma chainf_links:
  assumes ch: "chainf nf pf p (ys @ x # zs)"
  shows "pf (Slot x) = (if ys = [] then Sentinel p else Slot (last ys))"
    "nf (Slot x) = (if zs = [] then Sentinel p else Slot (hd zs))"
proof -
  have f: "path nf (nf (Slot x)) zs (Sentinel p)"
    using ch by (auto simp: chainf_def path_append)
  have b: "path pf (pf (Slot x)) (rev ys) (Sentinel p)"
    using ch by (auto simp: chainf_def path_append)
  show "pf (Slot x) = (if ys = [] then Sentinel p else Slot (last ys))"
    using b by (cases ys rule: rev_cases) auto
  show "nf (Slot x) = (if zs = [] then Sentinel p else Slot (hd zs))"
    using f by (cases zs) auto
qed

lemma chainf_remove:
  assumes ch: "chainf nf pf p (ys @ x # zs)" and d: "distinct (ys @ x # zs)"
  shows "chainf (nf(pf (Slot x) := nf (Slot x), Slot x := Null))
                (pf(nf (Slot x) := pf (Slot x), Slot x := Null)) p (ys @ zs)"
proof -
  let ?S = "Sentinel p"
  have f1: "path nf (nf ?S) ys (Slot x)" and f2: "path nf (nf (Slot x)) zs ?S"
    using ch by (auto simp: chainf_def path_append)
  have b1: "path pf (pf ?S) (rev zs) (Slot x)" and b2: "path pf (pf (Slot x)) (rev ys) ?S"
    using ch by (auto simp: chainf_def path_append)
  have xs: "x \<notin> set ys" "x \<notin> set zs" using d by auto
  let ?nf = "nf(pf (Slot x) := nf (Slot x), Slot x := Null)"
  let ?pf = "pf(nf (Slot x) := pf (Slot x), Slot x := Null)"
  have F: "path ?nf (?nf ?S) (ys @ zs) ?S"
  proof (cases ys rule: rev_cases)
    case Nil
    then have a: "pf (Slot x) = ?S" using b2 by simp
    have "path ?nf (nf (Slot x)) zs ?S" using f2 xs by (simp add: a path_upd image_iff)
    then show ?thesis using Nil a by simp
  next
    case (snoc ys' y)
    then have a: "pf (Slot x) = Slot y" using b2 by simp
    have y: "y \<noteq> x" "y \<notin> set ys'" "y \<notin> set zs" "x \<notin> set ys'" using d snoc by auto
    have g1: "path nf (nf ?S) ys' (Slot y)" using f1 snoc by (simp add: path_snoc)
    have "path ?nf (nf ?S) ys' (Slot y)" using g1 y by (simp add: a path_upd image_iff)
    moreover have "?nf (Slot y) = nf (Slot x)" using y a by simp
    moreover have "path ?nf (nf (Slot x)) zs ?S" using f2 xs y by (simp add: a path_upd image_iff)
    ultimately show ?thesis using snoc a by (auto simp: path_append path_snoc)
  qed
  have B: "path ?pf (?pf ?S) (rev (ys @ zs)) ?S"
  proof (cases zs)
    case Nil
    then have a: "nf (Slot x) = ?S" using f2 by simp
    have "path ?pf (pf (Slot x)) (rev ys) ?S" using b2 xs by (simp add: a path_upd image_iff)
    then show ?thesis using Nil a by simp
  next
    case (Cons z zs')
    then have a: "nf (Slot x) = Slot z" using f2 by simp
    have z: "z \<noteq> x" "z \<notin> set zs'" "z \<notin> set ys" "x \<notin> set zs'" using d Cons by auto
    have g1: "path pf (pf ?S) (rev zs') (Slot z)" "pf (Slot z) = Slot x"
      using b1 Cons by (simp_all add: path_snoc)
    have "path ?pf (pf ?S) (rev zs') (Slot z)" using g1 z by (simp add: a path_upd image_iff)
    moreover have "?pf (Slot z) = pf (Slot x)" using z a by simp
    moreover have "path ?pf (pf (Slot x)) (rev ys) ?S" using b2 xs z by (simp add: a path_upd image_iff)
    ultimately show ?thesis using Cons a by (auto simp: path_append path_snoc)
  qed
  show ?thesis unfolding chainf_def using F B by simp
qed

section \<open>Reading and writing through pointers\<close>

lemma payload_links [simp]:
  "payload (ord\<lparr>next_ptr := v\<rparr>) = payload ord" "payload (ord\<lparr>prev := v\<rparr>) = payload ord"
  by (simp_all add: payload_def)

lemma valid_ptr_Null [simp]: "\<not> valid_ptr c s Null"
  by (simp add: valid_ptr_def)

lemma valid_ptr_Slot [simp]: "valid_ptr c s (Slot x) = live c s x"
  by (simp add: valid_ptr_def)

lemma valid_ptr_Sentinel [simp]: "valid_ptr c s (Sentinel p) \<longleftrightarrow> 0 \<le> p \<and> p \<le> MaxPrice c"
  by (simp add: valid_ptr_def)

lemma deref_valid:
  assumes "valid_ptr c s q"
  obtains ord where "deref c s q = Some ord" "next_ptr ord = nxt s q" "prev ord = prv s q"
proof (cases q)
  case Null
  then show ?thesis using assms by simp
next
  case (Sentinel p)
  then show ?thesis using assms that by (simp add: deref_def nxt_def prv_def)
next
  case (Slot x)
  then show ?thesis using assms that deref_live [of c s x] by (simp add: nxt_def prv_def)
qed

lemma live_rest: "rest s' = rest s \<Longrightarrow> live c s' x = live c s x"
  by (simp add: rest_def live_def)

lemma pay_rest: "rest s' = rest s \<Longrightarrow> pay s' x = pay s x"
  by (simp add: rest_def pay_def)

lemma valid_ptr_rest: "rest s' = rest s \<Longrightarrow> valid_ptr c s' q = valid_ptr c s q"
  using live_rest [of s' s] by (cases q) simp_all

lemma modify_Sentinel:
  assumes "0 \<le> p" "p \<le> MaxPrice c"
  shows "modify c (Sentinel p) f s =
    Some (s\<lparr>levels := (levels s)(p := (levels s p)\<lparr>sentinel := f (sentinel (levels s p))\<rparr>)\<rparr>)"
  using assms by (simp add: modify_def deref_def assign_def)

lemma modify_Slot:
  assumes "live c s x"
  shows "modify c (Slot x) f s =
    Some (s\<lparr>pool := (pool s)\<lparr>storage := (storage (pool s))(x := Obj (f (ord_at s x)))\<rparr>\<rparr>)"
  using assms deref_live [OF assms] by (simp add: modify_def assign_def)

lemma storage_live: "live c s x \<Longrightarrow> storage (pool s) x = Obj (ord_at s x)"
  by (cases "storage (pool s) x") (simp_all add: live_storage ord_at_def)

text \<open>Writing fields of the order behind a pointer: \<open>g\<close> says what happens to the links.\<close>

lemma modify_links:
  assumes v: "valid_ptr c s q"
    and f: "\<And>ord. payload (f ord) = payload ord"
    and fn: "\<And>ord. next_ptr (f ord) = gn (next_ptr ord)"
    and fp: "\<And>ord. prev (f ord) = gp (prev ord)"
  obtains s1 where "modify c q f s = Some s1"
    "nxt s1 = (nxt s)(q := gn (nxt s q))" "prv s1 = (prv s)(q := gp (prv s q))"
    "cnt s1 = cnt s" "tot s1 = tot s" "rest s1 = rest s"
proof (cases q)
  case Null
  then show ?thesis using v by simp
next
  case (Sentinel p)
  let ?s1 = "s\<lparr>levels := (levels s)(p := (levels s p)\<lparr>sentinel := f (sentinel (levels s p))\<rparr>)\<rparr>"
  have m: "modify c q f s = Some ?s1" using v Sentinel by (simp add: modify_Sentinel)
  have 1: "nxt ?s1 = (nxt s)(q := gn (nxt s q))"
    unfolding fun_eq_iff
  proof
    fix r show "nxt ?s1 r = ((nxt s)(q := gn (nxt s q))) r"
      by (cases r) (simp_all add: nxt_def Sentinel fn ord_at_def)
  qed
  have 2: "prv ?s1 = (prv s)(q := gp (prv s q))"
    unfolding fun_eq_iff
  proof
    fix r show "prv ?s1 r = ((prv s)(q := gp (prv s q))) r"
      by (cases r) (simp_all add: prv_def Sentinel fp ord_at_def)
  qed
  have 3: "cnt ?s1 = cnt s" "tot ?s1 = tot s"
    by (simp_all add: cnt_def tot_def fun_eq_iff)
  have 4: "rest ?s1 = rest s" by (simp add: rest_def dat_def fun_eq_iff)
  show ?thesis using that [OF m 1 2 3 4] .
next
  case (Slot x)
  have lx: "live c s x" using v Slot by simp
  let ?s1 = "s\<lparr>pool := (pool s)\<lparr>storage := (storage (pool s))(x := Obj (f (ord_at s x)))\<rparr>\<rparr>"
  have m: "modify c q f s = Some ?s1" using lx Slot by (simp add: modify_Slot)
  have 1: "nxt ?s1 = (nxt s)(q := gn (nxt s q))"
    unfolding fun_eq_iff
  proof
    fix r show "nxt ?s1 r = ((nxt s)(q := gn (nxt s q))) r"
      by (cases r) (simp_all add: nxt_def Slot fn ord_at_def)
  qed
  have 2: "prv ?s1 = (prv s)(q := gp (prv s q))"
    unfolding fun_eq_iff
  proof
    fix r show "prv ?s1 r = ((prv s)(q := gp (prv s q))) r"
      by (cases r) (simp_all add: prv_def Slot fp ord_at_def)
  qed
  have 3: "cnt ?s1 = cnt s" "tot ?s1 = tot s"
    by (simp_all add: cnt_def tot_def fun_eq_iff)
  have 4: "rest ?s1 = rest s"
    using storage_live [OF lx] by (simp add: rest_def dat_def fun_eq_iff f)
  show ?thesis using that [OF m 1 2 3 4] .
qed

lemma modify_next:
  assumes "valid_ptr c s q"
  obtains s1 where "modify c q (\<lambda>x. x\<lparr>next_ptr := v\<rparr>) s = Some s1"
    "nxt s1 = (nxt s)(q := v)" "prv s1 = prv s" "cnt s1 = cnt s" "tot s1 = tot s"
    "rest s1 = rest s"
  using modify_links [OF assms, of "\<lambda>x. x\<lparr>next_ptr := v\<rparr>" "\<lambda>_. v" "\<lambda>x. x"] by auto

lemma modify_prev:
  assumes "valid_ptr c s q"
  obtains s1 where "modify c q (\<lambda>x. x\<lparr>prev := v\<rparr>) s = Some s1"
    "nxt s1 = nxt s" "prv s1 = (prv s)(q := v)" "cnt s1 = cnt s" "tot s1 = tot s"
    "rest s1 = rest s"
  using modify_links [OF assms, of "\<lambda>x. x\<lparr>prev := v\<rparr>" "\<lambda>x. x" "\<lambda>_. v"] by auto

lemma modify_unlink:
  assumes "valid_ptr c s q"
  obtains s1 where "modify c q (\<lambda>x. x\<lparr>prev := Null, next_ptr := Null\<rparr>) s = Some s1"
    "nxt s1 = (nxt s)(q := Null)" "prv s1 = (prv s)(q := Null)" "cnt s1 = cnt s" "tot s1 = tot s"
    "rest s1 = rest s"
  using modify_links [OF assms, of "\<lambda>x. x\<lparr>prev := Null, next_ptr := Null\<rparr>" "\<lambda>_. Null" "\<lambda>_. Null"]
  by (auto simp: payload_def)

lemma set_counts_eff:
  "nxt (set_counts s p n t) = nxt s" "prv (set_counts s p n t) = prv s"
  "cnt (set_counts s p n t) = (cnt s)(p := n)" "tot (set_counts s p n t) = (tot s)(p := t)"
  "rest (set_counts s p n t) = rest s"
proof -
  show "nxt (set_counts s p n t) = nxt s"
    unfolding fun_eq_iff
  proof
    fix r show "nxt (set_counts s p n t) r = nxt s r"
      by (cases r) (simp_all add: nxt_def set_counts_def ord_at_def)
  qed
  show "prv (set_counts s p n t) = prv s"
    unfolding fun_eq_iff
  proof
    fix r show "prv (set_counts s p n t) r = prv s r"
      by (cases r) (simp_all add: prv_def set_counts_def ord_at_def)
  qed
qed (simp_all add: cnt_def tot_def rest_def dat_def set_counts_def fun_eq_iff)

lemma level_ref_eq: "0 \<le> p \<Longrightarrow> p \<le> MaxPrice c \<Longrightarrow> level_ref c s p = Some (levels s p)"
  by (simp add: level_ref_def)

lemma prev_sentinel: "prev (sentinel (levels s p)) = prv s (Sentinel p)"
  by (simp add: prv_def)

lemma next_sentinel: "next_ptr (sentinel (levels s p)) = nxt s (Sentinel p)"
  by (simp add: nxt_def)

lemma push_back_eff:
  assumes pr: "0 \<le> p" "p \<le> MaxPrice c" and lx: "live c s x"
    and vt: "valid_ptr c s (prv s (Sentinel p))" and ne: "prv s (Sentinel p) \<noteq> Slot x"
  obtains s' where "push_back c s p (Slot x) = Some s'"
    "nxt s' = (nxt s)(Slot x := Sentinel p, prv s (Sentinel p) := Slot x)"
    "prv s' = (prv s)(Slot x := prv s (Sentinel p), Sentinel p := Slot x)"
    "cnt s' = (cnt s)(p := cnt s p + 1)" "tot s' = (tot s)(p := tot s p + qty (pay s x))"
    "rest s' = rest s"
proof -
  let ?t = "prv s (Sentinel p)"
  obtain s1 where s1: "modify c (Slot x) (\<lambda>x. x\<lparr>prev := ?t\<rparr>) s = Some s1"
    "nxt s1 = nxt s" "prv s1 = (prv s)(Slot x := ?t)" "cnt s1 = cnt s" "tot s1 = tot s"
    "rest s1 = rest s"
    using modify_prev [of c s "Slot x" ?t] lx by auto
  have v1: "valid_ptr c s1 (Slot x)" using lx by (simp add: live_rest [OF s1(6)])
  obtain s2 where s2: "modify c (Slot x) (\<lambda>x. x\<lparr>next_ptr := Sentinel p\<rparr>) s1 = Some s2"
    "nxt s2 = (nxt s1)(Slot x := Sentinel p)" "prv s2 = prv s1" "cnt s2 = cnt s1"
    "tot s2 = tot s1" "rest s2 = rest s1"
    using modify_next [OF v1, of "Sentinel p"] by auto
  have v2: "valid_ptr c s2 ?t" using vt by (simp add: valid_ptr_rest [OF s2(6)] valid_ptr_rest [OF s1(6)])
  obtain s3 where s3: "modify c ?t (\<lambda>y. y\<lparr>next_ptr := Slot x\<rparr>) s2 = Some s3"
    "nxt s3 = (nxt s2)(?t := Slot x)" "prv s3 = prv s2" "cnt s3 = cnt s2"
    "tot s3 = tot s2" "rest s3 = rest s2"
    using modify_next [OF v2, of "Slot x"] by auto
  have v3: "valid_ptr c s3 (Sentinel p)" using pr by simp
  obtain s4 where s4: "modify c (Sentinel p) (\<lambda>y. y\<lparr>prev := Slot x\<rparr>) s3 = Some s4"
    "nxt s4 = nxt s3" "prv s4 = (prv s3)(Sentinel p := Slot x)" "cnt s4 = cnt s3"
    "tot s4 = tot s3" "rest s4 = rest s3"
    using modify_prev [OF v3, of "Slot x"] by auto
  have r4: "rest s4 = rest s" using s1(6) s2(6) s3(6) s4(6) by simp
  have l4: "live c s4 x" using lx by (simp add: live_rest [OF r4])
  have d4: "deref c s4 (Slot x) = Some (ord_at s4 x)" by (rule deref_live [OF l4])
  let ?s' = "set_counts s4 p (order_cnt (levels s4 p) + 1) (total_qty (levels s4 p) + qty (ord_at s4 x))"
  have pb: "push_back c s p (Slot x) = Some ?s'"
    using s1(1) s2(1) s3(1) s4(1) d4
    by (simp add: push_back_def level_ref_eq [OF pr] prev_sentinel)
  have q4: "pay s4 x = pay s x" by (rule pay_rest [OF r4])
  show ?thesis
  proof (rule that [OF pb])
    show "nxt ?s' = (nxt s)(Slot x := Sentinel p, ?t := Slot x)"
      by (simp add: set_counts_eff s4 s3 s2 s1)
    show "prv ?s' = (prv s)(Slot x := ?t, Sentinel p := Slot x)"
      by (simp add: set_counts_eff s4 s3 s2 s1)
    show "cnt ?s' = (cnt s)(p := cnt s p + 1)"
      using s4(4) s3(4) s2(4) s1(4) by (simp add: set_counts_eff cnt_def [symmetric])
    show "tot ?s' = (tot s)(p := tot s p + qty (pay s x))"
      using s4(5) s3(5) s2(5) s1(5) by (simp add: set_counts_eff tot_def [symmetric] q4)
    show "rest ?s' = rest s" by (simp add: set_counts_eff r4)
  qed
qed

lemma remove_order_eff:
  assumes pr: "0 \<le> p" "p \<le> MaxPrice c" and lx: "live c s x"
    and va: "valid_ptr c s (prv s (Slot x))" and vb: "valid_ptr c s (nxt s (Slot x))"
    and ne: "prv s (Slot x) \<noteq> Slot x" "nxt s (Slot x) \<noteq> Slot x"
  obtains s' where "remove_order c s p (Slot x) = Some s'"
    "nxt s' = (nxt s)(prv s (Slot x) := nxt s (Slot x), Slot x := Null)"
    "prv s' = (prv s)(nxt s (Slot x) := prv s (Slot x), Slot x := Null)"
    "cnt s' = (cnt s)(p := cnt s p - 1)" "tot s' = (tot s)(p := tot s p - qty (pay s x))"
    "rest s' = rest s"
proof -
  let ?a = "prv s (Slot x)" and ?b = "nxt s (Slot x)"
  have d0: "deref c s (Slot x) = Some (ord_at s x)" by (rule deref_live [OF lx])
  have l0: "prev (ord_at s x) = ?a" "next_ptr (ord_at s x) = ?b" by (simp_all add: prv_def nxt_def)
  obtain s1 where s1: "modify c ?a (\<lambda>y. y\<lparr>next_ptr := ?b\<rparr>) s = Some s1"
    "nxt s1 = (nxt s)(?a := ?b)" "prv s1 = prv s" "cnt s1 = cnt s" "tot s1 = tot s"
    "rest s1 = rest s"
    using modify_next [OF va, of ?b] by auto
  have l1: "live c s1 x" using lx by (simp add: live_rest [OF s1(6)])
  have d1: "deref c s1 (Slot x) = Some (ord_at s1 x)" by (rule deref_live [OF l1])
  have "prev (ord_at s1 x) = prv s1 (Slot x)" "next_ptr (ord_at s1 x) = nxt s1 (Slot x)"
    by (simp_all add: prv_def nxt_def)
  then have k1: "prev (ord_at s1 x) = ?a" "next_ptr (ord_at s1 x) = ?b"
    using s1(2,3) ne by simp_all
  have v1: "valid_ptr c s1 ?b" using vb by (simp add: valid_ptr_rest [OF s1(6)])
  obtain s2 where s2: "modify c ?b (\<lambda>y. y\<lparr>prev := ?a\<rparr>) s1 = Some s2"
    "nxt s2 = nxt s1" "prv s2 = (prv s1)(?b := ?a)" "cnt s2 = cnt s1" "tot s2 = tot s1"
    "rest s2 = rest s1"
    using modify_prev [OF v1, of ?a] by auto
  have r2: "rest s2 = rest s" using s1(6) s2(6) by simp
  have l2: "live c s2 x" using lx by (simp add: live_rest [OF r2])
  have d2: "deref c s2 (Slot x) = Some (ord_at s2 x)" by (rule deref_live [OF l2])
  have q2: "pay s2 x = pay s x" by (rule pay_rest [OF r2])
  let ?s3 = "set_counts s2 p (order_cnt (levels s2 p) - 1) (total_qty (levels s2 p) - qty (ord_at s2 x))"
  have "rest ?s3 = rest s2" by (rule set_counts_eff(5))
  then have v3: "valid_ptr c ?s3 (Slot x)"
    using l2 live_rest [of ?s3 s2] by simp
  obtain s4 where s4: "modify c (Slot x) (\<lambda>x. x\<lparr>prev := Null, next_ptr := Null\<rparr>) ?s3 = Some s4"
    "nxt s4 = (nxt ?s3)(Slot x := Null)" "prv s4 = (prv ?s3)(Slot x := Null)"
    "cnt s4 = cnt ?s3" "tot s4 = tot ?s3" "rest s4 = rest ?s3"
    using modify_unlink [OF v3] by auto
  have ro: "remove_order c s p (Slot x) = Some s4"
    using s1(1) s2(1) s4(1) d0 d1 d2 l0 k1
    by (simp add: remove_order_def level_ref_eq [OF pr])
  show ?thesis
  proof (rule that [OF ro])
    show "nxt s4 = (nxt s)(?a := ?b, Slot x := Null)"
      by (simp add: s4 set_counts_eff s2 s1)
    show "prv s4 = (prv s)(?b := ?a, Slot x := Null)"
      by (simp add: s4 set_counts_eff s2 s1)
    show "cnt s4 = (cnt s)(p := cnt s p - 1)"
      using s2(4) s1(4) by (simp add: s4 set_counts_eff cnt_def [symmetric])
    show "tot s4 = (tot s)(p := tot s p - qty (pay s x))"
      using s2(5) s1(5) by (simp add: s4 set_counts_eff tot_def [symmetric] q2)
    show "rest s4 = rest s" by (simp add: s4 set_counts_eff r2)
  qed
qed

section \<open>What the invariants depend on\<close>

lemma rest_eqD:
  assumes "rest s' = rest s"
  shows "dat s' = dat s" "order_map s' = order_map s" "best_bid s' = best_bid s"
    "best_ask s' = best_ask s" "total_orders s' = total_orders s"
    "free_head (pool s') = free_head (pool s)" "alloc_cnt (pool s') = alloc_cnt (pool s)"
  using assms by (simp_all add: rest_def)

lemma live_dat: "dat s' = dat s \<Longrightarrow> live c s' = live c s"
  by (simp add: live_def fun_eq_iff)

lemma pay_dat: "dat s' = dat s \<Longrightarrow> pay s' = pay s"
  by (simp add: pay_def fun_eq_iff)

lemma key_dat: "dat s' = dat s \<Longrightarrow> key s' = key s"
  by (simp add: key_def pay_def fun_eq_iff)

lemma home_dat: "dat s' = dat s \<Longrightarrow> home c s' = home c s"
  by (simp add: home_def key_def pay_def fun_eq_iff)

lemma table_ok_cong:
  "dat s' = dat s \<Longrightarrow> order_map s' = order_map s \<Longrightarrow> table_ok c s' M = table_ok c s M"
  using live_dat [of s' s c] key_dat [of s' s] by (simp add: table_ok_def)

lemma probe_ok_cong:
  "dat s' = dat s \<Longrightarrow> order_map s' = order_map s \<Longrightarrow> probe_ok c s' = probe_ok c s"
  using home_dat [of s' s c] by (simp add: probe_ok_def entry_ok_def cong: ptr.case_cong)

lemma pool_ok_cong:
  "dat s' = dat s \<Longrightarrow> free_head (pool s') = free_head (pool s) \<Longrightarrow>
   alloc_cnt (pool s') = alloc_cnt (pool s) \<Longrightarrow> pool_ok c s' = pool_ok c s"
  using live_dat [of s' s c] by (simp add: pool_ok_def)

lemma orders_ok_cong:
  "dat s' = dat s \<Longrightarrow> best_bid s' = best_bid s \<Longrightarrow> best_ask s' = best_ask s \<Longrightarrow>
   orders_ok c s' = orders_ok c s"
  using live_dat [of s' s c] pay_dat [of s' s] by (simp add: orders_ok_def order_ok_def)

lemma gap_ok_cong:
  "best_bid s' = best_bid s \<Longrightarrow> best_ask s' = best_ask s \<Longrightarrow> gap_ok c s' L = gap_ok c s L"
  by (simp add: gap_ok_def)

lemma covers_cong: "dat s' = dat s \<Longrightarrow> covers c s' L = covers c s L"
  using live_dat [of s' s c] pay_dat [of s' s] by (simp add: covers_def)

lemma level_qty_dat: "dat s' = dat s \<Longrightarrow> level_qty s' xs = level_qty s xs"
  using pay_dat [of s' s] by (simp add: level_qty_def)

section \<open>The lists of the levels under \<open>remove\<close> and \<open>push_back\<close>\<close>

lemma levels_okD:
  assumes "levels_ok c s L" "0 \<le> p" "p \<le> MaxPrice c"
  shows "chainf (nxt s) (prv s) p (L p)" "distinct (L p)" "cnt s p = of_nat (length (L p))"
    "tot s p = level_qty s (L p)"
  using assms by (simp_all add: levels_ok_def chain_def)

lemma levels_ok_mem:
  assumes "levels_ok c s L" "x \<in> set (L p)"
  shows "0 \<le> p" "p \<le> MaxPrice c" "live c s x" "price (pay s x) = p"
  using assms unfolding levels_ok_def by blast+

lemma levels_ok_disjoint:
  assumes "levels_ok c s L" "x \<in> set (L p)" "y \<in> set (L q)" "p \<noteq> q"
  shows "x \<noteq> y"
  using levels_ok_mem(4) [OF assms(1,2)] levels_ok_mem(4) [OF assms(1,3)] assms(4) by auto

lemma word_of_nat_pred:
  "0 < n \<Longrightarrow> (of_nat (n - Suc 0) :: 'a::len word) = of_nat n - 1"
  by (cases n) simp_all

lemma level_qty_remove1:
  "x \<in> set xs \<Longrightarrow> level_qty s (remove1 x xs) = level_qty s xs - qty (pay s x)"
  by (simp add: level_qty_def sum_list_map_remove1 [of x xs])

lemma remove_order_levels:
  assumes LO: "levels_ok c s L" and x: "x \<in> set (L p)"
  obtains s' where "remove_order c s p (Slot x) = Some s'"
    "levels_ok c s' (L(p := remove1 x (L p)))" "rest s' = rest s"
    "cnt s' = (cnt s)(p := cnt s p - 1)" "tot s' = (tot s)(p := tot s p - qty (pay s x))"
proof -
  note m = levels_ok_mem [OF LO x]
  note lp = levels_okD [OF LO m(1,2)]
  obtain ys zs where sp: "L p = ys @ x # zs" using x by (meson split_list)
  have xn: "x \<notin> set ys" "x \<notin> set zs" using lp(2) sp by auto
  have rm: "remove1 x (L p) = ys @ zs" using sp xn by (simp add: remove1_append)
  have ch: "chainf (nxt s) (prv s) p (ys @ x # zs)" using lp(1) sp by simp
  note lk = chainf_links [OF ch]
  have mem: "\<And>y. y \<in> set ys \<or> y \<in> set zs \<Longrightarrow> live c s y \<and> y \<noteq> x"
    using levels_ok_mem(3) [OF LO, of _ p] sp xn by auto
  have va: "valid_ptr c s (prv s (Slot x))" "prv s (Slot x) \<noteq> Slot x"
    using lk(1) m(1,2) mem [of "last ys"] by (auto split: if_splits)
  have vb: "valid_ptr c s (nxt s (Slot x))" "nxt s (Slot x) \<noteq> Slot x"
    using lk(2) m(1,2) mem [of "hd zs"] by (auto split: if_splits)
  obtain s' where s': "remove_order c s p (Slot x) = Some s'"
    "nxt s' = (nxt s)(prv s (Slot x) := nxt s (Slot x), Slot x := Null)"
    "prv s' = (prv s)(nxt s (Slot x) := prv s (Slot x), Slot x := Null)"
    "cnt s' = (cnt s)(p := cnt s p - 1)" "tot s' = (tot s)(p := tot s p - qty (pay s x))"
    "rest s' = rest s"
    using remove_order_eff [OF m(1,2,3) va(1) vb(1) va(2) vb(2)] by blast
  note r = rest_eqD [OF s'(6)]
  have inL: "prv s (Slot x) = Sentinel p \<or> (\<exists>y \<in> set (L p). prv s (Slot x) = Slot y)"
    "nxt s (Slot x) = Sentinel p \<or> (\<exists>y \<in> set (L p). nxt s (Slot x) = Slot y)"
    using lk sp by (auto split: if_splits)
  have LO': "levels_ok c s' (L(p := remove1 x (L p)))"
    unfolding levels_ok_def
  proof (intro conjI allI impI)
    fix q assume q: "0 \<le> q \<and> q \<le> MaxPrice c"
    note lq = levels_okD [OF LO, of q]
    show "chain s' q ((L(p := remove1 x (L p))) q)"
    proof (cases "q = p")
      case True
      have "chainf (nxt s') (prv s') p (remove1 x (L p))"
        unfolding rm s'(2,3) by (rule chainf_remove [OF ch lp(2) [unfolded sp]])
      then show ?thesis by (simp add: True chain_def)
    next
      case False
      have "chainf (nxt s') (prv s') q (L q) = chainf (nxt s) (prv s) q (L q)"
      proof (rule chainf_cong)
        fix y assume y: "y \<in> set (L q)"
        have "y \<noteq> x" using levels_ok_disjoint [OF LO y x False] .
        moreover have "prv s (Slot x) \<noteq> Slot y"
        proof
          assume e: "prv s (Slot x) = Slot y"
          then have "y \<in> set (L p)" using inL(1) by auto
          then show False using levels_ok_disjoint [OF LO y _ False] by blast
        qed
        moreover have "nxt s (Slot x) \<noteq> Slot y"
        proof
          assume e: "nxt s (Slot x) = Slot y"
          then have "y \<in> set (L p)" using inL(2) by auto
          then show False using levels_ok_disjoint [OF LO y _ False] by blast
        qed
        ultimately show "nxt s' (Slot y) = nxt s (Slot y) \<and> prv s' (Slot y) = prv s (Slot y)"
          by (simp add: s'(2,3))
      next
        show "nxt s' (Sentinel q) = nxt s (Sentinel q)"
          using inL False by (auto simp: s'(2))
        show "prv s' (Sentinel q) = prv s (Sentinel q)"
          using inL False by (auto simp: s'(3))
      qed
      then show ?thesis using lq(1) q False by (simp add: chain_def)
    qed
    show "distinct ((L(p := remove1 x (L p))) q)" using lq(2) q lp(2) by auto
    show "cnt s' q = word_of_nat (length ((L(p := remove1 x (L p))) q))"
      using lq(3) q x word_of_nat_pred [OF length_pos_if_in_set [OF x], where 'a = 64]
      by (auto simp: s'(4) length_remove1)
    show "tot s' q = level_qty s' ((L(p := remove1 x (L p))) q)"
      using lq(4) q x by (auto simp: s'(5) level_qty_dat [OF r(1)] level_qty_remove1)
  next
    fix q y assume y: "y \<in> set ((L(p := remove1 x (L p))) q)"
    then have "y \<in> set (L q)"
      using set_remove1_subset [of x "L p"] by (auto split: if_splits)
    then show "0 \<le> q" "q \<le> MaxPrice c" "live c s' y" "price (pay s' y) = q"
      using levels_ok_mem [OF LO, of y q] live_dat [OF r(1), of c] pay_dat [OF r(1)] by simp_all
  qed
  show ?thesis using that [OF s'(1) LO' s'(6) s'(4,5)] .
qed

lemma level_qty_snoc: "level_qty s (xs @ [x]) = level_qty s xs + qty (pay s x)"
  by (simp add: level_qty_def)

lemma push_back_levels:
  assumes LO: "levels_ok c s L" and pr: "0 \<le> p" "p \<le> MaxPrice c"
    and x: "live c s x" "price (pay s x) = p" "x \<notin> set (L p)"
  obtains s' where "push_back c s p (Slot x) = Some s'"
    "levels_ok c s' (L(p := L p @ [x]))" "rest s' = rest s"
    "cnt s' = (cnt s)(p := cnt s p + 1)" "tot s' = (tot s)(p := tot s p + qty (pay s x))"
proof -
  note lp = levels_okD [OF LO pr]
  have tl: "prv s (Sentinel p) = Sentinel p \<or> (\<exists>y \<in> set (L p). prv s (Sentinel p) = Slot y)"
  proof (cases "L p" rule: rev_cases)
    case Nil
    then show ?thesis using lp(1) by (simp add: chainf_nil)
  next
    case (snoc ys y)
    then show ?thesis using chainf_back [of "nxt s" "prv s" p ys y] lp(1) by simp
  qed
  have vt: "valid_ptr c s (prv s (Sentinel p))" "prv s (Sentinel p) \<noteq> Slot x"
    using tl pr x(3) levels_ok_mem(3) [OF LO, of _ p] by auto
  obtain s' where s': "push_back c s p (Slot x) = Some s'"
    "nxt s' = (nxt s)(Slot x := Sentinel p, prv s (Sentinel p) := Slot x)"
    "prv s' = (prv s)(Slot x := prv s (Sentinel p), Sentinel p := Slot x)"
    "cnt s' = (cnt s)(p := cnt s p + 1)" "tot s' = (tot s)(p := tot s p + qty (pay s x))"
    "rest s' = rest s"
    using push_back_eff [OF pr x(1) vt] by blast
  note r = rest_eqD [OF s'(6)]
  have xq: "\<And>q. x \<in> set (L q) \<Longrightarrow> False"
    using levels_ok_mem(4) [OF LO] x(2,3) by auto
  have LO': "levels_ok c s' (L(p := L p @ [x]))"
    unfolding levels_ok_def
  proof (intro conjI allI impI)
    fix q assume q: "0 \<le> q \<and> q \<le> MaxPrice c"
    note lq = levels_okD [OF LO, of q]
    show "chain s' q ((L(p := L p @ [x])) q)"
    proof (cases "q = p")
      case True
      show ?thesis
        using chainf_push [OF lp(1,2) x(3)] by (simp add: True chain_def s'(2,3))
    next
      case False
      have "chainf (nxt s') (prv s') q (L q) = chainf (nxt s) (prv s) q (L q)"
      proof (rule chainf_cong)
        fix y assume y: "y \<in> set (L q)"
        have "y \<noteq> x" using xq y by auto
        moreover have "prv s (Sentinel p) \<noteq> Slot y"
        proof
          assume e: "prv s (Sentinel p) = Slot y"
          then have "y \<in> set (L p)" using tl by auto
          then show False using levels_ok_disjoint [OF LO y _ False] by blast
        qed
        ultimately show "nxt s' (Slot y) = nxt s (Slot y) \<and> prv s' (Slot y) = prv s (Slot y)"
          by (simp add: s'(2,3))
      next
        show "nxt s' (Sentinel q) = nxt s (Sentinel q)"
          using tl False by (auto simp: s'(2))
        show "prv s' (Sentinel q) = prv s (Sentinel q)"
          using False by (auto simp: s'(3))
      qed
      then show ?thesis using lq(1) q False by (simp add: chain_def)
    qed
    show "distinct ((L(p := L p @ [x])) q)" using lq(2) q x(3) by auto
    show "cnt s' q = word_of_nat (length ((L(p := L p @ [x])) q))"
      using lq(3) q by (auto simp: s'(4))
    show "tot s' q = level_qty s' ((L(p := L p @ [x])) q)"
      using lq(4) q by (auto simp: s'(5) level_qty_dat [OF r(1)] level_qty_snoc)
  next
    fix q y assume y: "y \<in> set ((L(p := L p @ [x])) q)"
    then have "y \<in> set (L q) \<or> (q = p \<and> y = x)" by (auto split: if_splits)
    then show "0 \<le> q" "q \<le> MaxPrice c" "live c s' y" "price (pay s' y) = q"
      using levels_ok_mem [OF LO, of y q] pr x live_dat [OF r(1), of c] pay_dat [OF r(1)]
      by auto
  qed
  show ?thesis using that [OF s'(1) LO' s'(6) s'(4,5)] .
qed

section \<open>The pool\<close>

lemma live_less: "live c s x \<Longrightarrow> x < MaxOrders c"
  by (simp add: live_def)

lemma finite_live [simp]: "finite {x. live c s x}"
  by (rule finite_subset [of _ "{..<MaxOrders c}"]) (auto dest: live_less)

lemma dat_FreeNode: "dat s x = FreeNode n \<longleftrightarrow> storage (pool s) x = FreeNode n"
  by (cases "storage (pool s) x") (simp_all add: dat_def)

lemma fpath_cong: "(\<And>x. x \<in> set fs \<Longrightarrow> st' x = st x) \<Longrightarrow> fpath st' h fs = fpath st h fs"
  by (induction fs arbitrary: h) (auto split: cell.splits)

lemma pool_okD:
  assumes "pool_ok c s"
  obtains fs where "fpath (dat s) (free_head (pool s)) fs" "distinct fs"
    "set fs = {x. x < MaxOrders c \<and> \<not> live c s x}"
    "alloc_cnt (pool s) = of_nat (card {x. live c s x})"
proof -
  have e: "\<exists>fs. fpath (dat s) (free_head (pool s)) fs \<and> distinct fs \<and>
           set fs = {x. x < MaxOrders c \<and> \<not> live c s x}"
    and a: "alloc_cnt (pool s) = of_nat (card {x. live c s x})"
    using assms by (simp_all add: pool_ok_def)
  from e obtain fs where fs: "fpath (dat s) (free_head (pool s)) fs" "distinct fs"
    "set fs = {x. x < MaxOrders c \<and> \<not> live c s x}"
    by (elim exE conjE)
  show ?thesis by (rule that [OF fs a])
qed

text \<open>\<open>alloc\<close> on a pool with no free slot.\<close>

lemma alloc_full:
  assumes P: "pool_ok c s" and f: "\<forall>x < MaxOrders c. live c s x"
  shows "alloc (MaxOrders c) (pool s) = Some (Null, pool s)"
proof -
  obtain fs where fs: "fpath (dat s) (free_head (pool s)) fs" "distinct fs"
    "set fs = {x. x < MaxOrders c \<and> \<not> live c s x}"
    "alloc_cnt (pool s) = of_nat (card {x. live c s x})"
    by (rule pool_okD [OF P])
  have "set fs = {}" unfolding fs(3) using f by simp
  then have "fs = []" by simp
  then have "free_head (pool s) = None" using fs(1) by simp
  then show ?thesis by (simp add: alloc_def)
qed

text \<open>\<open>alloc\<close> followed by the construction of \<open>ord\<close> in the slot.\<close>

lemma alloc_free:
  assumes P: "pool_ok c s" and f: "y < MaxOrders c" "\<not> live c s y"
  obtains x n where "x < MaxOrders c" "\<not> live c s x"
    "alloc (MaxOrders c) (pool s) =
       Some (Slot x, (pool s)\<lparr>free_head := n, alloc_cnt := alloc_cnt (pool s) + 1\<rparr>)"
    "\<And>ord. pool_ok c (construct s x n ord)"
proof -
  obtain fs where fs: "fpath (dat s) (free_head (pool s)) fs" "distinct fs"
    "set fs = {x. x < MaxOrders c \<and> \<not> live c s x}"
    "alloc_cnt (pool s) = of_nat (card {x. live c s x})"
    by (rule pool_okD [OF P])
  have "y \<in> set fs" unfolding fs(3) using f by simp
  then have "fs \<noteq> []" by auto
  then obtain x fs' where c: "fs = x # fs'" by (cases fs) auto
  have "x \<in> set fs" using c by simp
  then have x: "x < MaxOrders c" "\<not> live c s x" unfolding fs(3) by simp_all
  obtain n where n: "free_head (pool s) = Some x" "dat s x = FreeNode n" "fpath (dat s) n fs'"
    using fs(1) c by (auto split: cell.splits)
  have a: "alloc (MaxOrders c) (pool s) =
       Some (Slot x, (pool s)\<lparr>free_head := n, alloc_cnt := alloc_cnt (pool s) + 1\<rparr>)"
    using n(1,2) x(1) by (simp add: alloc_def dat_FreeNode)
  have p: "pool_ok c (construct s x n ord)" for ord
  proof -
    let ?s = "construct s x n ord"
    have d: "dat ?s = (dat s)(x := Obj (payload ord))"
      by (simp add: construct_def assign_def dat_def fun_eq_iff)
    have l: "live c ?s = (live c s)(x := True)"
      using x(1) by (simp add: live_def d fun_eq_iff)
    have "fpath (dat ?s) n fs' = fpath (dat s) n fs'"
      using fs(2) c by (intro fpath_cong) (auto simp: d)
    moreover have "free_head (pool ?s) = n" by (simp add: construct_def assign_def)
    moreover have "set fs' = {y. y < MaxOrders c \<and> \<not> live c ?s y}"
    proof -
      have "set fs' = set fs - {x}" using fs(2) c by auto
      then show ?thesis unfolding fs(3) by (auto simp: l)
    qed
    moreover have "{y. live c ?s y} = insert x {y. live c s y}" by (auto simp: l)
    then have "card {y. live c ?s y} = Suc (card {y. live c s y})" using x(2) by simp
    then have "alloc_cnt (pool ?s) = of_nat (card {y. live c ?s y})"
      using fs(4) by (simp add: construct_def assign_def)
    ultimately show ?thesis unfolding pool_ok_def using fs(2) c n(3) by auto
  qed
  show ?thesis using that [OF x a p] .
qed

text \<open>\<open>dealloc\<close> of a live slot, as \<open>remove_from_book\<close> does it.\<close>

lemma dealloc_live:
  assumes "live c s x"
  shows "dealloc (MaxOrders c) (Slot x) (pool s) =
    Some ((pool s)\<lparr>storage := (storage (pool s))(x := FreeNode (free_head (pool s))),
          free_head := Some x, alloc_cnt := alloc_cnt (pool s) - 1\<rparr>)"
  using assms storage_live [OF assms] by (simp add: dealloc_def live_less)

lemma release_dat: "dat (release s x) = (dat s)(x := FreeNode (free_head (pool s)))"
  by (simp add: release_def dat_def fun_eq_iff)

lemma release_live: "live c (release s x) y \<longleftrightarrow> live c s y \<and> y \<noteq> x"
  by (simp add: live_def release_dat)

lemma release_pay: "y \<noteq> x \<Longrightarrow> pay (release s x) y = pay s y"
  by (simp add: pay_def release_dat)

lemma release_links:
  "y \<noteq> x \<Longrightarrow> nxt (release s x) (Slot y) = nxt s (Slot y)"
  "y \<noteq> x \<Longrightarrow> prv (release s x) (Slot y) = prv s (Slot y)"
  "nxt (release s x) (Sentinel q) = nxt s (Sentinel q)"
  "prv (release s x) (Sentinel q) = prv s (Sentinel q)"
  by (simp_all add: nxt_def prv_def release_def ord_at_def)

lemma release_other:
  "cnt (release s x) = cnt s" "tot (release s x) = tot s"
  "order_map (release s x) = order_map s" "best_bid (release s x) = best_bid s"
  "best_ask (release s x) = best_ask s" "total_orders (release s x) = total_orders s - 1"
  "alloc_cnt (pool (release s x)) = alloc_cnt (pool s) - 1"
  by (simp_all add: release_def cnt_def tot_def fun_eq_iff)

lemma card_live_release:
  assumes "live c s x"
  shows "(of_nat (card {y. live c (release s x) y}) :: 64 word) = of_nat (card {y. live c s y}) - 1"
proof -
  have e: "{y. live c (release s x) y} = {y. live c s y} - {x}"
    by (auto simp: release_live)
  have "0 < card {y. live c s y}" using assms by (simp add: card_gt_0_iff) blast
  then show ?thesis using assms by (simp add: e word_of_nat_pred)
qed

lemma release_pool_ok:
  assumes P: "pool_ok c s" and lx: "live c s x"
  shows "pool_ok c (release s x)"
proof -
  obtain fs where fs: "fpath (dat s) (free_head (pool s)) fs" "distinct fs"
    "set fs = {x. x < MaxOrders c \<and> \<not> live c s x}"
    "alloc_cnt (pool s) = of_nat (card {x. live c s x})"
    by (rule pool_okD [OF P])
  have xn: "x \<notin> set fs" unfolding fs(3) using lx by simp
  have "fpath (dat (release s x)) (free_head (pool s)) fs = fpath (dat s) (free_head (pool s)) fs"
    using xn by (intro fpath_cong) (auto simp: release_dat)
  then have 1: "fpath (dat (release s x)) (free_head (pool (release s x))) (x # fs)"
    using fs(1) by (simp add: release_dat) (simp add: release_def)
  have 2: "distinct (x # fs)" using fs(2) xn by simp
  have 3: "set (x # fs) = {y. y < MaxOrders c \<and> \<not> live c (release s x) y}"
    unfolding list.set fs(3) using live_less [OF lx] by (auto simp: release_live)
  have 4: "alloc_cnt (pool (release s x)) = of_nat (card {y. live c (release s x) y})"
    using fs(4) by (simp add: release_other card_live_release [OF lx])
  show ?thesis unfolding pool_ok_def using 1 2 3 4 by blast
qed

section \<open>\<open>remove_from_book\<close>\<close>

lemma map_upd_simps [simp]:
  "nxt (s\<lparr>order_map := m\<rparr>) = nxt s" "prv (s\<lparr>order_map := m\<rparr>) = prv s"
  "cnt (s\<lparr>order_map := m\<rparr>) = cnt s" "tot (s\<lparr>order_map := m\<rparr>) = tot s"
  "pay (s\<lparr>order_map := m\<rparr>) = pay s"
proof -
  show "nxt (s\<lparr>order_map := m\<rparr>) = nxt s"
    unfolding fun_eq_iff
  proof
    fix r show "nxt (s\<lparr>order_map := m\<rparr>) r = nxt s r" by (cases r) (simp_all add: nxt_def)
  qed
  show "prv (s\<lparr>order_map := m\<rparr>) = prv s"
    unfolding fun_eq_iff
  proof
    fix r show "prv (s\<lparr>order_map := m\<rparr>) r = prv s r" by (cases r) (simp_all add: prv_def)
  qed
qed (simp_all add: cnt_def tot_def pay_def fun_eq_iff)

lemma level_qty_agree:
  "(\<And>y. y \<in> set xs \<Longrightarrow> pay s' y = pay s y) \<Longrightarrow> level_qty s' xs = level_qty s xs"
  unfolding level_qty_def by (rule arg_cong [where f = sum_list]) simp

lemma levels_ok_agree:
  assumes LO: "levels_ok c s L"
    and m: "\<And>q y. y \<in> set (L q) \<Longrightarrow> nxt s' (Slot y) = nxt s (Slot y) \<and>
              prv s' (Slot y) = prv s (Slot y) \<and> live c s' y \<and> pay s' y = pay s y"
    and st: "\<And>q. nxt s' (Sentinel q) = nxt s (Sentinel q) \<and> prv s' (Sentinel q) = prv s (Sentinel q)"
    and ct: "cnt s' = cnt s" "tot s' = tot s"
  shows "levels_ok c s' L"
  unfolding levels_ok_def
proof (intro conjI allI impI)
  fix q assume q: "0 \<le> q \<and> q \<le> MaxPrice c"
  then have q': "0 \<le> q" "q \<le> MaxPrice c" by simp_all
  note lq = levels_okD [OF LO q']
  have "chainf (nxt s') (prv s') q (L q) = chainf (nxt s) (prv s) q (L q)"
    by (rule chainf_cong) (use m st in auto)
  then show "chain s' q (L q)" using lq(1) by (simp add: chain_def)
  show "distinct (L q)" by (rule lq(2))
  show "cnt s' q = word_of_nat (length (L q))" using lq(3) ct by simp
  have "level_qty s' (L q) = level_qty s (L q)" by (rule level_qty_agree) (use m in auto)
  then show "tot s' q = level_qty s' (L q)" using lq(4) ct by simp
next
  fix q y assume y: "y \<in> set (L q)"
  show "0 \<le> q" "q \<le> MaxPrice c" "live c s' y" "price (pay s' y) = q"
    using levels_ok_mem [OF LO y] m [OF y] by simp_all
qed

lemma table_ok_agree:
  assumes T: "table_ok c s M" and om: "order_map s' = order_map s"
    and m: "\<And>y. y \<in> M \<Longrightarrow> live c s' y \<and> key s' y = key s y"
  shows "table_ok c s' M"
proof -
  have "inj_on (key s') M = inj_on (key s) M" by (rule inj_on_cong) (use m in auto)
  then show ?thesis using T m unfolding table_ok_def om by auto
qed

lemma probe_ok_agree:
  assumes P: "probe_ok c s" and om: "order_map s' = order_map s"
    and m: "\<And>idx y. idx < MaxOrders c \<Longrightarrow> order_map s idx = Slot y \<Longrightarrow> key s' y = key s y"
  shows "probe_ok c s'"
  unfolding probe_ok_def
proof (intro allI impI)
  fix idx assume i: "idx < MaxOrders c"
  have ok: "entry_ok c s idx" using P i by (simp add: probe_ok_def)
  show "entry_ok c s' idx"
  proof (cases "order_map s idx")
    case (Slot y)
    have h: "home c s' y = home c s y" using m [OF i Slot] by (simp add: home_def)
    show ?thesis using ok Slot by (simp add: entry_ok_def om h)
  qed (simp_all add: entry_ok_def om)
qed

lemma structD:
  assumes "struct_ok c s L"
  shows "valid_params c" "levels_ok c s L" "covers c s L" "gap_ok c s L"
    "pool_ok c s" "table_ok c s {x. live c s x}" "probe_ok c s"
    "total_orders s = of_nat (card {x. live c s x})"
  using assms by (simp_all add: struct_ok_def)

lemma coreD:
  assumes "core c s L"
  shows "struct_ok c s L" "orders_ok c s"
  using assms by (simp_all add: core_def)

lemma valid_N: "valid_params c \<Longrightarrow> 0 < MaxOrders c"
  by (simp add: valid_params_def)

lemma remove_from_book_eff:
  assumes C: "struct_ok c s L" and lx: "live c s x"
  obtains s' where
    "remove_from_book c s (Slot x) = Some s'"
    "struct_ok c s' (L(price (pay s x) := remove1 x (L (price (pay s x)))))"
    "best_bid s' = best_bid s" "best_ask s' = best_ask s"
    "cnt s' = (cnt s)(price (pay s x) := cnt s (price (pay s x)) - 1)"
    "tot s' = (tot s)(price (pay s x) := tot s (price (pay s x)) - qty (pay s x))"
    "\<And>y. live c s' y \<longleftrightarrow> live c s y \<and> y \<noteq> x"
    "\<And>y. y \<noteq> x \<Longrightarrow> pay s' y = pay s y"
    "total_orders s' = total_orders s - 1" "alloc_cnt (pool s') = alloc_cnt (pool s) - 1"
proof -
  let ?p = "price (pay s x)"
  let ?L = "L(?p := remove1 x (L ?p))"
  let ?M = "{y. live c s y}"
  note c = structD [OF C]
  have N: "0 < MaxOrders c" by (rule valid_N [OF c(1)])
  have xL: "x \<in> set (L ?p)" using c(3) lx by (simp add: covers_def)
  obtain s1 where s1: "remove_order c s ?p (Slot x) = Some s1" "levels_ok c s1 ?L"
    "rest s1 = rest s" "cnt s1 = (cnt s)(?p := cnt s ?p - 1)"
    "tot s1 = (tot s)(?p := tot s ?p - qty (pay s x))"
    by (rule remove_order_levels [OF c(2) xL])
  note r1 = rest_eqD [OF s1(3)]
  have l1: "live c s1 = live c s" by (rule live_dat [OF r1(1)])
  have p1: "pay s1 = pay s" by (rule pay_dat [OF r1(1)])
  have k1: "key s1 = key s" by (rule key_dat [OF r1(1)])
  have T1: "table_ok c s1 ?M" using c(6) by (simp add: table_ok_cong [OF r1(1,2)])
  have P1: "probe_ok c s1" using c(7) by (simp add: probe_ok_cong [OF r1(1,2)])
  obtain m' where m': "remove_map c s1 (key s1 x) = Some (s1\<lparr>order_map := m'\<rparr>)"
    "table_ok c (s1\<lparr>order_map := m'\<rparr>) (?M - {x})" "probe_ok c (s1\<lparr>order_map := m'\<rparr>)"
    using remove_map_total [OF N T1 P1, of x] lx by auto
  let ?s2 = "s1\<lparr>order_map := m'\<rparr>"
  have l2: "live c ?s2 x" using lx l1 by simp
  let ?s3 = "release ?s2 x"
  have d0: "deref c s (Slot x) = Some (ord_at s x)" by (rule deref_live [OF lx])
  have d1: "deref c s1 (Slot x) = Some (ord_at s1 x)" using lx l1 by (simp add: deref_live)
  have rb: "remove_from_book c s (Slot x) = Some ?s3"
    using s1(1) m'(1) dealloc_live [OF l2]
    by (simp add: remove_from_book_def d0 d1 release_def)
  have lv3: "live c ?s3 y \<longleftrightarrow> live c s y \<and> y \<noteq> x" for y
    by (simp add: release_live l1)
  have py3: "pay ?s3 y = pay s y" if "y \<noteq> x" for y
    using that by (simp add: release_pay p1)
  have ky3: "key ?s3 y = key s y" if "y \<noteq> x" for y
    using py3 [OF that] by (simp add: key_def)
  have xnL: "x \<notin> set (?L q)" for q
  proof (cases "q = ?p")
    case True
    have "distinct (L ?p)" using levels_okD(2) [OF c(2)] levels_ok_mem(1,2) [OF c(2) xL] by simp
    then show ?thesis using True by simp
  next
    case False
    then show ?thesis using levels_ok_mem(4) [OF c(2), of x q] by auto
  qed
  have LO3: "levels_ok c ?s3 ?L"
  proof (rule levels_ok_agree [OF s1(2)])
    fix q y assume y: "y \<in> set (?L q)"
    then have yx: "y \<noteq> x" using xnL [of q] by auto
    have "live c s1 y" using levels_ok_mem(3) [OF s1(2) y] .
    then show "nxt ?s3 (Slot y) = nxt s1 (Slot y) \<and> prv ?s3 (Slot y) = prv s1 (Slot y) \<and>
        live c ?s3 y \<and> pay ?s3 y = pay s1 y"
      using yx by (simp add: release_links release_live release_pay)
  next
    fix q show "nxt ?s3 (Sentinel q) = nxt s1 (Sentinel q) \<and> prv ?s3 (Sentinel q) = prv s1 (Sentinel q)"
      by (simp add: release_links)
  qed (simp_all add: release_other)
  have CV3: "covers c ?s3 ?L"
    unfolding covers_def
  proof (intro allI impI)
    fix y assume "live c ?s3 y"
    then have y: "live c s y" "y \<noteq> x" by (simp_all add: lv3)
    then have "y \<in> set (L (price (pay s y)))" using c(3) by (simp add: covers_def)
    then show "y \<in> set (?L (price (pay ?s3 y)))" using y(2) by (auto simp: py3)
  qed
  have b3: "best_bid ?s3 = best_bid s" "best_ask ?s3 = best_ask s"
    using r1(3,4) by (simp_all add: release_other)
  have G3: "gap_ok c ?s3 ?L"
    using c(4) unfolding gap_ok_def by (auto simp: b3)
  have PO3: "pool_ok c ?s3"
  proof (rule release_pool_ok [OF _ l2])
    show "pool_ok c ?s2" using c(5) r1 by (simp add: pool_ok_cong [of ?s2 s])
  qed
  have M3: "{y. live c ?s3 y} = ?M - {x}" by (auto simp: lv3)
  have T3: "table_ok c ?s3 {y. live c ?s3 y}"
    unfolding M3
  proof (rule table_ok_agree [OF m'(2)])
    show "order_map ?s3 = order_map ?s2" by (simp add: release_other)
    fix y assume "y \<in> ?M - {x}"
    then show "live c ?s3 y \<and> key ?s3 y = key ?s2 y" by (simp add: lv3 ky3 k1)
  qed
  have P3: "probe_ok c ?s3"
  proof (rule probe_ok_agree [OF m'(3)])
    show "order_map ?s3 = order_map ?s2" by (simp add: release_other)
    fix idx y assume i: "idx < MaxOrders c" "order_map ?s2 idx = Slot y"
    have "y \<in> ?M - {x}" using m'(2) i unfolding table_ok_def by (metis ptr.distinct(3) ptr.inject(2))
    then show "key ?s3 y = key ?s2 y" by (simp add: ky3 k1)
  qed
  have TO3: "total_orders ?s3 = of_nat (card {y. live c ?s3 y})"
    using c(8) r1(5) card_live_release [OF l2] l1 by (simp add: release_other)
  have C3: "struct_ok c ?s3 ?L"
    unfolding struct_ok_def using c(1) LO3 CV3 G3 PO3 T3 P3 TO3 by simp
  show ?thesis
  proof (rule that [OF rb C3 b3])
    show "cnt ?s3 = (cnt s)(?p := cnt s ?p - 1)" by (simp add: release_other s1(4))
    show "tot ?s3 = (tot s)(?p := tot s ?p - qty (pay s x))" by (simp add: release_other s1(5))
    show "\<And>y. live c ?s3 y \<longleftrightarrow> live c s y \<and> y \<noteq> x" by (rule lv3)
    show "\<And>y. y \<noteq> x \<Longrightarrow> pay ?s3 y = pay s y" by (rule py3)
    show "total_orders ?s3 = total_orders s - 1" using r1(5) by (simp add: release_other)
    show "alloc_cnt (pool ?s3) = alloc_cnt (pool s) - 1" using r1(7) by (simp add: release_other)
  qed
qed

section \<open>Quantities and counters as words\<close>

lemma sint_diff_pos:
  fixes a b :: "'a::len word"
  assumes "0 < sint a" "sint a \<le> sint b"
  shows "sint (b - a) = sint b - sint a"
proof -
  have "sint b < 2 ^ (LENGTH('a) - 1)" by (rule sint_lt)
  then have "sint b - sint a < 2 ^ (LENGTH('a) - 1)" "- (2 ^ (LENGTH('a) - 1)) \<le> sint b - sint a"
    using assms by simp_all
  then show ?thesis by (simp add: sint_word_ariths signed_take_bit_int_eq_self)
qed

lemma sint_eq_iff: "sint a = sint b \<longleftrightarrow> a = b"
  by (auto intro: signed_word_eqI)

lemma length_le_MaxOrders:
  assumes "levels_ok c s L"
  shows "length (L p) \<le> MaxOrders c"
proof (cases "0 \<le> p \<and> p \<le> MaxPrice c")
  case True
  then have d: "distinct (L p)" using levels_okD(2) [OF assms] by simp
  have "set (L p) \<subseteq> {..<MaxOrders c}"
    using levels_ok_mem(3) [OF assms, of _ p] live_less by auto
  then have "card (set (L p)) \<le> MaxOrders c" using card_mono [of "{..<MaxOrders c}"] by fastforce
  then show ?thesis using distinct_card [OF d] by simp
next
  case False
  have "L p = []"
  proof (cases "L p")
    case (Cons y ys)
    then have "y \<in> set (L p)" by simp
    then show ?thesis using levels_ok_mem(1,2) [OF assms] False by blast
  qed simp
  then show ?thesis by simp
qed

lemma level_empty_iff:
  assumes v: "valid_params c" and LO: "levels_ok c s L" and p: "0 \<le> p" "p \<le> MaxPrice c"
  shows "level_empty (levels s p) \<longleftrightarrow> L p = []"
proof -
  have "length (L p) < 2 ^ 64"
    using length_le_MaxOrders [OF LO, of p] v by (simp add: valid_params_def)
  then have "unat (of_nat (length (L p)) :: 64 word) = length (L p)"
    by (simp add: unat_of_nat)
  then have "(of_nat (length (L p)) :: 64 word) = 0 \<longleftrightarrow> length (L p) = 0"
    using unat_0 [where 'a = 64] by (cases "length (L p) = 0") auto
  then show ?thesis
    using levels_okD(3) [OF LO p] by (simp add: level_empty_def cnt_def)
qed

section \<open>A fill of the head of a level\<close>

lemma fill_head_eff:
  assumes S: "struct_ok c s L" and x: "x \<in> set (L p)"
  obtains s1 where "modify c (Slot x) (fill a) s = Some s1"
    "struct_ok c (reduce_qty s1 p a) L"
    "live c (reduce_qty s1 p a) = live c s"
    "pay (reduce_qty s1 p a) = (pay s)(x := (pay s x)\<lparr>qty := qty (pay s x) - a\<rparr>)"
    "best_bid (reduce_qty s1 p a) = best_bid s" "best_ask (reduce_qty s1 p a) = best_ask s"
    "nxt (reduce_qty s1 p a) = nxt s"
proof -
  note c = structD [OF S]
  note m = levels_ok_mem [OF c(2) x]
  let ?s1 = "s\<lparr>pool := (pool s)\<lparr>storage := (storage (pool s))(x := Obj (fill a (ord_at s x)))\<rparr>\<rparr>"
  let ?s2 = "reduce_qty ?s1 p a"
  have md: "modify c (Slot x) (fill a) s = Some ?s1" by (rule modify_Slot [OF m(3)])
  have st: "storage (pool s) x = Obj (ord_at s x)" by (rule storage_live [OF m(3)])
  have pf: "payload (fill a (ord_at s x)) = (pay s x)\<lparr>qty := qty (pay s x) - a\<rparr>"
    by (simp add: fill_def pay_ord_at payload_def del: ord_at_fields)
  have d2: "dat ?s2 = (dat s)(x := Obj ((pay s x)\<lparr>qty := qty (pay s x) - a\<rparr>))"
    using pf by (simp add: dat_def reduce_qty_def set_counts_def fun_eq_iff)
  have l2: "live c ?s2 = live c s"
    using m(3) by (auto simp: live_def d2 fun_eq_iff)
  have p2: "pay ?s2 = (pay s)(x := (pay s x)\<lparr>qty := qty (pay s x) - a\<rparr>)"
    by (simp add: pay_def d2 fun_eq_iff)
  have k2: "key ?s2 = key s" by (simp add: key_def p2 fun_eq_iff)
  have n2: "nxt ?s2 = nxt s"
    unfolding fun_eq_iff
  proof
    fix r show "nxt ?s2 r = nxt s r"
      using st by (cases r) (simp_all add: nxt_def reduce_qty_def set_counts_def ord_at_def fill_def)
  qed
  have v2: "prv ?s2 = prv s"
    unfolding fun_eq_iff
  proof
    fix r show "prv ?s2 r = prv s r"
      using st by (cases r) (simp_all add: prv_def reduce_qty_def set_counts_def ord_at_def fill_def)
  qed
  have c2: "cnt ?s2 = cnt s" "tot ?s2 = (tot s)(p := tot s p - a)"
    by (simp_all add: cnt_def tot_def reduce_qty_def set_counts_def fun_eq_iff)
  have o2: "order_map ?s2 = order_map s" "best_bid ?s2 = best_bid s" "best_ask ?s2 = best_ask s"
    "total_orders ?s2 = total_orders s" "free_head (pool ?s2) = free_head (pool s)"
    "alloc_cnt (pool ?s2) = alloc_cnt (pool s)"
    by (simp_all add: reduce_qty_def set_counts_def)
  have lq: "level_qty ?s2 (L q) = (if q = p then level_qty s (L p) - a else level_qty s (L q))" for q
  proof (cases "q = p")
    case True
    have d: "distinct (L p)" using levels_okD(2) [OF c(2) m(1,2)] .
    have "level_qty ?s2 (remove1 x (L p)) = level_qty s (remove1 x (L p))"
      by (rule level_qty_agree) (use d in \<open>auto simp: p2\<close>)
    moreover have "level_qty ?s2 (L p) = qty (pay ?s2 x) + level_qty ?s2 (remove1 x (L p))"
      "level_qty s (L p) = qty (pay s x) + level_qty s (remove1 x (L p))"
      using x by (simp_all add: level_qty_def sum_list_map_remove1 [of x "L p"])
    ultimately show ?thesis using True by (simp add: p2)
  next
    case False
    have "level_qty ?s2 (L q) = level_qty s (L q)"
    proof (rule level_qty_agree)
      fix y assume "y \<in> set (L q)"
      then have "y \<noteq> x" using levels_ok_disjoint [OF c(2) _ x False] by blast
      then show "pay ?s2 y = pay s y" by (simp add: p2)
    qed
    then show ?thesis using False by simp
  qed
  have LO2: "levels_ok c ?s2 L"
    unfolding levels_ok_def
  proof (intro conjI allI impI)
    fix q assume q: "0 \<le> q \<and> q \<le> MaxPrice c"
    then have q': "0 \<le> q" "q \<le> MaxPrice c" by simp_all
    note l = levels_okD [OF c(2) q']
    show "chain ?s2 q (L q)" using l(1) by (simp add: chain_def n2 v2)
    show "distinct (L q)" by (rule l(2))
    show "cnt ?s2 q = word_of_nat (length (L q))" using l(3) by (simp add: c2)
    show "tot ?s2 q = level_qty ?s2 (L q)" using l(4) levels_okD(4) [OF c(2) m(1,2)]
      by (simp add: c2 lq)
  next
    fix q y assume y: "y \<in> set (L q)"
    show "0 \<le> q" "q \<le> MaxPrice c" "live c ?s2 y" "price (pay ?s2 y) = q"
      using levels_ok_mem [OF c(2) y] by (auto simp: l2 p2)
  qed
  have CV2: "covers c ?s2 L" using c(3) by (auto simp: covers_def l2 p2)
  have G2: "gap_ok c ?s2 L" using c(4) by (simp add: gap_ok_def o2)
  have PO2: "pool_ok c ?s2"
  proof -
    obtain fs where fs: "fpath (dat s) (free_head (pool s)) fs" "distinct fs"
      "set fs = {x. x < MaxOrders c \<and> \<not> live c s x}"
      "alloc_cnt (pool s) = of_nat (card {x. live c s x})"
      by (rule pool_okD [OF c(5)])
    have xn: "x \<notin> set fs" unfolding fs(3) using m(3) by simp
    have "fpath (dat ?s2) (free_head (pool s)) fs = fpath (dat s) (free_head (pool s)) fs"
      using xn by (intro fpath_cong) (auto simp: d2)
    then have "fpath (dat ?s2) (free_head (pool ?s2)) fs" using fs(1) by (simp add: o2)
    moreover have "set fs = {x. x < MaxOrders c \<and> \<not> live c ?s2 x}" unfolding fs(3) by (simp add: l2)
    moreover have "alloc_cnt (pool ?s2) = of_nat (card {x. live c ?s2 x})"
      using fs(4) by (simp add: o2 l2)
    ultimately show ?thesis unfolding pool_ok_def using fs(2) by blast
  qed
  have T2: "table_ok c ?s2 {y. live c ?s2 y}"
    unfolding l2 by (rule table_ok_agree [OF c(6)]) (simp_all add: o2 l2 k2)
  have P2: "probe_ok c ?s2"
    by (rule probe_ok_agree [OF c(7)]) (simp_all add: o2 k2)
  have TO2: "total_orders ?s2 = of_nat (card {y. live c ?s2 y})"
    using c(8) by (simp add: o2 l2)
  have S2: "struct_ok c ?s2 L"
    unfolding struct_ok_def using c(1) LO2 CV2 G2 PO2 T2 P2 TO2 by simp
  show ?thesis by (rule that [OF md S2 l2 p2 o2(2,3) n2])
qed

section \<open>\<open>match_level\<close>\<close>

lemma orders_okD: "orders_ok c s \<Longrightarrow> live c s x \<Longrightarrow> order_ok s x"
  by (simp add: orders_ok_def)

lemma match_level_stop:
  assumes "\<not> (0 < sint q \<and> \<not> level_empty (levels s p))"
  shows "match_level c s p q = Some (q, s)"
  by (subst match_level.simps) (use assms in auto)

lemma fifo_fill_stop: "q \<le> 0 \<or> es = [] \<Longrightarrow> fifo_fill q es = (q, es)"
  by (cases es) auto

lemma entries_simps [simp]:
  "entries s [] = []" "entries s (x # xs) = (key s x, sint (qty (pay s x))) # entries s xs"
  by (simp_all add: entries_def)

lemma entries_agree:
  "(\<And>y. y \<in> set xs \<Longrightarrow> pay s' y = pay s y) \<Longrightarrow> entries s' xs = entries s xs"
  by (simp add: entries_def key_def)

lemma level_post_refl:
  assumes C: "core c s L" and st: "sint q \<le> 0 \<or> L p = []"
  shows "level_post c s L p q q s L"
proof -
  have "fifo_fill (sint q) (entries s (L p)) = (sint q, entries s (L p))"
    using st by (intro fifo_fill_stop) auto
  then show ?thesis
    unfolding level_post_def using C st by (auto intro: exI [of _ 0])
qed

lemma match_level_eff:
  assumes p: "0 \<le> p" "p \<le> MaxPrice c"
  shows "core c s L \<Longrightarrow> \<exists>q' s' L'. match_level c s p q = Some (q', s') \<and> level_post c s L p q q' s' L'"
proof (induction "length (L p)" arbitrary: s L q rule: less_induct)
  case less
  note C = less.prems
  note S = coreD(1) [OF C] and O = coreD(2) [OF C]
  note c = structD [OF S]
  have le: "level_empty (levels s p) \<longleftrightarrow> L p = []"
    by (rule level_empty_iff [OF c(1,2) p])
  show ?case
  proof (cases "0 < sint q \<and> L p \<noteq> []")
    case False
    then have "match_level c s p q = Some (q, s)" by (intro match_level_stop) (simp add: le)
    moreover have "level_post c s L p q q s L" using False by (intro level_post_refl [OF C]) auto
    ultimately show ?thesis by blast
  next
    case True
    then obtain x xs where Lp: "L p = x # xs" by (cases "L p") auto
    have xm: "x \<in> set (L p)" using Lp by simp
    note m = levels_ok_mem [OF c(2) xm]
    have fr: "front (levels s p) = Slot x"
      using chainf_front [of "nxt s" "prv s" p x xs] levels_okD(1) [OF c(2) p] Lp
      by (simp add: front_def next_sentinel)
    note ox = orders_okD [OF O m(3), unfolded order_ok_def]
    let ?oq = "qty (pay s x)"
    define a where "a = min_qty q ?oq"
    obtain s1 where s1: "modify c (Slot x) (fill a) s = Some s1"
      "struct_ok c (reduce_qty s1 p a) L"
      "live c (reduce_qty s1 p a) = live c s"
      "pay (reduce_qty s1 p a) = (pay s)(x := (pay s x)\<lparr>qty := ?oq - a\<rparr>)"
      "best_bid (reduce_qty s1 p a) = best_bid s" "best_ask (reduce_qty s1 p a) = best_ask s"
      "nxt (reduce_qty s1 p a) = nxt s"
      by (rule fill_head_eff [OF S xm, of a])
    let ?s2 = "reduce_qty s1 p a"
    have l2: "live c ?s2 x" using m(3) by (simp add: s1(3))
    have k2: "key ?s2 = key s" by (simp add: key_def s1(4) fun_eq_iff)
    have d0: "deref c s (Slot x) = Some (ord_at s x)" by (rule deref_live [OF m(3)])
    have d2: "deref c ?s2 (Slot x) = Some (ord_at ?s2 x)" by (rule deref_live [OF l2])
    have f2: "filled (ord_at ?s2 x) \<longleftrightarrow> sint (?oq - a) \<le> 0"
      by (simp add: filled_def s1(4))
    have unf: "match_level c s p q =
      (if sint (?oq - a) \<le> 0
       then remove_from_book c ?s2 (Slot x) \<bind> (\<lambda>s3. match_level c s3 p (q - a))
       else match_level c ?s2 p (q - a))"
      by (subst match_level.simps)
        (use True in \<open>simp add: le fr d0 a_def [symmetric] d2 s1(1) f2\<close>)
    show ?thesis
    proof (cases "sint (?oq - a) \<le> 0")
      case filled: True
      have px: "price (pay ?s2 x) = p" using m(4) by (simp add: s1(4))
      obtain s3 where s3: "remove_from_book c ?s2 (Slot x) = Some s3"
        "struct_ok c s3 (L(price (pay ?s2 x) := remove1 x (L (price (pay ?s2 x)))))"
        "best_bid s3 = best_bid ?s2" "best_ask s3 = best_ask ?s2"
        "\<And>y. live c s3 y \<longleftrightarrow> live c ?s2 y \<and> y \<noteq> x"
        "\<And>y. y \<noteq> x \<Longrightarrow> pay s3 y = pay ?s2 y"
        using remove_from_book_eff [OF s1(2) l2] by metis
      let ?L3 = "L(p := xs)"
      have L3: "L(price (pay ?s2 x) := remove1 x (L (price (pay ?s2 x)))) = ?L3"
        by (simp add: px Lp)
      have S3: "struct_ok c s3 ?L3" using s3(2) unfolding L3 .
      have lv3: "live c s3 y \<longleftrightarrow> live c s y \<and> y \<noteq> x" for y by (simp add: s3(5) s1(3))
      have py3: "pay s3 y = pay s y" if "y \<noteq> x" for y using that by (simp add: s3(6) s1(4))
      have O3: "orders_ok c s3"
        unfolding orders_ok_def
      proof (intro allI impI)
        fix y assume "live c s3 y"
        then have y: "live c s y" "y \<noteq> x" by (simp_all add: lv3)
        show "order_ok s3 y"
          using orders_okD [OF O y(1)] by (simp add: order_ok_def py3 [OF y(2)] s3(3,4) s1(5,6))
      qed
      have C3: "core c s3 ?L3" using S3 O3 by (simp add: core_def)
      have "length (?L3 p) < length (L p)" by (simp add: Lp)
      then obtain q' s' L' where r: "match_level c s3 p (q - a) = Some (q', s')"
        "level_post c s3 ?L3 p (q - a) q' s' L'"
        using less.hyps [OF _ C3] by blast
      note lp = r(2) [unfolded level_post_def]
      have ml: "match_level c s p q = Some (q', s')" by (simp add: unf filled s3(1) r(1))
      have xd: "\<not> live c s' x" using lp lv3 by blast
      have "level_post c s L p q q' s' L'"
        unfolding level_post_def
      proof (intro conjI allI impI ballI)
        show "core c s' L'" using lp by simp
        show "best_bid s' = best_bid s" using lp by (simp add: s3(3) s1(5))
        show "best_ask s' = best_ask s" using lp by (simp add: s3(4) s1(6))
        show "\<And>r. r \<noteq> p \<Longrightarrow> L' r = L r" using lp by simp
        show "\<exists>k. L' p = drop k (L p)"
        proof -
          obtain k where "L' p = drop k (?L3 p)" using lp by blast
          then have "L' p = drop (Suc k) (L p)" by (simp add: Lp)
          then show ?thesis by blast
        qed
        show "0 < sint q' \<Longrightarrow> L' p = []" using lp by simp
        show "\<And>y. live c s' y \<Longrightarrow> live c s y" using lp lv3 by blast
        show "\<And>y. live c s' y \<Longrightarrow> key s' y = key s y"
        proof -
          fix y assume y: "live c s' y"
          then have "live c s3 y" "key s' y = key s3 y" using lp by blast+
          then show "key s' y = key s y" using py3 [of y] by (simp add: lv3 key_def)
        qed
        show "\<And>y. live c s' y \<Longrightarrow> y \<notin> set (take 1 (L' p)) \<Longrightarrow> pay s' y = pay s y"
        proof -
          fix y assume y: "live c s' y" "y \<notin> set (take 1 (L' p))"
          then have "live c s3 y" "pay s' y = pay s3 y" using lp by blast+
          then show "pay s' y = pay s y" using py3 [of y] by (simp add: lv3)
        qed
        show "\<And>y. y \<in> set (take 1 (L' p)) \<Longrightarrow> pay s' y = (pay s y)\<lparr>qty := qty (pay s' y)\<rparr>"
          "\<And>y. y \<in> set (take 1 (L' p)) \<Longrightarrow> sint (qty (pay s' y)) \<le> sint (qty (pay s y))"
        proof -
          fix y assume y: "y \<in> set (take 1 (L' p))"
          then have "y \<in> set (L' p)" by (meson in_set_takeD)
          moreover have "levels_ok c s' L'" using lp by (simp add: core_def struct_ok_def)
          ultimately have "live c s' y" using levels_ok_mem(3) by blast
          then have yx: "y \<noteq> x" using xd by auto
          have "pay s' y = (pay s3 y)\<lparr>qty := qty (pay s' y)\<rparr>"
            "sint (qty (pay s' y)) \<le> sint (qty (pay s3 y))" using lp y by blast+
          then show "pay s' y = (pay s y)\<lparr>qty := qty (pay s' y)\<rparr>"
            "sint (qty (pay s' y)) \<le> sint (qty (pay s y))" by (simp_all add: py3 [OF yx])
        qed
        show "sint q' \<le> 0 \<or> (\<exists>y<MaxOrders c. \<not> live c s' y)"
          using xd live_less [OF m(3)] by blast
        show "(sint q', entries s' (L' p)) = fifo_fill (sint q) (entries s (L p))"
        proof -
          have ih: "(sint q', entries s' (L' p)) = fifo_fill (sint (q - a)) (entries s3 xs)"
            using lp by simp
          have "x \<notin> set xs" using levels_okD(2) [OF c(2) p] Lp by simp
          then have e3: "entries s3 xs = entries s xs"
            by (intro entries_agree py3) auto
          have am: "sint ?oq \<le> sint q \<and> sint (q - a) = sint q - sint ?oq"
          proof (cases "sint ?oq < sint q")
            case True
            then have "a = ?oq" by (simp add: a_def min_qty_def)
            then show ?thesis using True sint_diff_pos [of ?oq q] ox by simp
          next
            case False
            then have aq: "a = q" by (simp add: a_def min_qty_def)
            have "sint (?oq - q) = sint ?oq - sint q"
              using False \<open>0 < sint q \<and> L p \<noteq> []\<close> by (intro sint_diff_pos) simp_all
            then have "sint ?oq = sint q" using filled False by (simp add: aq)
            then show ?thesis by (simp add: aq)
          qed
          show ?thesis
            using am \<open>0 < sint q \<and> L p \<noteq> []\<close> by (simp add: ih e3 Lp)
        qed
      qed
      then show ?thesis using ml by blast
    next
      case part: False
      have nl: "\<not> sint ?oq < sint q"
      proof
        assume "sint ?oq < sint q"
        then have "a = ?oq" by (simp add: a_def min_qty_def)
        then show False using part by simp
      qed
      then have a: "a = q" by (simp add: a_def min_qty_def)
      have q0: "0 < sint q" "sint q \<le> sint ?oq" using True nl by simp_all
      have sd: "sint (?oq - q) = sint ?oq - sint q" by (rule sint_diff_pos [OF q0])
      note t1 = s1(2-6) [unfolded a]
      have ml: "match_level c s p q = Some (0, ?s2)"
        using part by (simp add: unf) (simp add: a match_level_stop)
      have O2: "orders_ok c ?s2"
        unfolding orders_ok_def
      proof (intro allI impI)
        fix y assume "live c ?s2 y"
        then have y: "live c s y" by (simp add: s1(3))
        show "order_ok ?s2 y"
        proof (cases "y = x")
          case True
          show ?thesis
            using ox part q0 sd by (simp add: True order_ok_def t1 a)
        next
          case False
          then show ?thesis
            using orders_okD [OF O y] by (simp add: order_ok_def t1 a)
        qed
      qed
      have C2: "core c ?s2 L" using s1(2) O2 by (simp add: core_def)
      have "level_post c s L p q 0 ?s2 L"
        unfolding level_post_def
      proof (intro conjI allI impI ballI)
        show "core c ?s2 L" by (rule C2)
        show "\<exists>k. L p = drop k (L p)" by (rule exI [of _ 0]) simp
        show "\<And>y. live c ?s2 y \<Longrightarrow> y \<notin> set (take 1 (L p)) \<Longrightarrow> pay ?s2 y = pay s y"
          by (simp add: Lp s1(4))
        show "\<And>y. y \<in> set (take 1 (L p)) \<Longrightarrow> pay ?s2 y = (pay s y)\<lparr>qty := qty (pay ?s2 y)\<rparr>"
          by (simp add: Lp s1(4))
        show "\<And>y. y \<in> set (take 1 (L p)) \<Longrightarrow> sint (qty (pay ?s2 y)) \<le> sint (qty (pay s y))"
          using sd q0 by (simp add: Lp t1 a)
        show "(sint (0 :: Qty), entries ?s2 (L p)) = fifo_fill (sint q) (entries s (L p))"
        proof -
          have "x \<notin> set xs" using levels_okD(2) [OF c(2) p] Lp by simp
          then have "entries ?s2 xs = entries s xs"
            by (intro entries_agree) (auto simp: s1(4))
          moreover have "sint q < sint ?oq" using part sd by (simp add: a)
          ultimately show ?thesis using q0 sd by (simp add: Lp key_def t1 s1(4) a)
        qed
      qed (simp_all add: s1(3,5,6) k2)
      then show ?thesis using ml by blast
    qed
  qed
qed

section \<open>The best prices\<close>

lemma best_upd_simps [simp]:
  "nxt (s\<lparr>best_ask := b\<rparr>) = nxt s" "prv (s\<lparr>best_ask := b\<rparr>) = prv s"
  "cnt (s\<lparr>best_ask := b\<rparr>) = cnt s" "tot (s\<lparr>best_ask := b\<rparr>) = tot s"
  "dat (s\<lparr>best_ask := b\<rparr>) = dat s"
  "nxt (s\<lparr>best_bid := b\<rparr>) = nxt s" "prv (s\<lparr>best_bid := b\<rparr>) = prv s"
  "cnt (s\<lparr>best_bid := b\<rparr>) = cnt s" "tot (s\<lparr>best_bid := b\<rparr>) = tot s"
  "dat (s\<lparr>best_bid := b\<rparr>) = dat s"
proof -
  show "nxt (s\<lparr>best_ask := b\<rparr>) = nxt s"
    unfolding fun_eq_iff
  proof
    fix r show "nxt (s\<lparr>best_ask := b\<rparr>) r = nxt s r" by (cases r) (simp_all add: nxt_def ord_at_def)
  qed
  show "prv (s\<lparr>best_ask := b\<rparr>) = prv s"
    unfolding fun_eq_iff
  proof
    fix r show "prv (s\<lparr>best_ask := b\<rparr>) r = prv s r" by (cases r) (simp_all add: prv_def ord_at_def)
  qed
  show "nxt (s\<lparr>best_bid := b\<rparr>) = nxt s"
    unfolding fun_eq_iff
  proof
    fix r show "nxt (s\<lparr>best_bid := b\<rparr>) r = nxt s r" by (cases r) (simp_all add: nxt_def ord_at_def)
  qed
  show "prv (s\<lparr>best_bid := b\<rparr>) = prv s"
    unfolding fun_eq_iff
  proof
    fix r show "prv (s\<lparr>best_bid := b\<rparr>) r = prv s r" by (cases r) (simp_all add: prv_def ord_at_def)
  qed
qed (simp_all add: cnt_def tot_def dat_def fun_eq_iff)

lemma levels_ok_eq:
  assumes "nxt s' = nxt s" "prv s' = prv s" "cnt s' = cnt s" "tot s' = tot s" "dat s' = dat s"
  shows "levels_ok c s' L = levels_ok c s L"
  using assms live_dat [OF assms(5), of c] pay_dat [OF assms(5)] level_qty_dat [OF assms(5)]
  by (simp add: levels_ok_def chain_def)

text \<open>A state that differs from \<open>s\<close> in the best prices only.\<close>

lemma struct_ok_best:
  assumes S: "struct_ok c s L"
    and e: "nxt s' = nxt s" "prv s' = prv s" "cnt s' = cnt s" "tot s' = tot s" "dat s' = dat s"
      "order_map s' = order_map s" "total_orders s' = total_orders s"
      "free_head (pool s') = free_head (pool s)" "alloc_cnt (pool s') = alloc_cnt (pool s)"
    and g: "gap_ok c s' L"
  shows "struct_ok c s' L"
  using S g live_dat [OF e(5), of c]
  unfolding struct_ok_def
  by (simp add: levels_ok_eq [OF e(1-5)] covers_cong [OF e(5)] pool_ok_cong [OF e(5,8,9)]
      table_ok_cong [OF e(5,6)] probe_ok_cong [OF e(5,6)] e(7))

lemma gapD:
  assumes "gap_ok c s L"
  shows "- 1 \<le> best_bid s" "best_bid s < best_ask s" "best_ask s \<le> MaxPrice c + 1"
    "\<And>p. best_bid s < p \<Longrightarrow> p < best_ask s \<Longrightarrow> L p = []"
  using assms by (simp_all add: gap_ok_def)

lemma core_ask_step:
  assumes C: "core c s L" and b: "best_ask s \<le> MaxPrice c" and e: "L (best_ask s) = []"
  shows "core c (s\<lparr>best_ask := best_ask s + 1\<rparr>) L"
proof -
  let ?s = "s\<lparr>best_ask := best_ask s + 1\<rparr>"
  note S = coreD(1) [OF C] and O = coreD(2) [OF C]
  note c = structD [OF S]
  note g = gapD [OF c(4)]
  have "L p = []" if "best_bid s < p" "p < best_ask s + 1" for p
    using g(4) [of p] e that by (cases "p = best_ask s") simp_all
  then have G: "gap_ok c ?s L"
    unfolding gap_ok_def using g(1-3) b by simp
  have S': "struct_ok c ?s L" by (rule struct_ok_best [OF S _ _ _ _ _ _ _ _ _ G]) simp_all
  have O': "orders_ok c ?s"
    unfolding orders_ok_def
  proof (intro allI impI)
    fix y assume "live c ?s y"
    then have y: "live c s y" by (simp add: live_def)
    have "y \<in> set (L (price (pay s y)))" using c(3) y by (simp add: covers_def)
    then have "price (pay s y) \<noteq> best_ask s" using e by auto
    then show "order_ok ?s y" using orders_okD [OF O y] by (auto simp: order_ok_def pay_def)
  qed
  show ?thesis using S' O' by (simp add: core_def)
qed

lemma core_bid_step:
  assumes C: "core c s L" and b: "0 \<le> best_bid s" and e: "L (best_bid s) = []"
  shows "core c (s\<lparr>best_bid := best_bid s - 1\<rparr>) L"
proof -
  let ?s = "s\<lparr>best_bid := best_bid s - 1\<rparr>"
  note S = coreD(1) [OF C] and O = coreD(2) [OF C]
  note c = structD [OF S]
  note g = gapD [OF c(4)]
  have "L p = []" if "best_bid s - 1 < p" "p < best_ask s" for p
    using g(4) [of p] e that by (cases "p = best_bid s") simp_all
  then have G: "gap_ok c ?s L"
    unfolding gap_ok_def using g(1-3) b by simp
  have S': "struct_ok c ?s L" by (rule struct_ok_best [OF S _ _ _ _ _ _ _ _ _ G]) simp_all
  have O': "orders_ok c ?s"
    unfolding orders_ok_def
  proof (intro allI impI)
    fix y assume "live c ?s y"
    then have y: "live c s y" by (simp add: live_def)
    have "y \<in> set (L (price (pay s y)))" using c(3) y by (simp add: covers_def)
    then have "price (pay s y) \<noteq> best_bid s" using e by auto
    then show "order_ok ?s y" using orders_okD [OF O y] by (auto simp: order_ok_def pay_def)
  qed
  show ?thesis using S' O' by (simp add: core_def)
qed

lemma update_best_ask_eff:
  "core c s L \<Longrightarrow> \<exists>b. update_best_ask c s = Some (s\<lparr>best_ask := b\<rparr>) \<and> best_ask s \<le> b \<and>
     b \<le> MaxPrice c + 1 \<and> (\<forall>p. best_ask s \<le> p \<and> p < b \<longrightarrow> L p = []) \<and>
     (b \<le> MaxPrice c \<longrightarrow> L b \<noteq> []) \<and> core c (s\<lparr>best_ask := b\<rparr>) L"
proof (induction "nat (MaxPrice c + 1 - best_ask s)" arbitrary: s rule: less_induct)
  case less
  note C = less.prems
  note c = structD [OF coreD(1) [OF C]]
  note g = gapD [OF c(4)]
  have id: "s\<lparr>best_ask := best_ask s\<rparr> = s" by simp
  show ?case
  proof (cases "best_ask s \<le> MaxPrice c")
    case False
    then have "update_best_ask c s = Some s" by simp
    then show ?thesis using False g(3) C by (intro exI [of _ "best_ask s"]) (auto simp: id)
  next
    case True
    have r: "0 \<le> best_ask s" using g by simp
    have le: "level_empty (levels s (best_ask s)) \<longleftrightarrow> L (best_ask s) = []"
      by (rule level_empty_iff [OF c(1,2) r True])
    show ?thesis
    proof (cases "L (best_ask s) = []")
      case False
      then have "update_best_ask c s = Some s" using True r by (simp add: level_ref_eq le)
      then show ?thesis using False g(3) C by (intro exI [of _ "best_ask s"]) (auto simp: id)
    next
      case e: True
      let ?s1 = "s\<lparr>best_ask := best_ask s + 1\<rparr>"
      have C1: "core c ?s1 L" by (rule core_ask_step [OF C True e])
      have u: "update_best_ask c s = update_best_ask c ?s1"
        using True r e by (subst update_best_ask.simps) (simp add: level_ref_eq le)
      obtain b where b: "update_best_ask c ?s1 = Some (?s1\<lparr>best_ask := b\<rparr>)"
        "best_ask ?s1 \<le> b" "b \<le> MaxPrice c + 1" "\<forall>p. best_ask ?s1 \<le> p \<and> p < b \<longrightarrow> L p = []"
        "b \<le> MaxPrice c \<longrightarrow> L b \<noteq> []" "core c (?s1\<lparr>best_ask := b\<rparr>) L"
        using less.hyps [OF _ C1] True by auto
      have "\<forall>p. best_ask s \<le> p \<and> p < b \<longrightarrow> L p = []"
      proof (intro allI impI)
        fix p assume p: "best_ask s \<le> p \<and> p < b"
        show "L p = []"
        proof (cases "p = best_ask s")
          case True then show ?thesis using e by simp
        next
          case False then show ?thesis using b(4) p by simp
        qed
      qed
      then show ?thesis using b u by (intro exI [of _ b]) simp
    qed
  qed
qed

lemma update_best_bid_eff:
  "core c s L \<Longrightarrow> \<exists>b. update_best_bid c s = Some (s\<lparr>best_bid := b\<rparr>) \<and> b \<le> best_bid s \<and>
     - 1 \<le> b \<and> (\<forall>p. b < p \<and> p \<le> best_bid s \<longrightarrow> L p = []) \<and>
     (0 \<le> b \<longrightarrow> L b \<noteq> []) \<and> core c (s\<lparr>best_bid := b\<rparr>) L"
proof (induction "nat (best_bid s + 1)" arbitrary: s rule: less_induct)
  case less
  note C = less.prems
  note c = structD [OF coreD(1) [OF C]]
  note g = gapD [OF c(4)]
  have id: "s\<lparr>best_bid := best_bid s\<rparr> = s" by simp
  show ?case
  proof (cases "0 \<le> best_bid s")
    case False
    then have "update_best_bid c s = Some s" by simp
    then show ?thesis using False g(1) C by (intro exI [of _ "best_bid s"]) (auto simp: id)
  next
    case True
    have r: "best_bid s \<le> MaxPrice c" using g by simp
    have le: "level_empty (levels s (best_bid s)) \<longleftrightarrow> L (best_bid s) = []"
      by (rule level_empty_iff [OF c(1,2) True r])
    show ?thesis
    proof (cases "L (best_bid s) = []")
      case False
      then have "update_best_bid c s = Some s" using True r by (simp add: level_ref_eq le)
      then show ?thesis using False g(1) C by (intro exI [of _ "best_bid s"]) (auto simp: id)
    next
      case e: True
      let ?s1 = "s\<lparr>best_bid := best_bid s - 1\<rparr>"
      have C1: "core c ?s1 L" by (rule core_bid_step [OF C True e])
      have u: "update_best_bid c s = update_best_bid c ?s1"
        using True r e by (subst update_best_bid.simps) (simp add: level_ref_eq le)
      obtain b where b: "update_best_bid c ?s1 = Some (?s1\<lparr>best_bid := b\<rparr>)"
        "b \<le> best_bid ?s1" "- 1 \<le> b" "\<forall>p. b < p \<and> p \<le> best_bid ?s1 \<longrightarrow> L p = []"
        "0 \<le> b \<longrightarrow> L b \<noteq> []" "core c (?s1\<lparr>best_bid := b\<rparr>) L"
        using less.hyps [OF _ C1] True by auto
      have "\<forall>p. b < p \<and> p \<le> best_bid s \<longrightarrow> L p = []"
      proof (intro allI impI)
        fix p assume p: "b < p \<and> p \<le> best_bid s"
        show "L p = []"
        proof (cases "p = best_bid s")
          case True then show ?thesis using e by simp
        next
          case False then show ?thesis using b(4) p by simp
        qed
      qed
      then show ?thesis using b u by (intro exI [of _ b]) simp
    qed
  qed
qed

section \<open>The loops of \<open>match_internal\<close>\<close>

lemma invD:
  assumes "book_inv c s L"
  shows "core c s L" "tight_bid s L" "tight_ask c s L"
  using assms by (simp_all add: book_inv_def)

lemma level_postD:
  assumes "level_post c s L p q q' s' L'"
  shows "core c s' L'" "best_bid s' = best_bid s" "best_ask s' = best_ask s"
    "\<And>r. r \<noteq> p \<Longrightarrow> L' r = L r" "0 < sint q' \<Longrightarrow> L' p = []"
    "\<And>y. live c s' y \<Longrightarrow> live c s y \<and> key s' y = key s y"
    "0 < sint q \<Longrightarrow> L p \<noteq> [] \<Longrightarrow> sint q' \<le> 0 \<or> (\<exists>y < MaxOrders c. \<not> live c s' y)"
    "(sint q', entries s' (L' p)) = fifo_fill (sint q) (entries s (L p))"
    "\<And>y. live c s' y \<Longrightarrow> y \<notin> set (take 1 (L' p)) \<Longrightarrow> pay s' y = pay s y"
  using assms unfolding level_post_def by blast+

lemma sweep_postD:
  assumes "sweep_post c s e q q' s' L'"
  shows "book_inv c s' L'" "best_bid s' \<le> best_bid s" "best_ask s \<le> best_ask s'"
    "\<And>y. live c s' y \<Longrightarrow> live c s y \<and> key s' y = key s y"
    "e \<Longrightarrow> sint q' \<le> 0 \<or> (\<exists>y < MaxOrders c. \<not> live c s' y)"
    "\<not> e \<Longrightarrow> q' = q \<and> s' = s"
  using assms unfolding sweep_post_def by blast+

lemma sweep_post_refl: "book_inv c s L \<Longrightarrow> sweep_post c s False q q s L"
  by (simp add: sweep_post_def)

lemma match_asks_eff:
  "book_inv c s L \<Longrightarrow> \<exists>q' s' L'. match_asks c s q limit = Some (q', s') \<and>
     sweep_post c s (0 < sint q \<and> best_ask s \<le> limit \<and> best_ask s \<le> MaxPrice c) q q' s' L' \<and>
     best_bid s' = best_bid s \<and>
     (0 < sint q' \<longrightarrow> limit < best_ask s' \<or> MaxPrice c < best_ask s')"
proof (induction "nat (MaxPrice c + 1 - best_ask s)" arbitrary: s L q rule: less_induct)
  case less
  note I = less.prems
  note C = invD(1) [OF I]
  note c = structD [OF coreD(1) [OF C]]
  note g = gapD [OF c(4)]
  let ?p = "best_ask s"
  show ?case
  proof (cases "0 < sint q \<and> ?p \<le> limit \<and> ?p \<le> MaxPrice c")
    case False
    then have "match_asks c s q limit = Some (q, s)" by (subst match_asks.simps) auto
    then show ?thesis using False sweep_post_refl [OF I, of q]
      by (intro exI [of _ q] exI [of _ s] exI [of _ L]) auto
  next
    case True
    then have p: "0 \<le> ?p" "?p \<le> MaxPrice c" using g by simp_all
    have ne: "L ?p \<noteq> []" using invD(3) [OF I] p by (simp add: tight_ask_def)
    obtain q1 s1 L1 where m: "match_level c s ?p q = Some (q1, s1)"
      and lp: "level_post c s L ?p q q1 s1 L1"
      using match_level_eff [OF p C, of q] by blast
    note l = level_postD [OF lp]
    note c1 = structD [OF coreD(1) [OF l(1)]]
    have le: "level_empty (levels s1 ?p) \<longleftrightarrow> L1 ?p = []"
      by (rule level_empty_iff [OF c1(1,2) p])
    have bb: "L1 (best_bid s) = L (best_bid s)" using l(4) [of "best_bid s"] g by simp
    have tb: "tight_bid s1 L1" using invD(2) [OF I] by (simp add: tight_bid_def l(2) bb)
    have fr: "sint q1 \<le> 0 \<or> (\<exists>y < MaxOrders c. \<not> live c s1 y)" using l(7) True ne by simp
    show ?thesis
    proof (cases "L1 ?p = []")
      case False
      then have q1: "\<not> 0 < sint q1" using l(5) by blast
      have "match_asks c s1 q1 limit = Some (q1, s1)" using q1 by (subst match_asks.simps) simp
      then have r: "match_asks c s q limit = Some (q1, s1)"
        using True p False by (subst match_asks.simps) (simp add: level_ref_eq m le)
      have "tight_ask c s1 L1" using False by (simp add: tight_ask_def l(3))
      then have I1: "book_inv c s1 L1" using l(1) tb by (simp add: book_inv_def)
      have "sweep_post c s True q q1 s1 L1"
        unfolding sweep_post_def using I1 l(2,3,6) q1 by simp
      then show ?thesis using r True q1 l(2)
        by (intro exI [of _ q1] exI [of _ s1] exI [of _ L1]) simp
    next
      case e: True
      obtain b where b: "update_best_ask c s1 = Some (s1\<lparr>best_ask := b\<rparr>)" "best_ask s1 \<le> b"
        "b \<le> MaxPrice c + 1" "b \<le> MaxPrice c \<longrightarrow> L1 b \<noteq> []" "core c (s1\<lparr>best_ask := b\<rparr>) L1"
        using update_best_ask_eff [OF l(1)] by blast
      let ?s2 = "s1\<lparr>best_ask := b\<rparr>"
      have bp: "?p < b" using b(2,4) e p by (cases "b = ?p") (simp_all add: l(3))
      have I2: "book_inv c ?s2 L1"
        using b(4,5) tb by (simp add: book_inv_def tight_bid_def tight_ask_def)
      have r: "match_asks c s q limit = match_asks c ?s2 q1 limit"
        using True p e by (subst match_asks.simps) (simp add: level_ref_eq m le b(1) del: update_best_ask.simps update_best_bid.simps)
      have "nat (MaxPrice c + 1 - best_ask ?s2) < nat (MaxPrice c + 1 - ?p)" using bp p by simp
      from less.hyps [OF this I2, of q1]
      obtain q' s' L' where ih: "match_asks c ?s2 q1 limit = Some (q', s')"
        "sweep_post c ?s2 (0 < sint q1 \<and> best_ask ?s2 \<le> limit \<and> best_ask ?s2 \<le> MaxPrice c) q1 q' s' L'"
        "best_bid s' = best_bid ?s2"
        "0 < sint q' \<longrightarrow> limit < best_ask s' \<or> MaxPrice c < best_ask s'"
        by blast
      note sp = sweep_postD [OF ih(2)]
      have l2: "live c ?s2 y = live c s1 y" for y by (simp add: live_def)
      have k2: "key ?s2 y = key s1 y" for y by (simp add: key_def pay_def)
      have lv: "live c s y \<and> key s' y = key s y" if "live c s' y" for y
        using sp(4) [OF that] l(6) [of y] by (simp add: l2 k2)
      have fin: "sint q' \<le> 0 \<or> (\<exists>y < MaxOrders c. \<not> live c s' y)"
      proof (cases "sint q1 \<le> 0")
        case True
        then have "q' = q1" using sp(6) by simp
        then show ?thesis using True by simp
      next
        case False
        then obtain y where y: "y < MaxOrders c" "\<not> live c s1 y" using fr by blast
        then have "\<not> live c s' y" using sp(4) [of y] by (auto simp: l2)
        then show ?thesis using y(1) by blast
      qed
      have "sweep_post c s True q q' s' L'"
        unfolding sweep_post_def using sp(1,2,3) l(2) bp lv fin by auto
      then show ?thesis using r ih(1,3,4) True l(2)
        by (intro exI [of _ q'] exI [of _ s'] exI [of _ L']) simp
    qed
  qed
qed

lemma match_bids_eff:
  "book_inv c s L \<Longrightarrow> \<exists>q' s' L'. match_bids c s q limit = Some (q', s') \<and>
     sweep_post c s (0 < sint q \<and> limit \<le> best_bid s \<and> 0 \<le> best_bid s) q q' s' L' \<and>
     best_ask s' = best_ask s \<and>
     (0 < sint q' \<longrightarrow> best_bid s' < limit \<or> best_bid s' < 0)"
proof (induction "nat (best_bid s + 1)" arbitrary: s L q rule: less_induct)
  case less
  note I = less.prems
  note C = invD(1) [OF I]
  note c = structD [OF coreD(1) [OF C]]
  note g = gapD [OF c(4)]
  let ?p = "best_bid s"
  show ?case
  proof (cases "0 < sint q \<and> limit \<le> ?p \<and> 0 \<le> ?p")
    case False
    then have "match_bids c s q limit = Some (q, s)" by (subst match_bids.simps) auto
    then show ?thesis using False sweep_post_refl [OF I, of q]
      by (intro exI [of _ q] exI [of _ s] exI [of _ L]) auto
  next
    case True
    then have p: "0 \<le> ?p" "?p \<le> MaxPrice c" using g by simp_all
    have ne: "L ?p \<noteq> []" using invD(2) [OF I] p by (simp add: tight_bid_def)
    obtain q1 s1 L1 where m: "match_level c s ?p q = Some (q1, s1)"
      and lp: "level_post c s L ?p q q1 s1 L1"
      using match_level_eff [OF p C, of q] by blast
    note l = level_postD [OF lp]
    note c1 = structD [OF coreD(1) [OF l(1)]]
    have le: "level_empty (levels s1 ?p) \<longleftrightarrow> L1 ?p = []"
      by (rule level_empty_iff [OF c1(1,2) p])
    have bb: "L1 (best_ask s) = L (best_ask s)" using l(4) [of "best_ask s"] g by simp
    have tb: "tight_ask c s1 L1" using invD(3) [OF I] by (simp add: tight_ask_def l(3) bb)
    have fr: "sint q1 \<le> 0 \<or> (\<exists>y < MaxOrders c. \<not> live c s1 y)" using l(7) True ne by simp
    show ?thesis
    proof (cases "L1 ?p = []")
      case False
      then have q1: "\<not> 0 < sint q1" using l(5) by blast
      have "match_bids c s1 q1 limit = Some (q1, s1)" using q1 by (subst match_bids.simps) simp
      then have r: "match_bids c s q limit = Some (q1, s1)"
        using True p False by (subst match_bids.simps) (simp add: level_ref_eq m le)
      have "tight_bid s1 L1" using False by (simp add: tight_bid_def l(2))
      then have I1: "book_inv c s1 L1" using l(1) tb by (simp add: book_inv_def)
      have "sweep_post c s True q q1 s1 L1"
        unfolding sweep_post_def using I1 l(2,3,6) q1 by simp
      then show ?thesis using r True q1 l(3)
        by (intro exI [of _ q1] exI [of _ s1] exI [of _ L1]) simp
    next
      case e: True
      obtain b where b: "update_best_bid c s1 = Some (s1\<lparr>best_bid := b\<rparr>)" "b \<le> best_bid s1"
        "- 1 \<le> b" "0 \<le> b \<longrightarrow> L1 b \<noteq> []" "core c (s1\<lparr>best_bid := b\<rparr>) L1"
        using update_best_bid_eff [OF l(1)] by blast
      let ?s2 = "s1\<lparr>best_bid := b\<rparr>"
      have bp: "b < ?p" using b(2,4) e p by (cases "b = ?p") (simp_all add: l(2))
      have I2: "book_inv c ?s2 L1"
        using b(4,5) tb by (simp add: book_inv_def tight_bid_def tight_ask_def)
      have r: "match_bids c s q limit = match_bids c ?s2 q1 limit"
        using True p e by (subst match_bids.simps) (simp add: level_ref_eq m le b(1) del: update_best_ask.simps update_best_bid.simps)
      have "nat (best_bid ?s2 + 1) < nat (?p + 1)" using bp b(3) by simp
      from less.hyps [OF this I2, of q1]
      obtain q' s' L' where ih: "match_bids c ?s2 q1 limit = Some (q', s')"
        "sweep_post c ?s2 (0 < sint q1 \<and> limit \<le> best_bid ?s2 \<and> 0 \<le> best_bid ?s2) q1 q' s' L'"
        "best_ask s' = best_ask ?s2"
        "0 < sint q' \<longrightarrow> best_bid s' < limit \<or> best_bid s' < 0"
        by blast
      note sp = sweep_postD [OF ih(2)]
      have l2: "live c ?s2 y = live c s1 y" for y by (simp add: live_def)
      have k2: "key ?s2 y = key s1 y" for y by (simp add: key_def pay_def)
      have lv: "live c s y \<and> key s' y = key s y" if "live c s' y" for y
        using sp(4) [OF that] l(6) [of y] by (simp add: l2 k2)
      have fin: "sint q' \<le> 0 \<or> (\<exists>y < MaxOrders c. \<not> live c s' y)"
      proof (cases "sint q1 \<le> 0")
        case True
        then have "q' = q1" using sp(6) by simp
        then show ?thesis using True by simp
      next
        case False
        then obtain y where y: "y < MaxOrders c" "\<not> live c s1 y" using fr by blast
        then have "\<not> live c s' y" using sp(4) [of y] by (auto simp: l2)
        then show ?thesis using y(1) by blast
      qed
      have "sweep_post c s True q q' s' L'"
        unfolding sweep_post_def using sp(1,2,3) l(3) bp lv fin by auto
      then show ?thesis using r ih(1,3,4) True l(3)
        by (intro exI [of _ q'] exI [of _ s'] exI [of _ L']) simp
    qed
  qed
qed

section \<open>An order comes to rest\<close>

lemma total_upd_simps [simp]:
  "nxt (s\<lparr>total_orders := b\<rparr>) = nxt s" "prv (s\<lparr>total_orders := b\<rparr>) = prv s"
  "cnt (s\<lparr>total_orders := b\<rparr>) = cnt s" "tot (s\<lparr>total_orders := b\<rparr>) = tot s"
  "dat (s\<lparr>total_orders := b\<rparr>) = dat s"
proof -
  show "nxt (s\<lparr>total_orders := b\<rparr>) = nxt s"
    unfolding fun_eq_iff
  proof
    fix r show "nxt (s\<lparr>total_orders := b\<rparr>) r = nxt s r" by (cases r) (simp_all add: nxt_def ord_at_def)
  qed
  show "prv (s\<lparr>total_orders := b\<rparr>) = prv s"
    unfolding fun_eq_iff
  proof
    fix r show "prv (s\<lparr>total_orders := b\<rparr>) r = prv s r" by (cases r) (simp_all add: prv_def ord_at_def)
  qed
qed (simp_all add: cnt_def tot_def dat_def fun_eq_iff)

lemma construct_eff:
  assumes x: "x < MaxOrders c"
  shows "dat (construct s x n ord) = (dat s)(x := Obj (payload ord))"
    "live c (construct s x n ord) y \<longleftrightarrow> live c s y \<or> y = x"
    "pay (construct s x n ord) = (pay s)(x := payload ord)"
    "nxt (construct s x n ord) (Sentinel q) = nxt s (Sentinel q)"
    "prv (construct s x n ord) (Sentinel q) = prv s (Sentinel q)"
    "y \<noteq> x \<Longrightarrow> nxt (construct s x n ord) (Slot y) = nxt s (Slot y)"
    "y \<noteq> x \<Longrightarrow> prv (construct s x n ord) (Slot y) = prv s (Slot y)"
    "cnt (construct s x n ord) = cnt s" "tot (construct s x n ord) = tot s"
    "order_map (construct s x n ord) = order_map s"
    "best_bid (construct s x n ord) = best_bid s" "best_ask (construct s x n ord) = best_ask s"
    "total_orders (construct s x n ord) = total_orders s"
proof -
  show d: "dat (construct s x n ord) = (dat s)(x := Obj (payload ord))"
    by (simp add: construct_def assign_def dat_def fun_eq_iff)
  show "live c (construct s x n ord) y \<longleftrightarrow> live c s y \<or> y = x"
    using x by (auto simp: live_def d)
  show "pay (construct s x n ord) = (pay s)(x := payload ord)"
    by (simp add: pay_def d fun_eq_iff)
qed (simp_all add: construct_def assign_def nxt_def prv_def cnt_def tot_def ord_at_def fun_eq_iff)

lemma table_hole:
  assumes T: "table_ok c s M" and x: "x < MaxOrders c" "x \<notin> M"
  shows "\<exists>g < MaxOrders c. order_map s g = Null"
proof (rule ccontr)
  assume "\<not> ?thesis"
  then have nn: "\<And>g. g < MaxOrders c \<Longrightarrow> order_map s g \<noteq> Null" by blast
  let ?N = "MaxOrders c"
  have M: "M \<subseteq> {..<?N} - {x}" using T x(2) unfolding table_ok_def by (auto dest: live_less)
  have fM: "finite M" using M finite_subset by blast
  have "inj_on (order_map s) {..<?N}"
    using T nn unfolding table_ok_def inj_on_def by auto
  then have c1: "card (order_map s ` {..<?N}) = ?N" by (simp add: card_image)
  have "order_map s ` {..<?N} \<subseteq> Slot ` M"
    using T nn unfolding table_ok_def by fastforce
  then have "card (order_map s ` {..<?N}) \<le> card (Slot ` M)"
    using fM by (intro card_mono) simp_all
  also have "\<dots> \<le> card M" using fM by (rule card_image_le)
  also have "\<dots> \<le> card ({..<?N} - {x})" using M by (intro card_mono) simp_all
  also have "\<dots> < ?N" using x(1) by simp
  finally show False using c1 by simp
qed

text \<open>When the pool is full, nothing happens.\<close>

lemma rest_order_full:
  assumes P: "pool_ok c s" and f: "pool_full c s"
  shows "rest_order c s i sd px q t tm = Some (PoolExhausted, s)"
  by (simp add: rest_order_def alloc_full [OF P f [unfolded pool_full_def]])

text \<open>
  Otherwise the order is constructed in a free slot \<open>x\<close>, indexed, and linked at the tail of
  the level at \<open>px\<close>.
\<close>

lemma rest_order_eff:
  assumes I: "book_inv c s L" and free: "y < MaxOrders c" "\<not> live c s y"
    and new: "\<forall>x. live c s x \<longrightarrow> key s x \<noteq> i"
    and px: "0 \<le> px" "px \<le> MaxPrice c" and q: "0 < sint q"
    and nc: "sd = Buy \<longrightarrow> px < best_ask s" "sd = Sell \<longrightarrow> best_bid s < px"
  shows "\<exists>s' x. rest_order c s i sd px q t tm = Some (Ok, s') \<and>
           book_inv c s' (L(px := L px @ [x])) \<and> rest_post c s (Order_new i px q sd t tm) s' x"
proof -
  note C = invD(1) [OF I]
  note S = coreD(1) [OF C] and O = coreD(2) [OF C]
  note c = structD [OF S]
  note g = gapD [OF c(4)]
  have N: "0 < MaxOrders c" by (rule valid_N [OF c(1)])
  let ?M = "{y. live c s y}"
  let ?ord = "Order_new i px q sd t tm"
  obtain x n where x: "x < MaxOrders c" "\<not> live c s x"
    and al: "alloc (MaxOrders c) (pool s) =
       Some (Slot x, (pool s)\<lparr>free_head := n, alloc_cnt := alloc_cnt (pool s) + 1\<rparr>)"
    and po: "\<forall>ord. pool_ok c (construct s x n ord)"
    by (rule alloc_free [OF c(5) free]) blast
  define s1 where "s1 = construct s x n ?ord"
  note e1 = construct_eff [OF x(1), where s = s and n = n and ord = ?ord, folded s1_def]
  have P1: "pool_ok c s1" unfolding s1_def using po by blast
  have k1: "key s1 = (key s)(x := i)"
    by (simp add: key_def e1(3) fun_eq_iff payload_def Order_new_def)
  have lx1: "live c s1 x" by (simp add: e1(2))
  have T1: "table_ok c s1 ?M"
    by (rule table_ok_agree [OF c(6) e1(10)]) (use x(2) in \<open>auto simp: e1(2) k1\<close>)
  have Pr1: "probe_ok c s1"
  proof (rule probe_ok_agree [OF c(7) e1(10)])
    fix idx z assume "idx < MaxOrders c" "order_map s idx = Slot z"
    then have "z \<in> ?M" using c(6) unfolding table_ok_def by (metis ptr.distinct(3) ptr.inject(2))
    then have "z \<noteq> x" using x(2) by auto
    then show "key s1 z = key s z" by (simp add: k1)
  qed
  obtain h where h: "h < MaxOrders c" "order_map s1 h = Null"
    using table_hole [OF T1 x(1)] x(2) by auto
  have nk: "\<forall>z \<in> ?M. key s1 z \<noteq> key s1 x" using new x(2) by (auto simp: k1)
  obtain m' where m': "insert_map c s1 (Slot x) = Some (True, s1\<lparr>order_map := m'\<rparr>)"
    "table_ok c (s1\<lparr>order_map := m'\<rparr>) (insert x ?M)" "probe_ok c (s1\<lparr>order_map := m'\<rparr>)"
    using insert_map_total [OF N T1 Pr1 _ lx1 nk h] x(2) by blast
  define s2 where "s2 = s1\<lparr>order_map := m'\<rparr>"
  have e2: "dat s2 = dat s1" "nxt s2 = nxt s1" "prv s2 = prv s1" "cnt s2 = cnt s1"
    "tot s2 = tot s1" "best_bid s2 = best_bid s1" "best_ask s2 = best_ask s1"
    "total_orders s2 = total_orders s1" "free_head (pool s2) = free_head (pool s1)"
    "alloc_cnt (pool s2) = alloc_cnt (pool s1)"
    by (simp_all add: s2_def)
  have l2: "live c s2 = live c s1" by (rule live_dat [OF e2(1)])
  have p2: "pay s2 = pay s1" by (rule pay_dat [OF e2(1)])
  have xL: "x \<notin> set (L r)" for r using levels_ok_mem(3) [OF c(2), of x r] x(2) by blast
  have LO2: "levels_ok c s2 L"
  proof (rule levels_ok_agree [OF c(2)])
    fix r z assume "z \<in> set (L r)"
    then have z: "z \<noteq> x" "live c s z" using xL [of r] levels_ok_mem(3) [OF c(2)] by auto
    then show "nxt s2 (Slot z) = nxt s (Slot z) \<and> prv s2 (Slot z) = prv s (Slot z) \<and>
      live c s2 z \<and> pay s2 z = pay s z"
      by (simp add: e2 l2 p2 e1)
  qed (simp_all add: e2 e1)
  have lx2: "live c s2 x" by (simp add: l2 lx1)
  have pr2: "price (pay s2 x) = px" by (simp add: p2 e1(3) payload_def Order_new_def)
  obtain s5 where s5: "push_back c s2 px (Slot x) = Some s5"
    "levels_ok c s5 (L(px := L px @ [x]))" "rest s5 = rest s2"
    "cnt s5 = (cnt s2)(px := cnt s2 px + 1)" "tot s5 = (tot s2)(px := tot s2 px + qty (pay s2 x))"
    by (rule push_back_levels [OF LO2 px lx2 pr2 xL])
  note r5 = rest_eqD [OF s5(3)]
  define s6 where "s6 =
    (if sd = Buy
     then (if best_bid s5 < px
           then s5\<lparr>total_orders := total_orders s5 + 1, best_bid := px\<rparr>
           else s5\<lparr>total_orders := total_orders s5 + 1\<rparr>)
     else (if px < best_ask s5
           then s5\<lparr>total_orders := total_orders s5 + 1, best_ask := px\<rparr>
           else s5\<lparr>total_orders := total_orders s5 + 1\<rparr>))"
  have res: "rest_order c s i sd px q t tm = Some (Ok, s6)"
    unfolding rest_order_def s6_def
    by (simp add: al construct_def [symmetric] s1_def [symmetric] m' s2_def [symmetric] s5(1))
  have e6: "nxt s6 = nxt s5" "prv s6 = prv s5" "cnt s6 = cnt s5" "tot s6 = tot s5"
    "dat s6 = dat s5" "order_map s6 = order_map s5" "free_head (pool s6) = free_head (pool s5)"
    "alloc_cnt (pool s6) = alloc_cnt (pool s5)" "total_orders s6 = total_orders s5 + 1"
    by (simp_all add: s6_def)
  have b6: "best_bid s6 = (if sd = Buy then max (best_bid s) px else best_bid s)"
    "best_ask s6 = (if sd = Sell then min (best_ask s) px else best_ask s)"
    by (cases sd; simp add: s6_def r5 e2 e1 max_def min_def)+
  have d6: "dat s6 = dat s1" by (simp add: e6 r5 e2)
  have l6: "live c s6 z \<longleftrightarrow> live c s z \<or> z = x" for z
    using live_dat [OF d6, of c] by (simp add: e1(2))
  have p6: "pay s6 = (pay s)(x := payload ?ord)"
    using pay_dat [OF d6] by (simp add: e1(3))
  have M6: "{z. live c s6 z} = insert x ?M" by (auto simp: l6)
  have LO6: "levels_ok c s6 (L(px := L px @ [x]))"
    using s5(2) by (simp add: levels_ok_eq [OF e6(1-5)])
  have CV6: "covers c s6 (L(px := L px @ [x]))"
    unfolding covers_def
  proof (intro allI impI)
    fix z assume "live c s6 z"
    then consider "z = x" | "z \<noteq> x" "live c s z" by (auto simp: l6)
    then show "z \<in> set ((L(px := L px @ [x])) (price (pay s6 z)))"
    proof cases
      case 1 then show ?thesis by (simp add: p6 payload_def Order_new_def)
    next
      case 2
      then have "z \<in> set (L (price (pay s z)))" using c(3) by (simp add: covers_def)
      then show ?thesis using 2(1) by (auto simp: p6)
    qed
  qed
  have G6: "gap_ok c s6 (L(px := L px @ [x]))"
    unfolding gap_ok_def using g nc px by (cases sd) (auto simp: b6 max_def min_def)
  have P6: "pool_ok c s6"
    using P1 by (simp add: pool_ok_cong [OF d6] e6 r5 e2)
  have T6: "table_ok c s6 {z. live c s6 z}"
    unfolding M6 using m'(2) unfolding s2_def [symmetric]
    by (simp add: table_ok_cong [of s6 s2] e6 r5)
  have Pr6: "probe_ok c s6"
    using m'(3) unfolding s2_def [symmetric] by (simp add: probe_ok_cong [of s6 s2] e6 r5)
  have TO6: "total_orders s6 = of_nat (card {z. live c s6 z})"
    unfolding M6 using c(8) x(2) by (simp add: e6 r5 e2 e1)
  have S6: "struct_ok c s6 (L(px := L px @ [x]))"
    unfolding struct_ok_def using c(1) LO6 CV6 G6 P6 T6 Pr6 TO6 by simp
  have O6: "orders_ok c s6"
    unfolding orders_ok_def
  proof (intro allI impI)
    fix z assume "live c s6 z"
    then consider "z = x" | "z \<noteq> x" "live c s z" by (auto simp: l6)
    then show "order_ok s6 z"
    proof cases
      case 1
      then show ?thesis using q
        by (cases sd) (simp_all add: order_ok_def p6 payload_def Order_new_def b6)
    next
      case 2
      then show ?thesis using orders_okD [OF O 2(2)]
        by (cases sd) (auto simp: order_ok_def p6 b6)
    qed
  qed
  have tb: "tight_bid s6 (L(px := L px @ [x]))"
    using invD(2) [OF I] by (cases sd) (auto simp: tight_bid_def b6 max_def)
  have ta: "tight_ask c s6 (L(px := L px @ [x]))"
    using invD(3) [OF I] by (cases sd) (auto simp: tight_ask_def b6 min_def)
  have I6: "book_inv c s6 (L(px := L px @ [x]))"
    using S6 O6 tb ta by (simp add: book_inv_def core_def)
  have c6: "cnt s6 = (cnt s)(px := cnt s px + 1)" "tot s6 = (tot s)(px := tot s px + q)"
    by (simp_all add: e6 s5 e2 e1 p2 payload_def Order_new_def)
  have "rest_post c s ?ord s6 x"
    unfolding rest_post_def using x(2) l6 p6 b6 c6 by (simp add: Order_new_def)
  then show ?thesis
    using res I6 by (intro exI [of _ s6] exI [of _ x]) simp
qed

section \<open>The public operations keep the invariant\<close>

lemma crossing_eff:
  assumes I: "book_inv c s L" and px: "0 \<le> px" "px \<le> MaxPrice c"
  shows "\<exists>q1 s1 L1. crossing c s sd px q = Some (q1, s1) \<and>
    sweep_post c s (0 < sint q \<and> (if sd = Buy then best_ask s \<le> px else px \<le> best_bid s)) q q1 s1 L1 \<and>
    (0 < sint q1 \<longrightarrow> (sd = Buy \<longrightarrow> px < best_ask s1) \<and> (sd = Sell \<longrightarrow> best_bid s1 < px))"
proof (cases sd)
  case Buy
  show ?thesis
  proof (cases "best_ask s \<le> px")
    case True
    obtain q1 s1 L1 where m: "match_asks c s q px = Some (q1, s1)"
      "sweep_post c s (0 < sint q \<and> best_ask s \<le> px \<and> best_ask s \<le> MaxPrice c) q q1 s1 L1"
      "0 < sint q1 \<longrightarrow> px < best_ask s1 \<or> MaxPrice c < best_ask s1"
      using match_asks_eff [OF I, of q px] by blast
    have e: "(0 < sint q \<and> best_ask s \<le> px \<and> best_ask s \<le> MaxPrice c) =
      (0 < sint q \<and> (if sd = Buy then best_ask s \<le> px else px \<le> best_bid s))"
      using True px Buy by auto
    have "crossing c s sd px q = Some (q1, s1)"
      using True Buy m(1) by (simp add: crossing_def match_internal_def)
    then show ?thesis using m(2,3) px Buy unfolding e
      by (intro exI [of _ q1] exI [of _ s1] exI [of _ L1]) auto
  next
    case False
    have "crossing c s sd px q = Some (q, s)" using False Buy by (simp add: crossing_def)
    then show ?thesis using False Buy sweep_post_refl [OF I, of q]
      by (intro exI [of _ q] exI [of _ s] exI [of _ L]) auto
  qed
next
  case Sell
  show ?thesis
  proof (cases "px \<le> best_bid s")
    case True
    obtain q1 s1 L1 where m: "match_bids c s q px = Some (q1, s1)"
      "sweep_post c s (0 < sint q \<and> px \<le> best_bid s \<and> 0 \<le> best_bid s) q q1 s1 L1"
      "0 < sint q1 \<longrightarrow> best_bid s1 < px \<or> best_bid s1 < 0"
      using match_bids_eff [OF I, of q px] by blast
    have e: "(0 < sint q \<and> px \<le> best_bid s \<and> 0 \<le> best_bid s) =
      (0 < sint q \<and> (if sd = Buy then best_ask s \<le> px else px \<le> best_bid s))"
      using True px Sell by auto
    have "crossing c s sd px q = Some (q1, s1)"
      using True Sell m(1) by (simp add: crossing_def match_internal_def)
    then show ?thesis using m(2,3) px Sell unfolding e
      by (intro exI [of _ q1] exI [of _ s1] exI [of _ L1]) auto
  next
    case False
    have "crossing c s sd px q = Some (q, s)" using False Sell by (simp add: crossing_def)
    then show ?thesis using False Sell sweep_post_refl [OF I, of q]
      by (intro exI [of _ q] exI [of _ s] exI [of _ L]) auto
  qed
qed

text \<open>The index finds exactly the orders of the pool.\<close>

lemma inv_lookup_hit:
  assumes I: "book_inv c s L" and x: "live c s x" "key s x = i"
  shows "lookup c s i = Some (Slot x)"
proof -
  note c = structD [OF coreD(1) [OF invD(1) [OF I]]]
  show ?thesis by (rule lookup_hit [OF valid_N [OF c(1)] c(6,7) _ x(2)]) (simp add: x(1))
qed

lemma inv_lookup_miss:
  assumes I: "book_inv c s L" and x: "\<forall>x. live c s x \<longrightarrow> key s x \<noteq> i"
  shows "lookup c s i = Some Null"
proof -
  note c = structD [OF coreD(1) [OF invD(1) [OF I]]]
  show ?thesis by (rule lookup_miss [OF valid_N [OF c(1)] c(6)]) (use x in simp)
qed

lemma inv_key_unique:
  assumes I: "book_inv c s L" and x: "live c s x" "live c s y" "key s x = key s y"
  shows "x = y"
proof -
  note c = structD [OF coreD(1) [OF invD(1) [OF I]]]
  have "inj_on (key s) {x. live c s x}" using c(6) by (simp add: table_ok_def)
  then show ?thesis using x by (auto dest: inj_onD)
qed

subsection \<open>\<open>add\<close>\<close>

lemma add_dup:
  assumes I: "book_inv c s L" and x: "live c s x" "key s x = i"
  shows "add c s i sd px q t tm = Some (DuplicateId, s)"
  by (simp add: add_def inv_lookup_hit [OF I x])

lemma add_new:
  assumes I: "book_inv c s L" and new: "\<forall>x. live c s x \<longrightarrow> key s x \<noteq> i"
  shows "add c s i sd px q t tm =
    (if sint q \<le> 0 then Some (InvalidQty, s)
     else if px < 0 \<or> MaxPrice c < px then Some (InvalidPrice, s)
     else crossing c s sd px q \<bind> (\<lambda>r.
       if t = IOC \<or> t = Market then Some (Ok, snd r)
       else if sint (fst r) \<le> 0 then Some (Ok, snd r)
       else rest_order c (snd r) i sd px (fst r) t tm))"
  by (simp add: add_def inv_lookup_miss [OF I new])

lemma add_valid:
  assumes I: "book_inv c s L" and new: "\<forall>x. live c s x \<longrightarrow> key s x \<noteq> i"
    and q: "0 < sint q" and px: "0 \<le> px" "px \<le> MaxPrice c"
  shows "\<exists>q1 s1 L1. crossing c s sd px q = Some (q1, s1) \<and>
    sweep_post c s (if sd = Buy then best_ask s \<le> px else px \<le> best_bid s) q q1 s1 L1 \<and>
    (t = IOC \<or> t = Market \<or> sint q1 \<le> 0 \<longrightarrow> add c s i sd px q t tm = Some (Ok, s1)) \<and>
    (\<not> (t = IOC \<or> t = Market \<or> sint q1 \<le> 0) \<and> pool_full c s1 \<longrightarrow>
       s1 = s \<and> q1 = q \<and> add c s i sd px q t tm = Some (PoolExhausted, s)) \<and>
    (\<not> (t = IOC \<or> t = Market \<or> sint q1 \<le> 0) \<and> \<not> pool_full c s1 \<longrightarrow>
       (\<exists>s' x. add c s i sd px q t tm = Some (Ok, s') \<and> book_inv c s' (L1(px := L1 px @ [x])) \<and>
         rest_post c s1 (Order_new i px q1 sd t tm) s' x))"
proof -
  obtain q1 s1 L1 where cr: "crossing c s sd px q = Some (q1, s1)"
    and sp: "sweep_post c s (0 < sint q \<and> (if sd = Buy then best_ask s \<le> px else px \<le> best_bid s)) q q1 s1 L1"
    and ex: "0 < sint q1 \<longrightarrow> (sd = Buy \<longrightarrow> px < best_ask s1) \<and> (sd = Sell \<longrightarrow> best_bid s1 < px)"
    using crossing_eff [OF I px, of sd q] by blast
  have sp': "sweep_post c s (if sd = Buy then best_ask s \<le> px else px \<le> best_bid s) q q1 s1 L1"
    using sp q by simp
  note d = sweep_postD [OF sp']
  note c1 = structD [OF coreD(1) [OF invD(1) [OF d(1)]]]
  have a: "add c s i sd px q t tm =
    (if t = IOC \<or> t = Market then Some (Ok, s1)
     else if sint q1 \<le> 0 then Some (Ok, s1)
     else rest_order c s1 i sd px q1 t tm)"
    using q px by (simp add: add_new [OF I new] cr)
  have r1: "add c s i sd px q t tm = Some (Ok, s1)" if "t = IOC \<or> t = Market \<or> sint q1 \<le> 0"
    using that a by auto
  have r2: "s1 = s \<and> q1 = q \<and> add c s i sd px q t tm = Some (PoolExhausted, s)"
    if n: "\<not> (t = IOC \<or> t = Market \<or> sint q1 \<le> 0)" and f: "pool_full c s1"
  proof -
    have "\<not> (if sd = Buy then best_ask s \<le> px else px \<le> best_bid s)"
      using d(5) f n by (auto simp: pool_full_def)
    then have e: "q1 = q \<and> s1 = s" by (rule d(6))
    have "add c s i sd px q t tm = rest_order c s1 i sd px q1 t tm" using n a by auto
    then show ?thesis using e rest_order_full [OF c1(5) f, of i sd px q1 t tm] by simp
  qed
  have r3: "\<exists>s' x. add c s i sd px q t tm = Some (Ok, s') \<and> book_inv c s' (L1(px := L1 px @ [x])) \<and>
         rest_post c s1 (Order_new i px q1 sd t tm) s' x"
    if n: "\<not> (t = IOC \<or> t = Market \<or> sint q1 \<le> 0)" and f: "\<not> pool_full c s1"
  proof -
    have a': "add c s i sd px q t tm = rest_order c s1 i sd px q1 t tm" using n a by auto
    have q1: "0 < sint q1" using n by simp
    obtain y where y: "y < MaxOrders c" "\<not> live c s1 y" using f by (auto simp: pool_full_def)
    have new1: "\<forall>x. live c s1 x \<longrightarrow> key s1 x \<noteq> i" using d(4) new by metis
    have nc: "sd = Buy \<longrightarrow> px < best_ask s1" "sd = Sell \<longrightarrow> best_bid s1 < px"
      using ex q1 by simp_all
    show ?thesis
      unfolding a' by (rule rest_order_eff [OF d(1) y new1 px q1 nc])
  qed
  show ?thesis using cr sp' r1 r2 r3 by blast
qed

text \<open>Whatever it returns, \<open>add\<close> returns, and the invariant holds afterwards.\<close>

lemma add_inv:
  assumes I: "book_inv c s L"
  shows "\<exists>r s' L'. add c s i sd px q t tm = Some (r, s') \<and> book_inv c s' L'"
proof (cases "\<exists>x. live c s x \<and> key s x = i")
  case True
  then show ?thesis using add_dup [OF I] I by blast
next
  case False
  then have new: "\<forall>x. live c s x \<longrightarrow> key s x \<noteq> i" by blast
  show ?thesis
  proof (cases "0 < sint q \<and> 0 \<le> px \<and> px \<le> MaxPrice c")
    case False
    then have "add c s i sd px q t tm = Some (InvalidQty, s) \<or>
      add c s i sd px q t tm = Some (InvalidPrice, s)"
      by (auto simp: add_new [OF I new])
    then show ?thesis using I by blast
  next
    case True
    then have v: "0 < sint q" "0 \<le> px" "px \<le> MaxPrice c" by simp_all
    obtain q1 s1 L1 where cr: "crossing c s sd px q = Some (q1, s1)" and
      sp: "sweep_post c s (if sd = Buy then best_ask s \<le> px else px \<le> best_bid s) q q1 s1 L1"
      and r: "t = IOC \<or> t = Market \<or> sint q1 \<le> 0 \<longrightarrow> add c s i sd px q t tm = Some (Ok, s1)"
      "\<not> (t = IOC \<or> t = Market \<or> sint q1 \<le> 0) \<and> pool_full c s1 \<longrightarrow>
       s1 = s \<and> q1 = q \<and> add c s i sd px q t tm = Some (PoolExhausted, s)"
      "\<not> (t = IOC \<or> t = Market \<or> sint q1 \<le> 0) \<and> \<not> pool_full c s1 \<longrightarrow>
       (\<exists>s' x. add c s i sd px q t tm = Some (Ok, s') \<and> book_inv c s' (L1(px := L1 px @ [x])) \<and>
         rest_post c s1 (Order_new i px q1 sd t tm) s' x)"
      using add_valid [OF I new v, of sd t tm] by blast
    note d = sweep_postD(1) [OF sp]
    show ?thesis
    proof (cases "t = IOC \<or> t = Market \<or> sint q1 \<le> 0")
      case True
      show ?thesis using r(1) True d by blast
    next
      case n1: False
      show ?thesis
      proof (cases "pool_full c s1")
        case True
        show ?thesis using r(2) n1 True I by blast
      next
        case False
        show ?thesis using r(3) n1 False by blast
      qed
    qed
  qed
qed

subsection \<open>\<open>cancel\<close>\<close>

lemma cancel_miss:
  assumes I: "book_inv c s L" and new: "\<forall>x. live c s x \<longrightarrow> key s x \<noteq> i"
  shows "cancel c s i = Some (False, s)"
  by (simp add: cancel_def inv_lookup_miss [OF I new])

lemma cancel_hit:
  assumes I: "book_inv c s L" and x: "live c s x" "key s x = i"
  shows "\<exists>s'. cancel c s i = Some (True, s') \<and>
    book_inv c s' (L(price (pay s x) := remove1 x (L (price (pay s x))))) \<and>
    (\<forall>y. live c s' y \<longleftrightarrow> live c s y \<and> y \<noteq> x) \<and> (\<forall>y. y \<noteq> x \<longrightarrow> pay s' y = pay s y)"
proof -
  note C = invD(1) [OF I]
  note S = coreD(1) [OF C] and O = coreD(2) [OF C]
  note c = structD [OF S]
  note g = gapD [OF c(4)]
  let ?p = "price (pay s x)"
  let ?L = "L(?p := remove1 x (L ?p))"
  obtain s1 where s1: "remove_from_book c s (Slot x) = Some s1" "struct_ok c s1 ?L"
    "best_bid s1 = best_bid s" "best_ask s1 = best_ask s"
    "\<And>y. live c s1 y \<longleftrightarrow> live c s y \<and> y \<noteq> x"
    "\<And>y. y \<noteq> x \<Longrightarrow> pay s1 y = pay s y"
    using remove_from_book_eff [OF S x(1)] by metis
  have un: "cancel c s i =
    (if side (pay s x) = Buy
     then (if ?p = best_bid s then map_option (Pair True) (update_best_bid c s1) else Some (True, s1))
     else (if ?p = best_ask s then map_option (Pair True) (update_best_ask c s1) else Some (True, s1)))"
    by (simp add: cancel_def inv_lookup_hit [OF I x] deref_live [OF x(1)] s1(1,3,4)
        del: update_best_bid.simps update_best_ask.simps)
  have O1: "orders_ok c s1"
    unfolding orders_ok_def
  proof (intro allI impI)
    fix y assume "live c s1 y"
    then have y: "live c s y" "y \<noteq> x" by (simp_all add: s1(5))
    show "order_ok s1 y" using orders_okD [OF O y(1)] by (simp add: order_ok_def s1(3,4) s1(6) [OF y(2)])
  qed
  have C1: "core c s1 ?L" using s1(2) O1 by (simp add: core_def)
  note ox = orders_okD [OF O x(1), unfolded order_ok_def]
  have keep: "book_inv c s1 ?L" if "?p \<noteq> best_bid s" "?p \<noteq> best_ask s"
    using C1 invD(2,3) [OF I] that by (simp add: book_inv_def tight_bid_def tight_ask_def s1(3,4))
  show ?thesis
  proof (cases "side (pay s x)")
    case Buy
    then have pb: "?p \<le> best_bid s" "?p \<noteq> best_ask s" using ox g by simp_all
    have ta: "tight_ask c s1 ?L" using invD(3) [OF I] pb(2) by (simp add: tight_ask_def s1(4))
    show ?thesis
    proof (cases "?p = best_bid s")
      case False
      then have "cancel c s i = Some (True, s1)" using un Buy by simp
      then show ?thesis using keep [OF False pb(2)] s1(5,6) by (intro exI [of _ s1]) simp
    next
      case True
      obtain b where b: "update_best_bid c s1 = Some (s1\<lparr>best_bid := b\<rparr>)"
        "0 \<le> b \<longrightarrow> ?L b \<noteq> []" "core c (s1\<lparr>best_bid := b\<rparr>) ?L"
        using update_best_bid_eff [OF C1] by blast
      let ?s2 = "s1\<lparr>best_bid := b\<rparr>"
      have r: "cancel c s i = Some (True, ?s2)" using un Buy True b(1) by simp
      have I2: "book_inv c ?s2 ?L"
        using b(2,3) ta by (simp add: book_inv_def tight_bid_def tight_ask_def)
      have l2: "live c ?s2 y = live c s1 y" "pay ?s2 y = pay s1 y" for y
        by (simp_all add: live_def pay_def)
      show ?thesis using r I2 s1(5,6) by (intro exI [of _ ?s2]) (simp add: l2)
    qed
  next
    case Sell
    then have pb: "best_ask s \<le> ?p" "?p \<noteq> best_bid s" using ox g by simp_all
    have tb: "tight_bid s1 ?L" using invD(2) [OF I] pb(2) by (simp add: tight_bid_def s1(3))
    show ?thesis
    proof (cases "?p = best_ask s")
      case False
      then have "cancel c s i = Some (True, s1)" using un Sell by simp
      then show ?thesis using keep [OF pb(2) False] s1(5,6) by (intro exI [of _ s1]) simp
    next
      case True
      obtain b where b: "update_best_ask c s1 = Some (s1\<lparr>best_ask := b\<rparr>)"
        "b \<le> MaxPrice c \<longrightarrow> ?L b \<noteq> []" "core c (s1\<lparr>best_ask := b\<rparr>) ?L"
        using update_best_ask_eff [OF C1] by blast
      let ?s2 = "s1\<lparr>best_ask := b\<rparr>"
      have r: "cancel c s i = Some (True, ?s2)" using un Sell True b(1) by simp
      have I2: "book_inv c ?s2 ?L"
        using b(2,3) tb by (simp add: book_inv_def tight_bid_def tight_ask_def)
      have l2: "live c ?s2 y = live c s1 y" "pay ?s2 y = pay s1 y" for y
        by (simp_all add: live_def pay_def)
      show ?thesis using r I2 s1(5,6) by (intro exI [of _ ?s2]) (simp add: l2)
    qed
  qed
qed

lemma cancel_inv:
  assumes I: "book_inv c s L"
  shows "\<exists>b s' L'. cancel c s i = Some (b, s') \<and> book_inv c s' L'"
proof (cases "\<exists>x. live c s x \<and> key s x = i")
  case True
  then obtain x where "live c s x" "key s x = i" by blast
  from cancel_hit [OF I this] show ?thesis by blast
next
  case False
  then have "cancel c s i = Some (False, s)" by (intro cancel_miss [OF I]) blast
  then show ?thesis using I by blast
qed

subsection \<open>\<open>match\<close>\<close>

lemma match_inv:
  assumes I: "book_inv c s L"
  shows "\<exists>q' s' L'. match c s sd q = Some (q', s') \<and> book_inv c s' L'"
proof (cases sd)
  case Buy
  obtain q' s' L' where m: "match_asks c s q (MaxPrice c) = Some (q', s')"
    "sweep_post c s (0 < sint q \<and> best_ask s \<le> MaxPrice c \<and> best_ask s \<le> MaxPrice c) q q' s' L'"
    using match_asks_eff [OF I, of q "MaxPrice c"] by blast
  have "match c s sd q = Some (q', s')" using Buy m(1) by (simp add: match_def match_internal_def)
  then show ?thesis using sweep_postD(1) [OF m(2)] by blast
next
  case Sell
  obtain q' s' L' where m: "match_bids c s q 0 = Some (q', s')"
    "sweep_post c s (0 < sint q \<and> 0 \<le> best_bid s \<and> 0 \<le> best_bid s) q q' s' L'"
    using match_bids_eff [OF I, of q 0] by blast
  have "match c s sd q = Some (q', s')" using Sell m(1) by (simp add: match_def match_internal_def)
  then show ?thesis using sweep_postD(1) [OF m(2)] by blast
qed

subsection \<open>The empty book\<close>

lemma fpath_upt:
  "fpath (\<lambda>i. FreeNode (if Suc i < n then Some (Suc i) else None)) (if k < n then Some k else None) [k..<n]"
proof (induction "n - k" arbitrary: k)
  case 0
  then show ?case by simp
next
  case (Suc d)
  then have k: "k < n" "d = n - Suc k" by simp_all
  have "[k..<n] = k # [Suc k..<n]" using k(1) by (rule upt_conv_Cons)
  then show ?case using Suc.hyps(1) [OF k(2)] k(1) by simp
qed

lemma init_dat:
  "dat (OrderBook_init c) = (\<lambda>i. FreeNode (if Suc i < MaxOrders c then Some (Suc i) else None))"
  by (simp add: dat_def OrderBook_init_def MemPool_init_closed fun_eq_iff)

lemma init_live: "\<not> live c (OrderBook_init c) x"
  by (simp add: live_def init_dat)

lemma init_inv:
  assumes v: "valid_params c"
  shows "book_inv c (OrderBook_init c) (\<lambda>_. [])"
proof -
  let ?s = "OrderBook_init c"
  have N: "0 < MaxOrders c" by (rule valid_N [OF v])
  have e: "{x. live c ?s x} = {}" by (simp add: init_live)
  have LO: "levels_ok c ?s (\<lambda>_. [])"
    by (simp add: levels_ok_def chain_def chainf_def nxt_def prv_def cnt_def tot_def
        level_qty_def OrderBook_init_def PriceLevel_init_def)
  have CV: "covers c ?s (\<lambda>_. [])" by (simp add: covers_def init_live)
  have G: "gap_ok c ?s (\<lambda>_. [])"
    using v by (simp add: gap_ok_def OrderBook_init_def NO_BID_def valid_params_def)
  have fh: "free_head (pool ?s) = (if 0 < MaxOrders c then Some 0 else None)"
    by (simp add: OrderBook_init_def MemPool_init_closed)
  have "fpath (dat ?s) (free_head (pool ?s)) [0..<MaxOrders c]"
    unfolding init_dat fh by (rule fpath_upt)
  moreover have "set [0..<MaxOrders c] = {x. x < MaxOrders c \<and> \<not> live c ?s x}"
    by (auto simp: init_live)
  moreover have "alloc_cnt (pool ?s) = of_nat (card {x. live c ?s x})"
    unfolding e by (simp add: OrderBook_init_def MemPool_init_closed)
  ultimately have P: "pool_ok c ?s" unfolding pool_ok_def using distinct_upt by blast
  have T: "table_ok c ?s {x. live c ?s x}"
    unfolding e by (simp add: table_ok_def OrderBook_init_def)
  have Pr: "probe_ok c ?s" by (simp add: probe_ok_def entry_ok_def OrderBook_init_def)
  have TO: "total_orders ?s = of_nat (card {x. live c ?s x})"
    unfolding e by (simp add: OrderBook_init_def)
  have S: "struct_ok c ?s (\<lambda>_. [])"
    unfolding struct_ok_def using v LO CV G P T Pr TO by simp
  have O: "orders_ok c ?s" by (simp add: orders_ok_def init_live)
  have "tight_bid ?s (\<lambda>_. [])" "tight_ask c ?s (\<lambda>_. [])"
    by (simp_all add: tight_bid_def tight_ask_def OrderBook_init_def NO_BID_def)
  then show ?thesis using S O by (simp add: book_inv_def core_def)
qed

subsection \<open>Every reachable state\<close>

lemma reachable_inv: "reachable c s \<Longrightarrow> \<exists>L. book_inv c s L"
proof (induction rule: reachable.induct)
  case reach_init
  then show ?case using init_inv by blast
next
  case (reach_add s i sd px q t tm r s')
  then obtain L where "book_inv c s L" by blast
  from add_inv [OF this, of i sd px q t tm] reach_add.hyps(2) show ?case by auto
next
  case (reach_cancel s i b s')
  then obtain L where "book_inv c s L" by blast
  from cancel_inv [OF this, of i] reach_cancel.hyps(2) show ?case by auto
next
  case (reach_match s sd q q' s')
  then obtain L where "book_inv c s L" by blast
  from match_inv [OF this, of sd q] reach_match.hyps(2) show ?case by auto
qed

text \<open>In a reachable state every public operation returns.\<close>

lemma reachable_total:
  assumes "reachable c s"
  shows "\<exists>r s'. add c s i sd px q t tm = Some (r, s')" "\<exists>b s'. cancel c s i = Some (b, s')"
    "\<exists>q' s'. match c s sd q = Some (q', s')"
proof -
  obtain L where I: "book_inv c s L" using reachable_inv [OF assms] by blast
  show "\<exists>r s'. add c s i sd px q t tm = Some (r, s')" using add_inv [OF I, of i sd px q t tm] by blast
  show "\<exists>b s'. cancel c s i = Some (b, s')" using cancel_inv [OF I, of i] by blast
  show "\<exists>q' s'. match c s sd q = Some (q', s')" using match_inv [OF I, of sd q] by blast
qed

section \<open>Reachable states\<close>

lemma reachable_valid: "reachable c s \<Longrightarrow> valid_params c"
  using reachable_inv [of c s] structD(1) [OF coreD(1) [OF invD(1)]] by blast

lemma reachable_exec:
  assumes "reachable c s" "exec c x s = Some s'"
  shows "reachable c s'"
proof (cases x)
  case (Add i sd px q t tm)
  then obtain r where "add c s i sd px q t tm = Some (r, s')" using assms(2) by auto
  then show ?thesis by (rule reach_add [OF assms(1)])
next
  case (Cancel i)
  then obtain b where "cancel c s i = Some (b, s')" using assms(2) by auto
  then show ?thesis by (rule reach_cancel [OF assms(1)])
next
  case (Match sd q)
  then obtain q' where "match c s sd q = Some (q', s')" using assms(2) by auto
  then show ?thesis by (rule reach_match [OF assms(1)])
qed

lemma reachable_run: "reachable c s \<Longrightarrow> run c xs s = Some s' \<Longrightarrow> reachable c s'"
proof (induction xs arbitrary: s)
  case Nil
  then show ?case by simp
next
  case (Cons x xs)
  then obtain s1 where "exec c x s = Some s1" "run c xs s1 = Some s'"
    by (auto simp: bind_eq_Some_conv)
  then show ?case using Cons.IH reachable_exec [OF Cons.prems(1)] by blast
qed

lemma reachable_book_of:
  assumes "valid_params c"
  shows "reachable c (book_of c xs)"
proof (cases "run c xs (OrderBook_init c)")
  case None
  then show ?thesis using reach_init [OF assms] by (simp add: book_of_def)
next
  case (Some s)
  then show ?thesis using reachable_run [OF reach_init [OF assms] Some] by (simp add: book_of_def)
qed

lemma valid_test_params: "valid_params test_params"
  by (simp add: valid_params_def test_params_def)

lemma valid_small_params: "valid_params small_params"
  by (simp add: valid_params_def small_params_def)

lemma reachable_one_ask_book: "reachable test_params one_ask_book"
  by (rule reach_add [OF reach_init [OF valid_test_params] one_ask_book_eq])

text \<open>
  With the lists of the levels, the orders of the pool and what they hold, everything a caller
  observes is fixed.
\<close>

lemma view_determined:
  assumes I: "book_inv c s L" and I': "book_inv c s' L"
    and lv: "\<And>x. live c s' x \<longleftrightarrow> live c s x"
    and py: "\<And>x. live c s x \<Longrightarrow> pay s' x = pay s x"
    and p: "0 \<le> p" "p \<le> MaxPrice c"
  shows "view s' p = view s p"
proof -
  note S = coreD(1) [OF invD(1) [OF I]] and O = coreD(2) [OF invD(1) [OF I]]
  note S' = coreD(1) [OF invD(1) [OF I']] and O' = coreD(2) [OF invD(1) [OF I']]
  note c = structD [OF S] and c' = structD [OF S']
  note g = gapD [OF c(4)] and g' = gapD [OF c'(4)]
  have le: "{x. live c s' x} = {x. live c s x}" by (simp add: lv)
  have t: "total_orders s' = total_orders s" using c(8) c'(8) by (simp add: le)
  have a: "alloc_cnt (pool s') = alloc_cnt (pool s)"
    using c(5) c'(5) by (simp add: pool_ok_def le)
  have n: "cnt s' p = cnt s p" using levels_okD(3) [OF c(2) p] levels_okD(3) [OF c'(2) p] by simp
  have "level_qty s' (L p) = level_qty s (L p)"
    by (rule level_qty_agree) (use levels_ok_mem(3) [OF c(2)] py in blast)
  then have q: "tot s' p = tot s p"
    using levels_okD(4) [OF c(2) p] levels_okD(4) [OF c'(2) p] by simp
  have top: False if b: "best_bid u < best_bid w" and Iu: "book_inv c u L" and Iw: "book_inv c w L"
    and e: "\<And>x. live c u x \<Longrightarrow> side (pay w x) = side (pay u x)" "\<And>x. live c w x \<longleftrightarrow> live c u x"
    for u w
  proof -
    note cu = structD [OF coreD(1) [OF invD(1) [OF Iu]]]
    note cw = structD [OF coreD(1) [OF invD(1) [OF Iw]]]
    have "0 \<le> best_bid w" using gapD(1) [OF cu(4)] b by simp
    then have "L (best_bid w) \<noteq> []" using invD(2) [OF Iw] by (simp add: tight_bid_def)
    then obtain z where z: "z \<in> set (L (best_bid w))" by (cases "L (best_bid w)") auto
    note mu = levels_ok_mem [OF cu(2) z] and mw = levels_ok_mem [OF cw(2) z]
    note ou = orders_okD [OF coreD(2) [OF invD(1) [OF Iu]] mu(3), unfolded order_ok_def]
    note ow = orders_okD [OF coreD(2) [OF invD(1) [OF Iw]] mw(3), unfolded order_ok_def]
    show False
      using ou ow mu(4) mw(4) b e(1) [OF mu(3)] gapD(2) [OF cw(4)]
      by (cases "side (pay u z)") simp_all
  qed
  have bot: False if b: "best_ask u < best_ask w" and Iu: "book_inv c u L" and Iw: "book_inv c w L"
    and e: "\<And>x. live c u x \<Longrightarrow> side (pay w x) = side (pay u x)" "\<And>x. live c w x \<longleftrightarrow> live c u x"
    for u w
  proof -
    note cu = structD [OF coreD(1) [OF invD(1) [OF Iu]]]
    note cw = structD [OF coreD(1) [OF invD(1) [OF Iw]]]
    have "best_ask u \<le> MaxPrice c" using gapD(3) [OF cw(4)] b by simp
    then have "L (best_ask u) \<noteq> []" using invD(3) [OF Iu] by (simp add: tight_ask_def)
    then obtain z where z: "z \<in> set (L (best_ask u))" by (cases "L (best_ask u)") auto
    note mu = levels_ok_mem [OF cu(2) z] and mw = levels_ok_mem [OF cw(2) z]
    note ou = orders_okD [OF coreD(2) [OF invD(1) [OF Iu]] mu(3), unfolded order_ok_def]
    note ow = orders_okD [OF coreD(2) [OF invD(1) [OF Iw]] mw(3), unfolded order_ok_def]
    show False
      using ou ow mu(4) mw(4) b e(1) [OF mu(3)] gapD(2) [OF cu(4)]
      by (cases "side (pay u z)") simp_all
  qed
  have sd: "side (pay s' x) = side (pay s x)" if "live c s x" for x using py [OF that] by simp
  have sd': "side (pay s x) = side (pay s' x)" if "live c s' x" for x
    using py [of x] that lv by simp
  have "\<not> best_bid s < best_bid s'" "\<not> best_bid s' < best_bid s"
    using top [OF _ I I' sd lv] top [OF _ I' I sd' lv [symmetric]] by blast+
  then have bb: "best_bid s' = best_bid s" by simp
  have "\<not> best_ask s < best_ask s'" "\<not> best_ask s' < best_ask s"
    using bot [OF _ I I' sd lv] bot [OF _ I' I sd' lv [symmetric]] by blast+
  then have ba: "best_ask s' = best_ask s" by simp
  show ?thesis
    using t a n q bb ba
    by (simp add: view_def order_count_def pool_used_def used_def bid_def ask_def level_at_def
        cnt_def tot_def)
qed

section \<open>Price-time priority\<close>

lemma sweep_fill_nonpos: "q \<le> 0 \<Longrightarrow> sweep_fill q ls = (q, ls)"
  by (induction ls) (simp_all add: fifo_fill_stop)

lemma sweep_fill_empty: "sweep_fill q ([] # ls) = (case sweep_fill q ls of (r, ls') \<Rightarrow> (r, [] # ls'))"
  by simp

lemma sweep_prefix_up:
  fixes E E' :: "int \<Rightarrow> ('a \<times> int) list"
  assumes "(r, map E' [b..limit]) = sweep_fill q (map E [b..limit])"
    and "a \<le> b" and "\<forall>p. a \<le> p \<and> p < b \<longrightarrow> E p = [] \<and> E' p = []"
  shows "(r, map E' [a..limit]) = sweep_fill q (map E [a..limit])"
  using assms(2,3)
proof (induction "nat (b - a)" arbitrary: a)
  case 0
  then have "a = b" by simp
  then show ?case using assms(1) by simp
next
  case (Suc n)
  then have ab: "a < b" by simp
  show ?case
  proof (cases "a \<le> limit")
    case False
    then have "[a..limit] = []" "[b..limit] = []" using ab by simp_all
    then show ?thesis using assms(1) by simp
  next
    case True
    have ih: "(r, map E' [a + 1..limit]) = sweep_fill q (map E [a + 1..limit])"
      using Suc.hyps(2) Suc.prems ab by (intro Suc.hyps(1)) auto
    have e: "E a = []" "E' a = []" using Suc.prems(2) ab by simp_all
    show ?thesis
      unfolding upto_rec1 [OF True] using ih [symmetric] by (simp add: e)
  qed
qed

lemma sweep_prefix_down:
  fixes E E' :: "int \<Rightarrow> ('a \<times> int) list"
  assumes "(r, map E' (rev [limit..b])) = sweep_fill q (map E (rev [limit..b]))"
    and "b \<le> a" and "\<forall>p. b < p \<and> p \<le> a \<longrightarrow> E p = [] \<and> E' p = []"
  shows "(r, map E' (rev [limit..a])) = sweep_fill q (map E (rev [limit..a]))"
  using assms(2,3)
proof (induction "nat (a - b)" arbitrary: a)
  case 0
  then have "a = b" by simp
  then show ?case using assms(1) by simp
next
  case (Suc n)
  then have ab: "b < a" by simp
  show ?case
  proof (cases "limit \<le> a")
    case False
    then have "[limit..a] = []" "[limit..b] = []" using ab by simp_all
    then show ?thesis using assms(1) by simp
  next
    case True
    have ih: "(r, map E' (rev [limit..a - 1])) = sweep_fill q (map E (rev [limit..a - 1]))"
      using Suc.hyps(2) Suc.prems ab by (intro Suc.hyps(1)) auto
    have e: "E a = []" "E' a = []" using Suc.prems(2) ab by simp_all
    show ?thesis
      unfolding upto_rec2 [OF True] using ih [symmetric] by (simp add: e)
  qed
qed

text \<open>The orders of the other levels are as they were after \<open>match_level\<close>.\<close>

lemma level_post_other:
  assumes lp: "level_post c s L p q q' s' L'" and r: "r \<noteq> p"
  shows "L' r = L r" "entries s' (L' r) = entries s (L r)"
proof -
  note l = level_postD [OF lp]
  show e: "L' r = L r" by (rule l(4) [OF r])
  note LO = structD(2) [OF coreD(1) [OF l(1)]]
  have "entries s' (L' r) = entries s (L' r)"
  proof (rule entries_agree)
    fix y assume y: "y \<in> set (L' r)"
    have "y \<notin> set (L' p)" using levels_ok_disjoint [OF LO y _ r] by blast
    then have "y \<notin> set (take 1 (L' p))" by (meson in_set_takeD)
    then show "pay s' y = pay s y" using l(9) levels_ok_mem(3) [OF LO y] by blast
  qed
  then show "entries s' (L' r) = entries s (L r)" by (simp add: e)
qed

lemma entries_best_upd [simp]:
  "entries (s\<lparr>best_ask := b\<rparr>) xs = entries s xs" "entries (s\<lparr>best_bid := b\<rparr>) xs = entries s xs"
  by (simp_all add: entries_def key_def pay_def)

lemma match_asks_fifo:
  assumes lim: "limit \<le> MaxPrice c"
  shows "book_inv c s L \<Longrightarrow> \<exists>q' s' L'. match_asks c s q limit = Some (q', s') \<and> book_inv c s' L' \<and>
     (sint q', map (\<lambda>p. entries s' (L' p)) [best_ask s..limit]) =
       sweep_fill (sint q) (map (\<lambda>p. entries s (L p)) [best_ask s..limit]) \<and>
     (\<forall>p. p < best_ask s \<or> limit < p \<longrightarrow> L' p = L p \<and> entries s' (L' p) = entries s (L p))"
proof (induction "nat (MaxPrice c + 1 - best_ask s)" arbitrary: s L q rule: less_induct)
  case less
  note I = less.prems
  note C = invD(1) [OF I]
  note c = structD [OF coreD(1) [OF C]]
  note g = gapD [OF c(4)]
  let ?p = "best_ask s"
  show ?case
  proof (cases "0 < sint q \<and> ?p \<le> limit")
    case False
    then have m: "match_asks c s q limit = Some (q, s)" by (subst match_asks.simps) auto
    have "(sint q, map (\<lambda>p. entries s (L p)) [?p..limit]) =
       sweep_fill (sint q) (map (\<lambda>p. entries s (L p)) [?p..limit])"
    proof (cases "sint q \<le> 0")
      case True then show ?thesis by (simp add: sweep_fill_nonpos)
    next
      case f: False
      then have "[?p..limit] = []" using False by simp
      then show ?thesis by simp
    qed
    then show ?thesis using m I by (intro exI [of _ q] exI [of _ s] exI [of _ L] conjI) simp_all
  next
    case True
    then have p: "0 \<le> ?p" "?p \<le> MaxPrice c" using g lim by simp_all
    have en: "0 < sint q \<and> ?p \<le> limit \<and> ?p \<le> MaxPrice c" using True p by simp
    obtain q1 s1 L1 where m: "match_level c s ?p q = Some (q1, s1)"
      and lp: "level_post c s L ?p q q1 s1 L1"
      using match_level_eff [OF p C, of q] by blast
    note l = level_postD [OF lp]
    note c1 = structD [OF coreD(1) [OF l(1)]]
    have le: "level_empty (levels s1 ?p) \<longleftrightarrow> L1 ?p = []"
      by (rule level_empty_iff [OF c1(1,2) p])
    have bb: "L1 (best_bid s) = L (best_bid s)" using l(4) [of "best_bid s"] g by simp
    have tb: "tight_bid s1 L1" using invD(2) [OF I] by (simp add: tight_bid_def l(2) bb)
    have up: "[?p..limit] = ?p # [?p + 1..limit]" using True by (intro upto_rec1) simp
    have oth: "map (\<lambda>p. entries s1 (L1 p)) [?p + 1..limit] = map (\<lambda>p. entries s (L p)) [?p + 1..limit]"
      by (rule map_cong [OF refl]) (use level_post_other(2) [OF lp] in auto)
    show ?thesis
    proof (cases "L1 ?p = []")
      case False
      then have q1: "\<not> 0 < sint q1" using l(5) by blast
      have "match_asks c s1 q1 limit = Some (q1, s1)" using q1 by (subst match_asks.simps) simp
      then have r: "match_asks c s q limit = Some (q1, s1)"
        using en p False by (subst match_asks.simps) (simp add: level_ref_eq m le)
      have "tight_ask c s1 L1" using False by (simp add: tight_ask_def l(3))
      then have I1: "book_inv c s1 L1" using l(1) tb by (simp add: book_inv_def)
      have sw: "(sint q1, map (\<lambda>p. entries s1 (L1 p)) [?p..limit]) =
         sweep_fill (sint q) (map (\<lambda>p. entries s (L p)) [?p..limit])"
        unfolding up using q1 l(8) [symmetric] by (simp add: oth sweep_fill_nonpos)
      have ot: "\<forall>r. r < ?p \<or> limit < r \<longrightarrow> L1 r = L r \<and> entries s1 (L1 r) = entries s (L r)"
        using level_post_other [OF lp] True by auto
      show ?thesis
        by (intro exI [of _ q1] exI [of _ s1] exI [of _ L1] conjI r I1 sw ot)
    next
      case e: True
      obtain b where b: "update_best_ask c s1 = Some (s1\<lparr>best_ask := b\<rparr>)" "best_ask s1 \<le> b"
        "b \<le> MaxPrice c + 1" "\<forall>r. best_ask s1 \<le> r \<and> r < b \<longrightarrow> L1 r = []"
        "b \<le> MaxPrice c \<longrightarrow> L1 b \<noteq> []" "core c (s1\<lparr>best_ask := b\<rparr>) L1"
        using update_best_ask_eff [OF l(1)] by blast
      let ?s2 = "s1\<lparr>best_ask := b\<rparr>"
      have bp: "?p < b" using b(2,5) e p by (cases "b = ?p") (simp_all add: l(3))
      have I2: "book_inv c ?s2 L1"
        using b(5,6) tb by (simp add: book_inv_def tight_bid_def tight_ask_def)
      have r: "match_asks c s q limit = match_asks c ?s2 q1 limit"
        using en p e by (subst match_asks.simps)
          (simp add: level_ref_eq m le b(1) del: update_best_ask.simps update_best_bid.simps)
      have "nat (MaxPrice c + 1 - best_ask ?s2) < nat (MaxPrice c + 1 - ?p)" using bp p by simp
      from less.hyps [OF this I2, of q1]
      obtain q' s' L' where ih: "match_asks c ?s2 q1 limit = Some (q', s')" "book_inv c s' L'"
        "(sint q', map (\<lambda>p. entries s' (L' p)) [b..limit]) =
           sweep_fill (sint q1) (map (\<lambda>p. entries s1 (L1 p)) [b..limit])"
        "\<forall>r. r < b \<or> limit < r \<longrightarrow> L' r = L1 r \<and> entries s' (L' r) = entries s1 (L1 r)"
        by auto
      have em: "\<forall>r. ?p + 1 \<le> r \<and> r < b \<longrightarrow> entries s1 (L1 r) = [] \<and> entries s' (L' r) = []"
        using b(4) ih(4) by (simp add: l(3))
      have ext: "(sint q', map (\<lambda>p. entries s' (L' p)) [?p + 1..limit]) =
           sweep_fill (sint q1) (map (\<lambda>p. entries s1 (L1 p)) [?p + 1..limit])"
        by (rule sweep_prefix_up [OF ih(3) _ em]) (use bp in simp)
      have hd: "entries s' (L' ?p) = []" using ih(4) bp e by simp
      have f1: "fifo_fill (sint q) (entries s (L ?p)) = (sint q1, [])"
        using l(8) e by simp
      have sw: "(sint q', map (\<lambda>p. entries s' (L' p)) [?p..limit]) =
         sweep_fill (sint q) (map (\<lambda>p. entries s (L p)) [?p..limit])"
        unfolding up using ext [symmetric] by (simp add: f1 hd oth)
      have ot: "\<forall>r. r < ?p \<or> limit < r \<longrightarrow> L' r = L r \<and> entries s' (L' r) = entries s (L r)"
      proof (intro allI impI)
        fix r assume a: "r < ?p \<or> limit < r"
        then have n: "r \<noteq> ?p" "r < b \<or> limit < r" using True bp by auto
        have a1: "L' r = L1 r" "entries s' (L' r) = entries s1 (L1 r)" using ih(4) n(2) by blast+
        note o = level_post_other [OF lp n(1)]
        have "L' r = L r" by (rule trans [OF a1(1) o(1)])
        moreover have "entries s' (L' r) = entries s (L r)" by (rule trans [OF a1(2) o(2)])
        ultimately show "L' r = L r \<and> entries s' (L' r) = entries s (L r)" by (rule conjI)
      qed
      have r': "match_asks c s q limit = Some (q', s')" using r ih(1) by simp
      show ?thesis
        by (intro exI [of _ q'] exI [of _ s'] exI [of _ L'] conjI r' ih(2) sw ot)
    qed
  qed
qed

lemma match_bids_fifo:
  assumes lim: "0 \<le> limit"
  shows "book_inv c s L \<Longrightarrow> \<exists>q' s' L'. match_bids c s q limit = Some (q', s') \<and> book_inv c s' L' \<and>
     (sint q', map (\<lambda>p. entries s' (L' p)) (rev [limit..best_bid s])) =
       sweep_fill (sint q) (map (\<lambda>p. entries s (L p)) (rev [limit..best_bid s])) \<and>
     (\<forall>p. best_bid s < p \<or> p < limit \<longrightarrow> L' p = L p \<and> entries s' (L' p) = entries s (L p))"
proof (induction "nat (best_bid s + 1)" arbitrary: s L q rule: less_induct)
  case less
  note I = less.prems
  note C = invD(1) [OF I]
  note c = structD [OF coreD(1) [OF C]]
  note g = gapD [OF c(4)]
  let ?p = "best_bid s"
  show ?case
  proof (cases "0 < sint q \<and> limit \<le> ?p")
    case False
    then have m: "match_bids c s q limit = Some (q, s)" by (subst match_bids.simps) auto
    have "(sint q, map (\<lambda>p. entries s (L p)) (rev [limit..?p])) =
       sweep_fill (sint q) (map (\<lambda>p. entries s (L p)) (rev [limit..?p]))"
    proof (cases "sint q \<le> 0")
      case True then show ?thesis by (simp add: sweep_fill_nonpos)
    next
      case f: False
      then have "[limit..?p] = []" using False by simp
      then show ?thesis by simp
    qed
    then show ?thesis using m I by (intro exI [of _ q] exI [of _ s] exI [of _ L] conjI) simp_all
  next
    case True
    then have p: "0 \<le> ?p" "?p \<le> MaxPrice c" using g lim by simp_all
    have en: "0 < sint q \<and> limit \<le> ?p \<and> 0 \<le> ?p" using True p by simp
    obtain q1 s1 L1 where m: "match_level c s ?p q = Some (q1, s1)"
      and lp: "level_post c s L ?p q q1 s1 L1"
      using match_level_eff [OF p C, of q] by blast
    note l = level_postD [OF lp]
    note c1 = structD [OF coreD(1) [OF l(1)]]
    have le: "level_empty (levels s1 ?p) \<longleftrightarrow> L1 ?p = []"
      by (rule level_empty_iff [OF c1(1,2) p])
    have bb: "L1 (best_ask s) = L (best_ask s)" using l(4) [of "best_ask s"] g by simp
    have tb: "tight_ask c s1 L1" using invD(3) [OF I] by (simp add: tight_ask_def l(3) bb)
    have "[limit..?p] = [limit..?p - 1] @ [?p]" using True by (intro upto_rec2) simp
    then have up: "rev [limit..?p] = ?p # rev [limit..?p - 1]" by simp
    have oth: "map (\<lambda>p. entries s1 (L1 p)) (rev [limit..?p - 1]) =
      map (\<lambda>p. entries s (L p)) (rev [limit..?p - 1])"
      by (rule map_cong [OF refl]) (use level_post_other(2) [OF lp] in auto)
    show ?thesis
    proof (cases "L1 ?p = []")
      case False
      then have q1: "\<not> 0 < sint q1" using l(5) by blast
      have "match_bids c s1 q1 limit = Some (q1, s1)" using q1 by (subst match_bids.simps) simp
      then have r: "match_bids c s q limit = Some (q1, s1)"
        using en p False by (subst match_bids.simps) (simp add: level_ref_eq m le)
      have "tight_bid s1 L1" using False by (simp add: tight_bid_def l(2))
      then have I1: "book_inv c s1 L1" using l(1) tb by (simp add: book_inv_def)
      have sw: "(sint q1, map (\<lambda>p. entries s1 (L1 p)) (rev [limit..?p])) =
         sweep_fill (sint q) (map (\<lambda>p. entries s (L p)) (rev [limit..?p]))"
        unfolding up using q1 l(8) [symmetric] by (simp add: oth sweep_fill_nonpos)
      have ot: "\<forall>r. ?p < r \<or> r < limit \<longrightarrow> L1 r = L r \<and> entries s1 (L1 r) = entries s (L r)"
        using level_post_other [OF lp] True by auto
      show ?thesis
        by (intro exI [of _ q1] exI [of _ s1] exI [of _ L1] conjI r I1 sw ot)
    next
      case e: True
      obtain b where b: "update_best_bid c s1 = Some (s1\<lparr>best_bid := b\<rparr>)" "b \<le> best_bid s1"
        "- 1 \<le> b" "\<forall>r. b < r \<and> r \<le> best_bid s1 \<longrightarrow> L1 r = []"
        "0 \<le> b \<longrightarrow> L1 b \<noteq> []" "core c (s1\<lparr>best_bid := b\<rparr>) L1"
        using update_best_bid_eff [OF l(1)] by blast
      let ?s2 = "s1\<lparr>best_bid := b\<rparr>"
      have bp: "b < ?p" using b(2,5) e p by (cases "b = ?p") (simp_all add: l(2))
      have I2: "book_inv c ?s2 L1"
        using b(5,6) tb by (simp add: book_inv_def tight_bid_def tight_ask_def)
      have r: "match_bids c s q limit = match_bids c ?s2 q1 limit"
        using en p e by (subst match_bids.simps)
          (simp add: level_ref_eq m le b(1) del: update_best_ask.simps update_best_bid.simps)
      have "nat (best_bid ?s2 + 1) < nat (?p + 1)" using bp b(3) by simp
      from less.hyps [OF this I2, of q1]
      obtain q' s' L' where ih: "match_bids c ?s2 q1 limit = Some (q', s')" "book_inv c s' L'"
        "(sint q', map (\<lambda>p. entries s' (L' p)) (rev [limit..b])) =
           sweep_fill (sint q1) (map (\<lambda>p. entries s1 (L1 p)) (rev [limit..b]))"
        "\<forall>r. b < r \<or> r < limit \<longrightarrow> L' r = L1 r \<and> entries s' (L' r) = entries s1 (L1 r)"
        by auto
      have em: "\<forall>r. b < r \<and> r \<le> ?p - 1 \<longrightarrow> entries s1 (L1 r) = [] \<and> entries s' (L' r) = []"
        using b(4) ih(4) by (simp add: l(2))
      have ext: "(sint q', map (\<lambda>p. entries s' (L' p)) (rev [limit..?p - 1])) =
           sweep_fill (sint q1) (map (\<lambda>p. entries s1 (L1 p)) (rev [limit..?p - 1]))"
        by (rule sweep_prefix_down [OF ih(3) _ em]) (use bp in simp)
      have hd: "entries s' (L' ?p) = []" using ih(4) bp e by simp
      have f1: "fifo_fill (sint q) (entries s (L ?p)) = (sint q1, [])"
        using l(8) e by simp
      have sw: "(sint q', map (\<lambda>p. entries s' (L' p)) (rev [limit..?p])) =
         sweep_fill (sint q) (map (\<lambda>p. entries s (L p)) (rev [limit..?p]))"
        unfolding up using ext [symmetric] by (simp add: f1 hd oth)
      have ot: "\<forall>r. ?p < r \<or> r < limit \<longrightarrow> L' r = L r \<and> entries s' (L' r) = entries s (L r)"
      proof (intro allI impI)
        fix r assume a: "?p < r \<or> r < limit"
        then have n: "r \<noteq> ?p" "b < r \<or> r < limit" using True bp by auto
        have a1: "L' r = L1 r" "entries s' (L' r) = entries s1 (L1 r)" using ih(4) n(2) by blast+
        note o = level_post_other [OF lp n(1)]
        have "L' r = L r" by (rule trans [OF a1(1) o(1)])
        moreover have "entries s' (L' r) = entries s (L r)" by (rule trans [OF a1(2) o(2)])
        ultimately show "L' r = L r \<and> entries s' (L' r) = entries s (L r)" by (rule conjI)
      qed
      have r': "match_bids c s q limit = Some (q', s')" using r ih(1) by simp
      show ?thesis
        by (intro exI [of _ q'] exI [of _ s'] exI [of _ L'] conjI r' ih(2) sw ot)
    qed
  qed
qed

text \<open>Reading a level from the state gives the list of the invariant.\<close>

lemma walk_path: "path f a xs b \<Longrightarrow> walk f (length xs) a = xs"
  by (induction xs arbitrary: a) auto

lemma level_orders_eq:
  assumes v: "valid_params c" and LO: "levels_ok c s L" and p: "0 \<le> p" "p \<le> MaxPrice c"
  shows "level_orders s p = L p"
proof -
  note l = levels_okD [OF LO p]
  have "length (L p) < 2 ^ 64"
    using length_le_MaxOrders [OF LO, of p] v by (simp add: valid_params_def)
  then have "unat (cnt s p) = length (L p)" using l(3) by (simp add: unat_of_nat)
  moreover have "path (nxt s) (nxt s (Sentinel p)) (L p) (Sentinel p)"
    using l(1) by (simp add: chainf_def)
  ultimately show ?thesis by (simp add: level_orders_def walk_path)
qed

lemma level_book_eq:
  assumes I: "book_inv c s L" and p: "0 \<le> p" "p \<le> MaxPrice c"
  shows "level_book s p = entries s (L p)"
proof -
  note c = structD [OF coreD(1) [OF invD(1) [OF I]]]
  show ?thesis by (simp add: level_book_def level_orders_eq [OF c(1,2) p])
qed

text \<open>
  \<open>match_internal\<close> on a state with the invariant, with a limit that is a price: it returns,
  and what it leaves of the quantity and of the levels of the opposite side is what
  \<open>sweep_fill\<close> says; the other levels are as they were.
\<close>

lemma match_internal_fifo:
  assumes I: "book_inv c s L" and lim: "0 \<le> limit" "limit \<le> MaxPrice c"
  shows "\<exists>q' s'. match_internal c s sd q limit = Some (q', s') \<and>
     (sint q', map (level_book s') (opposite s sd limit)) =
       sweep_fill (sint q) (map (level_book s) (opposite s sd limit)) \<and>
     (\<forall>p. 0 \<le> p \<and> p \<le> MaxPrice c \<and> p \<notin> set (opposite s sd limit) \<longrightarrow>
        level_book s' p = level_book s p)"
proof -
  note g = gapD [OF structD(4) [OF coreD(1) [OF invD(1) [OF I]]]]
  have rng: "0 \<le> p \<and> p \<le> MaxPrice c" if "p \<in> set (opposite s sd limit)" for p
    using that lim g by (cases sd) (auto simp: opposite_def)
  obtain q' s' L' where m: "match_internal c s sd q limit = Some (q', s')" "book_inv c s' L'"
    and sw: "(sint q', map (\<lambda>p. entries s' (L' p)) (opposite s sd limit)) =
       sweep_fill (sint q) (map (\<lambda>p. entries s (L p)) (opposite s sd limit))"
    and ot: "\<forall>p. p \<notin> set (opposite s sd limit) \<longrightarrow> L' p = L p \<and> entries s' (L' p) = entries s (L p)"
  proof (cases sd)
    case Buy
    obtain q' s' L' where a: "match_asks c s q limit = Some (q', s')" "book_inv c s' L'"
      "(sint q', map (\<lambda>p. entries s' (L' p)) [best_ask s..limit]) =
       sweep_fill (sint q) (map (\<lambda>p. entries s (L p)) [best_ask s..limit])"
      "\<forall>p. p < best_ask s \<or> limit < p \<longrightarrow> L' p = L p \<and> entries s' (L' p) = entries s (L p)"
      using match_asks_fifo [OF lim(2) I, of q] by blast
    have m1: "match_internal c s sd q limit = Some (q', s')"
      using Buy a(1) by (simp add: match_internal_def)
    have op: "opposite s sd limit = [best_ask s..limit]" using Buy by (simp add: opposite_def)
    have o1: "\<forall>p. p \<notin> set (opposite s sd limit) \<longrightarrow>
      L' p = L p \<and> entries s' (L' p) = entries s (L p)"
    proof (intro allI impI)
      fix p assume "p \<notin> set (opposite s sd limit)"
      then have "p < best_ask s \<or> limit < p" unfolding op by auto
      then show "L' p = L p \<and> entries s' (L' p) = entries s (L p)" using a(4) by blast
    qed
    show ?thesis by (rule that [OF m1 a(2) _ o1]) (unfold op, rule a(3))
  next
    case Sell
    obtain q' s' L' where a: "match_bids c s q limit = Some (q', s')" "book_inv c s' L'"
      "(sint q', map (\<lambda>p. entries s' (L' p)) (rev [limit..best_bid s])) =
       sweep_fill (sint q) (map (\<lambda>p. entries s (L p)) (rev [limit..best_bid s]))"
      "\<forall>p. best_bid s < p \<or> p < limit \<longrightarrow> L' p = L p \<and> entries s' (L' p) = entries s (L p)"
      using match_bids_fifo [OF lim(1) I, of q] by blast
    have m1: "match_internal c s sd q limit = Some (q', s')"
      using Sell a(1) by (simp add: match_internal_def)
    have op: "opposite s sd limit = rev [limit..best_bid s]" using Sell by (simp add: opposite_def)
    have o1: "\<forall>p. p \<notin> set (opposite s sd limit) \<longrightarrow>
      L' p = L p \<and> entries s' (L' p) = entries s (L p)"
    proof (intro allI impI)
      fix p assume "p \<notin> set (opposite s sd limit)"
      then have "best_bid s < p \<or> p < limit" unfolding op by auto
      then show "L' p = L p \<and> entries s' (L' p) = entries s (L p)" using a(4) by blast
    qed
    show ?thesis by (rule that [OF m1 a(2) _ o1]) (unfold op, rule a(3))
  qed
  have e: "map (level_book s) (opposite s sd limit) = map (\<lambda>p. entries s (L p)) (opposite s sd limit)"
    by (rule map_cong [OF refl]) (use rng level_book_eq [OF I] in blast)
  have e': "map (level_book s') (opposite s sd limit) = map (\<lambda>p. entries s' (L' p)) (opposite s sd limit)"
    by (rule map_cong [OF refl]) (use rng level_book_eq [OF m(2)] in blast)
  have u: "\<forall>p. 0 \<le> p \<and> p \<le> MaxPrice c \<and> p \<notin> set (opposite s sd limit) \<longrightarrow>
        level_book s' p = level_book s p"
  proof (intro allI impI)
    fix p assume a: "0 \<le> p \<and> p \<le> MaxPrice c \<and> p \<notin> set (opposite s sd limit)"
    then have "entries s' (L' p) = entries s (L p)" using ot by blast
    then show "level_book s' p = level_book s p"
      using a level_book_eq [OF I, of p] level_book_eq [OF m(2), of p] by simp
  qed
  have sw': "(sint q', map (level_book s') (opposite s sd limit)) =
       sweep_fill (sint q) (map (level_book s) (opposite s sd limit))"
    unfolding e e' by (rule sw)
  show ?thesis by (intro exI [of _ q'] exI [of _ s'] conjI m(1) sw' u)
qed

lemma crossing_match_internal: "crossing c s sd px q = match_internal c s sd q px"
  by (cases sd) (simp_all add: crossing_def match_internal_def match_asks.simps match_bids.simps)

lemma walk_numeral:
  "walk f (numeral k) a = (case a of Slot x \<Rightarrow> x # walk f (pred_numeral k) (f a) | _ \<Rightarrow> [])"
  by (simp add: numeral_eq_Suc)

lemmas level_eval = level_book_def level_orders_def entries_def cnt_def nxt_def key_def pay_def
  dat_def ord_at_def payload_def walk_numeral

lemma reachable_new:
  assumes r: "reachable c s" and l: "lookup c s i = Some Null"
  shows "\<forall>x. live c s x \<longrightarrow> key s x \<noteq> i"
proof (intro allI impI notI)
  fix x assume x: "live c s x" "key s x = i"
  obtain L where I: "book_inv c s L" using reachable_inv [OF r] by blast
  show False using inv_lookup_hit [OF I x] l by simp
qed

lemma add_Ok_valid:
  assumes I: "book_inv c s L" and a: "add c s i sd px q t tm = Some (Ok, s')"
  shows "\<forall>x. live c s x \<longrightarrow> key s x \<noteq> i" "0 < sint q" "0 \<le> px" "px \<le> MaxPrice c"
proof -
  show new: "\<forall>x. live c s x \<longrightarrow> key s x \<noteq> i"
    using add_dup [OF I, of _ i sd px q t tm] a by auto
  show "0 < sint q" "0 \<le> px" "px \<le> MaxPrice c"
    using a by (auto simp: add_new [OF I new] split: if_splits)
qed

lemma test_params_simps: "MaxPrice test_params = 10000" "MaxOrders test_params = 1000"
  by (simp_all add: test_params_def)

lemma one_ask_book_facts:
  "best_ask one_ask_book = 100" "best_bid one_ask_book = - 1"
  "lookup test_params one_ask_book 2 = Some Null"
  "lookup test_params one_ask_book 1 = Some (Slot 0)"
  by (simp_all add: one_ask_book_def book_eval test_params_def)

lemma entries_append: "entries s (xs @ ys) = entries s xs @ entries s ys"
  by (simp add: entries_def)

text \<open>An order that comes to rest is the new tail of its level.\<close>

lemma add_rest_tail:
  assumes r: "reachable c s" and ad: "add c s i sd px q Limit tm = Some (Ok, s')"
    and cr: "crossing c s sd px q = Some (q1, s1)" and q1: "0 < sint q1"
  shows "level_book s' px = level_book s1 px @ [(i, sint q1)]"
proof -
  obtain L where I: "book_inv c s L" using reachable_inv [OF r] by blast
  note v = add_Ok_valid [OF I ad]
  obtain q1' s1' L1 where cr': "crossing c s sd px q = Some (q1', s1')"
    and sp: "sweep_post c s (if sd = Buy then best_ask s \<le> px else px \<le> best_bid s) q q1' s1' L1"
    and e2: "\<not> (Limit = IOC \<or> Limit = Market \<or> sint q1' \<le> 0) \<and> pool_full c s1' \<longrightarrow>
         s1' = s \<and> q1' = q \<and> add c s i sd px q Limit tm = Some (PoolExhausted, s)"
    and e3: "\<not> (Limit = IOC \<or> Limit = Market \<or> sint q1' \<le> 0) \<and> \<not> pool_full c s1' \<longrightarrow>
         (\<exists>s' x. add c s i sd px q Limit tm = Some (Ok, s') \<and> book_inv c s' (L1(px := L1 px @ [x])) \<and>
           rest_post c s1' (Order_new i px q1' sd Limit tm) s' x)"
    using add_valid [OF I v, of sd Limit tm] by blast
  have eq: "q1' = q1" "s1' = s1" using cr cr' by simp_all
  have I1: "book_inv c s1 L1" using sweep_postD(1) [OF sp] unfolding eq .
  have n: "\<not> (Limit = IOC \<or> Limit = Market \<or> sint q1 \<le> 0)" using q1 by simp
  have "\<not> pool_full c s1" using e2 n ad unfolding eq by auto
  then obtain s'' x where s'': "add c s i sd px q Limit tm = Some (Ok, s'')"
    "book_inv c s'' (L1(px := L1 px @ [x]))" "rest_post c s1 (Order_new i px q1 sd Limit tm) s'' x"
    using e3 n unfolding eq by blast
  have se: "s'' = s'" using s''(1) ad by simp
  note I' = s''(2) [unfolded se]
  note rp = s''(3) [unfolded rest_post_def se]
  have nx: "\<not> live c s1 x" using rp by simp
  have p': "pay s' = (pay s1)(x := payload (Order_new i px q1 sd Limit tm))" using rp by simp
  have xn: "x \<notin> set (L1 px)"
    using levels_ok_mem(3) [OF structD(2) [OF coreD(1) [OF invD(1) [OF I1]]], of x px] nx by blast
  have e: "entries s' (L1 px) = entries s1 (L1 px)"
    by (rule entries_agree) (use xn in \<open>auto simp: p'\<close>)
  have b': "level_book s' px = entries s' (L1 px @ [x])"
    using level_book_eq [OF I' v(3,4)] by simp
  have b1: "level_book s1 px = entries s1 (L1 px)" by (rule level_book_eq [OF I1 v(3,4)])
  show ?thesis
    unfolding b' b1 entries_append e
    by (simp add: key_def p' payload_def Order_new_def)
qed

section \<open>The claims\<close>

text \<open>
  C3.  Price-time priority.  In every reachable state \<open>match\<close> returns, for either aggressor
  side, and so does the crossing of \<open>add\<close> with a limit price; what is left of the quantity and
  of the levels of the opposite side, read from the state as lists of order id and remaining
  quantity, head first and best price first, is what \<open>sweep_fill\<close> says: in each level the
  orders are consumed from the head in arrival order, an order that is filled is gone, an
  order that is filled in part stays at the head with its quantity reduced, and the orders
  behind it are as they were.  Every other level is as it was.  The list of a level is in
  arrival order: an order that comes to rest is the new tail of its level.  Concretely: three
  sell orders
  are added at price 100 to the empty test book, in the order 1, 2, 3, and a buy of 15 is
  matched; nothing is left unfilled, order 1 is gone, order 2 is the head of the level with 5
  left, order 3 follows it with 10, and the level holds two orders and 15 in total.
\<close>

theorem C3_price_time_priority:
  "(reachable c s \<longrightarrow>
      (\<exists>q' s'. match c s sd q = Some (q', s') \<and>
         (sint q', map (level_book s') (opposite s sd (if sd = Buy then MaxPrice c else 0))) =
           sweep_fill (sint q) (map (level_book s) (opposite s sd (if sd = Buy then MaxPrice c else 0))) \<and>
         (\<forall>p. 0 \<le> p \<and> p \<le> MaxPrice c \<and>
              p \<notin> set (opposite s sd (if sd = Buy then MaxPrice c else 0)) \<longrightarrow>
              level_book s' p = level_book s p))) \<and>
   (reachable c s \<and> 0 \<le> px \<and> px \<le> MaxPrice c \<longrightarrow>
      (\<exists>q' s'. crossing c s sd px q = Some (q', s') \<and>
         (sint q', map (level_book s') (opposite s sd px)) =
           sweep_fill (sint q) (map (level_book s) (opposite s sd px)) \<and>
         (\<forall>p. 0 \<le> p \<and> p \<le> MaxPrice c \<and> p \<notin> set (opposite s sd px) \<longrightarrow>
              level_book s' p = level_book s p))) \<and>
   (reachable c s \<and> add c s i sd px q Limit tm = Some (Ok, s2) \<and>
    crossing c s sd px q = Some (q1, s1) \<and> 0 < sint q1 \<longrightarrow>
      level_book s2 px = level_book s1 px @ [(i, sint q1)]) \<and>
   do {
     r1 \<leftarrow> add test_params (OrderBook_init test_params) 1 Sell 100 10 Limit 0;
     r2 \<leftarrow> add test_params (snd r1) 2 Sell 100 10 Limit 0;
     r3 \<leftarrow> add test_params (snd r2) 3 Sell 100 10 Limit 0;
     m \<leftarrow> match test_params (snd r3) Buy 15;
     o1 \<leftarrow> get_order test_params (snd m) 1;
     o2 \<leftarrow> get_order test_params (snd m) 2;
     o3 \<leftarrow> get_order test_params (snd m) 3;
     ord2 \<leftarrow> deref test_params (snd m) o2;
     ord3 \<leftarrow> deref test_params (snd m) o3;
     Some (fst r1, fst r2, fst r3, fst m, o1, qty ord2, qty ord3,
           front (level_at (snd m) 100) = o2, next_ptr ord2 = o3, next_ptr ord3,
           order_cnt (level_at (snd m) 100), total_qty (level_at (snd m) 100))
   } = Some (Ok, Ok, Ok, 0, Null, 5, 10, True, True, Sentinel 100, 2, 15)"
proof -
  have 1: "reachable c s \<longrightarrow>
      (\<exists>q' s'. match c s sd q = Some (q', s') \<and>
         (sint q', map (level_book s') (opposite s sd (if sd = Buy then MaxPrice c else 0))) =
           sweep_fill (sint q) (map (level_book s) (opposite s sd (if sd = Buy then MaxPrice c else 0))) \<and>
         (\<forall>p. 0 \<le> p \<and> p \<le> MaxPrice c \<and>
              p \<notin> set (opposite s sd (if sd = Buy then MaxPrice c else 0)) \<longrightarrow>
              level_book s' p = level_book s p))"
  proof
    assume r: "reachable c s"
    obtain L where I: "book_inv c s L" using reachable_inv [OF r] by blast
    have v: "0 \<le> MaxPrice c" using reachable_valid [OF r] by (simp add: valid_params_def)
    have "0 \<le> (if sd = Buy then MaxPrice c else 0)" "(if sd = Buy then MaxPrice c else 0) \<le> MaxPrice c"
      using v by simp_all
    from match_internal_fifo [OF I this, of sd q]
    show "\<exists>q' s'. match c s sd q = Some (q', s') \<and>
         (sint q', map (level_book s') (opposite s sd (if sd = Buy then MaxPrice c else 0))) =
           sweep_fill (sint q) (map (level_book s) (opposite s sd (if sd = Buy then MaxPrice c else 0))) \<and>
         (\<forall>p. 0 \<le> p \<and> p \<le> MaxPrice c \<and>
              p \<notin> set (opposite s sd (if sd = Buy then MaxPrice c else 0)) \<longrightarrow>
              level_book s' p = level_book s p)"
      unfolding match_def .
  qed
  have 2: "reachable c s \<and> 0 \<le> px \<and> px \<le> MaxPrice c \<longrightarrow>
      (\<exists>q' s'. crossing c s sd px q = Some (q', s') \<and>
         (sint q', map (level_book s') (opposite s sd px)) =
           sweep_fill (sint q) (map (level_book s) (opposite s sd px)) \<and>
         (\<forall>p. 0 \<le> p \<and> p \<le> MaxPrice c \<and> p \<notin> set (opposite s sd px) \<longrightarrow>
              level_book s' p = level_book s p))"
  proof
    assume a: "reachable c s \<and> 0 \<le> px \<and> px \<le> MaxPrice c"
    then obtain L where I: "book_inv c s L" using reachable_inv by blast
    from match_internal_fifo [OF I, of px sd q] a
    show "\<exists>q' s'. crossing c s sd px q = Some (q', s') \<and>
         (sint q', map (level_book s') (opposite s sd px)) =
           sweep_fill (sint q) (map (level_book s) (opposite s sd px)) \<and>
         (\<forall>p. 0 \<le> p \<and> p \<le> MaxPrice c \<and> p \<notin> set (opposite s sd px) \<longrightarrow>
              level_book s' p = level_book s p)"
      unfolding crossing_match_internal by blast
  qed
  have 3: "reachable c s \<and> add c s i sd px q Limit tm = Some (Ok, s2) \<and>
    crossing c s sd px q = Some (q1, s1) \<and> 0 < sint q1 \<longrightarrow>
      level_book s2 px = level_book s1 px @ [(i, sint q1)]"
    using add_rest_tail [of c s i sd px q tm s2 q1 s1] by blast
  have 4: "do {
     r1 \<leftarrow> add test_params (OrderBook_init test_params) 1 Sell 100 10 Limit 0;
     r2 \<leftarrow> add test_params (snd r1) 2 Sell 100 10 Limit 0;
     r3 \<leftarrow> add test_params (snd r2) 3 Sell 100 10 Limit 0;
     m \<leftarrow> match test_params (snd r3) Buy 15;
     o1 \<leftarrow> get_order test_params (snd m) 1;
     o2 \<leftarrow> get_order test_params (snd m) 2;
     o3 \<leftarrow> get_order test_params (snd m) 3;
     ord2 \<leftarrow> deref test_params (snd m) o2;
     ord3 \<leftarrow> deref test_params (snd m) o3;
     Some (fst r1, fst r2, fst r3, fst m, o1, qty ord2, qty ord3,
           front (level_at (snd m) 100) = o2, next_ptr ord2 = o3, next_ptr ord3,
           order_cnt (level_at (snd m) 100), total_qty (level_at (snd m) 100))
   } = Some (Ok, Ok, Ok, 0, Null, 5, 10, True, True, Sentinel 100, 2, 15)"
    by (simp add: book_eval test_params_def level_at_def)
  show ?thesis by (intro conjI 1 2 3 4)
qed

theorem C3_price_time_priority_witness:
  "reachable test_params
     (book_of test_params [Add 1 Buy 1 10 Limit 0, Add 2 Buy 1 10 Limit 0, Add 3 Buy 0 10 Limit 0]) \<and>
   level_book
     (book_of test_params [Add 1 Buy 1 10 Limit 0, Add 2 Buy 1 10 Limit 0, Add 3 Buy 0 10 Limit 0]) 1 =
     [(1, 10), (2, 10)] \<and>
   level_book
     (book_of test_params [Add 1 Buy 1 10 Limit 0, Add 2 Buy 1 10 Limit 0, Add 3 Buy 0 10 Limit 0]) 0 =
     [(3, 10)] \<and>
   (\<exists>q' s'. match test_params
       (book_of test_params [Add 1 Buy 1 10 Limit 0, Add 2 Buy 1 10 Limit 0, Add 3 Buy 0 10 Limit 0])
       Sell 15 = Some (q', s') \<and>
      sint q' = 0 \<and> level_book s' 1 = [(2, 5)] \<and> level_book s' 0 = [(3, 10)])"
proof -
  let ?B = "book_of test_params [Add 1 Buy 1 10 Limit 0, Add 2 Buy 1 10 Limit 0, Add 3 Buy 0 10 Limit 0]"
  have r: "reachable test_params ?B" by (rule reachable_book_of [OF valid_test_params])
  have b: "level_book ?B 1 = [(1, 10), (2, 10)]" "level_book ?B 0 = [(3, 10)]"
    by (simp_all add: run_eval test_params_def level_eval)
  have op: "opposite ?B Sell (if Sell = Buy then MaxPrice test_params else 0) = [1, 0]"
    by (simp add: opposite_def run_eval test_params_def upto.simps)
  obtain q' s' where m: "match test_params ?B Sell 15 = Some (q', s')"
    "(sint q', map (level_book s') (opposite ?B Sell (if Sell = Buy then MaxPrice test_params else 0))) =
       sweep_fill (sint (15 :: Qty))
         (map (level_book ?B) (opposite ?B Sell (if Sell = Buy then MaxPrice test_params else 0)))"
    using C3_price_time_priority [of test_params ?B Sell 15, THEN conjunct1, THEN mp, OF r] by blast
  have "(sint q', [level_book s' 1, level_book s' 0]) = (0, [[(2, 5)], [(3, 10)]])"
    using m(2) unfolding op by (simp add: b)
  then show ?thesis using r b m(1) by simp
qed

text \<open>
  C10.  A match with a quantity that is not positive returns the quantity and the book as
  they are: the sweep loop is not entered and nothing is validated.
\<close>

theorem C10_match_nonpositive:
  "sint q \<le> 0 \<Longrightarrow> match c s aggressor q = Some (q, s)"
  by (simp add: match_def match_internal_def match_asks.simps match_bids.simps)

theorem C10_match_nonpositive_witness:
  "sint (- 5 :: Qty) \<le> 0 \<and> match test_params one_ask_book Buy (- 5) = Some (- 5, one_ask_book)
   \<and> match test_params one_ask_book Sell 0 = Some (0, one_ask_book)"
  using C10_match_nonpositive [of "- 5" test_params one_ask_book Buy]
    C10_match_nonpositive [of 0 test_params one_ask_book Sell]
  by simp

text \<open>
  C1.  No reachable state is crossed: the best bid is below the best ask, where a side without
  orders has its sentinel, \<open>NO_BID = -1\<close> for the bids and \<open>MaxPrice + 1\<close> for the asks.  The
  reachable states are the empty book and every state in which a call of \<open>add\<close>, \<open>cancel\<close>
  or \<open>match\<close> returns from a reachable state.
\<close>

theorem C1_not_crossed:
  "reachable c s \<Longrightarrow> bid s < ask s \<and> \<not> crossed c s \<and> NO_BID \<le> bid s \<and> ask s \<le> MaxPrice c + 1"
proof -
  assume "reachable c s"
  then obtain L where I: "book_inv c s L" using reachable_inv by blast
  note g = gapD [OF structD(4) [OF coreD(1) [OF invD(1) [OF I]]]]
  show ?thesis using g(1-3) by (simp add: bid_def ask_def crossed_def NO_BID_def)
qed

theorem C1_not_crossed_witness:
  "reachable test_params
     (book_of test_params [Add 1 Sell 100 10 Limit 0, Add 2 Buy 99 5 Limit 0, Add 3 Buy 100 3 Limit 0]) \<and>
   bid (book_of test_params [Add 1 Sell 100 10 Limit 0, Add 2 Buy 99 5 Limit 0, Add 3 Buy 100 3 Limit 0]) = 99 \<and>
   ask (book_of test_params [Add 1 Sell 100 10 Limit 0, Add 2 Buy 99 5 Limit 0, Add 3 Buy 100 3 Limit 0]) = 100 \<and>
   \<not> crossed test_params
     (book_of test_params [Add 1 Sell 100 10 Limit 0, Add 2 Buy 99 5 Limit 0, Add 3 Buy 100 3 Limit 0])"
proof -
  let ?B = "book_of test_params [Add 1 Sell 100 10 Limit 0, Add 2 Buy 99 5 Limit 0, Add 3 Buy 100 3 Limit 0]"
  have r: "reachable test_params ?B" by (rule reachable_book_of [OF valid_test_params])
  have "bid ?B = 99" "ask ?B = 100" by (simp_all add: run_eval test_params_def bid_def ask_def)
  then show ?thesis using C1_not_crossed [OF r] r by simp
qed

text \<open>
  C2.  An \<open>add\<close> that returns \<open>PoolExhausted\<close> from a reachable state leaves the whole state
  as it was, and with it everything the accessors show.  (When the pool is full after the
  crossing, the crossing has not filled anything: a fill of a whole order frees its slot, and a
  fill of a part of one uses up the incoming quantity.)
\<close>

theorem C2_pool_exhausted_no_change:
  "reachable c s \<Longrightarrow> add c s i sd px q t tm = Some (PoolExhausted, s') \<Longrightarrow> s' = s"
proof -
  assume r: "reachable c s" and a: "add c s i sd px q t tm = Some (PoolExhausted, s')"
  obtain L where I: "book_inv c s L" using reachable_inv [OF r] by blast
  show ?thesis
  proof (cases "\<exists>x. live c s x \<and> key s x = i")
    case True
    then show ?thesis using add_dup [OF I, of _ i sd px q t tm] a by auto
  next
    case False
    then have new: "\<forall>x. live c s x \<longrightarrow> key s x \<noteq> i" by blast
    show ?thesis
    proof (cases "0 < sint q \<and> 0 \<le> px \<and> px \<le> MaxPrice c")
      case False
      then show ?thesis using a by (auto simp: add_new [OF I new] split: if_splits)
    next
      case True
      then have v: "0 < sint q" "0 \<le> px" "px \<le> MaxPrice c" by simp_all
      show ?thesis using add_valid [OF I new v, of sd t tm] a by auto
    qed
  qed
qed

theorem C2_pool_exhausted_no_change_witness:
  "reachable small_params (book_of small_params [Add 1 Sell 5 10 Limit 0, Add 2 Buy 3 10 Limit 0]) \<and>
   add small_params (book_of small_params [Add 1 Sell 5 10 Limit 0, Add 2 Buy 3 10 Limit 0])
     3 Sell 6 1 Limit 0 =
   Some (PoolExhausted, book_of small_params [Add 1 Sell 5 10 Limit 0, Add 2 Buy 3 10 Limit 0])"
proof -
  let ?B = "book_of small_params [Add 1 Sell 5 10 Limit 0, Add 2 Buy 3 10 Limit 0]"
  have r: "reachable small_params ?B" by (rule reachable_book_of [OF valid_small_params])
  have "map_option fst (add small_params ?B 3 Sell 6 1 Limit 0) = Some PoolExhausted"
    by (simp add: run_eval small_params_def)
  then obtain s' where a: "add small_params ?B 3 Sell 6 1 Limit 0 = Some (PoolExhausted, s')"
    by auto
  show ?thesis using C2_pool_exhausted_no_change [OF r a] a r by simp
qed

text \<open>
  C4.  In every reachable state the index is consistent.  \<open>lookup\<close> (and \<open>get_order\<close>) of an
  id returns the slot of the order with that id, which is constructed in the pool and linked in
  the level of its price, when there is one, and a miss when there is none; no two orders of the
  pool have the same id.  After \<open>cancel\<close>, every other order is found as before.  The removal
  itself, \<open>remove_map\<close>, returns, after it the removed id is a miss, and every other order is
  still found: the entries that follow the vacated one are re-inserted, none is lost.
\<close>

theorem C4_index_consistent:
  "reachable c s \<Longrightarrow>
     ((\<exists>x. live c s x \<and> key s x = i \<and> (\<exists>xs. chain s (price (pay s x)) xs \<and> x \<in> set xs) \<and>
           lookup c s i = Some (Slot x) \<and> get_order c s i = Some (Slot x)) \<or>
      ((\<forall>x. live c s x \<longrightarrow> key s x \<noteq> i) \<and> lookup c s i = Some Null \<and>
       get_order c s i = Some Null)) \<and>
     (live c s x \<and> live c s y \<and> key s x = key s y \<longrightarrow> x = y) \<and>
     (cancel c s i = Some (b, s') \<and> live c s y \<and> key s y \<noteq> i \<longrightarrow>
        live c s' y \<and> key s' y = key s y \<and> lookup c s' (key s y) = Some (Slot y)) \<and>
     (live c s x \<longrightarrow>
        (\<exists>s1. remove_map c s (key s x) = Some s1 \<and> lookup c s1 (key s x) = Some Null \<and>
           (\<forall>z. live c s z \<and> z \<noteq> x \<longrightarrow> lookup c s1 (key s z) = Some (Slot z))))"
proof -
  assume r: "reachable c s"
  obtain L where I: "book_inv c s L" using reachable_inv [OF r] by blast
  note c = structD [OF coreD(1) [OF invD(1) [OF I]]]
  have 1: "(\<exists>x. live c s x \<and> key s x = i \<and> (\<exists>xs. chain s (price (pay s x)) xs \<and> x \<in> set xs) \<and>
           lookup c s i = Some (Slot x) \<and> get_order c s i = Some (Slot x)) \<or>
      ((\<forall>x. live c s x \<longrightarrow> key s x \<noteq> i) \<and> lookup c s i = Some Null \<and>
       get_order c s i = Some Null)"
  proof (cases "\<exists>x. live c s x \<and> key s x = i")
    case True
    then obtain z where z: "live c s z" "key s z = i" by blast
    have m: "z \<in> set (L (price (pay s z)))" using c(3) z(1) by (simp add: covers_def)
    note lm = levels_ok_mem [OF c(2) m]
    have "chain s (price (pay s z)) (L (price (pay s z)))"
      unfolding chain_def by (rule levels_okD(1) [OF c(2) lm(1,2)])
    then show ?thesis using z m inv_lookup_hit [OF I z] by (auto simp: get_order_def)
  next
    case False
    then have "\<forall>x. live c s x \<longrightarrow> key s x \<noteq> i" by blast
    then show ?thesis using inv_lookup_miss [OF I] by (simp add: get_order_def)
  qed
  have 2: "live c s x \<and> live c s y \<and> key s x = key s y \<longrightarrow> x = y"
    using inv_key_unique [OF I] by blast
  have 3: "cancel c s i = Some (b, s') \<and> live c s y \<and> key s y \<noteq> i \<longrightarrow>
        live c s' y \<and> key s' y = key s y \<and> lookup c s' (key s y) = Some (Slot y)"
  proof
    assume a: "cancel c s i = Some (b, s') \<and> live c s y \<and> key s y \<noteq> i"
    obtain L' where I': "book_inv c s' L'"
      using reachable_inv [OF reach_cancel [OF r]] a by blast
    have k: "live c s' y \<and> key s' y = key s y"
    proof (cases "\<exists>z. live c s z \<and> key s z = i")
      case True
      then obtain z where z: "live c s z" "key s z = i" by blast
      then have "y \<noteq> z" using a by auto
      then show ?thesis using cancel_hit [OF I z] a by (auto simp: key_def)
    next
      case False
      then have "cancel c s i = Some (False, s)" by (intro cancel_miss [OF I]) blast
      then show ?thesis using a by simp
    qed
    then show "live c s' y \<and> key s' y = key s y \<and> lookup c s' (key s y) = Some (Slot y)"
      using inv_lookup_hit [OF I', of y "key s y"] by simp
  qed
  have 4: "live c s x \<longrightarrow>
        (\<exists>s1. remove_map c s (key s x) = Some s1 \<and> lookup c s1 (key s x) = Some Null \<and>
           (\<forall>z. live c s z \<and> z \<noteq> x \<longrightarrow> lookup c s1 (key s z) = Some (Slot z)))"
  proof
    assume x: "live c s x"
    have N: "0 < MaxOrders c" by (rule valid_N [OF c(1)])
    have xM: "x \<in> {z. live c s z}" using x by simp
    obtain m' where m: "remove_map c s (key s x) = Some (s\<lparr>order_map := m'\<rparr>)"
      "table_ok c (s\<lparr>order_map := m'\<rparr>) ({z. live c s z} - {x})"
      "probe_ok c (s\<lparr>order_map := m'\<rparr>)"
      using remove_map_total [OF N c(6,7) xM] by blast
    let ?s1 = "s\<lparr>order_map := m'\<rparr>"
    have "\<forall>z \<in> {z. live c s z} - {x}. key ?s1 z \<noteq> key s x"
      using inv_key_unique [OF I _ x] by auto
    then have miss: "lookup c ?s1 (key s x) = Some Null" by (rule lookup_miss [OF N m(2)])
    have hit: "lookup c ?s1 (key s z) = Some (Slot z)" if "live c s z \<and> z \<noteq> x" for z
      by (rule lookup_hit [OF N m(2,3)]) (use that in simp_all)
    show "\<exists>s1. remove_map c s (key s x) = Some s1 \<and> lookup c s1 (key s x) = Some Null \<and>
           (\<forall>z. live c s z \<and> z \<noteq> x \<longrightarrow> lookup c s1 (key s z) = Some (Slot z))"
      using m(1) miss hit by blast
  qed
  show ?thesis by (intro conjI 1 2 3 4)
qed

theorem C4_index_consistent_witness:
  "reachable test_params
     (book_of test_params [Add 1 Sell 100 10 Limit 0, Add 1001 Sell 101 10 Limit 0]) \<and>
   get_order test_params
     (book_of test_params [Add 1 Sell 100 10 Limit 0, Add 1001 Sell 101 10 Limit 0]) 1001 = Some (Slot 1) \<and>
   get_order test_params
     (book_of test_params [Add 1 Sell 100 10 Limit 0, Add 1001 Sell 101 10 Limit 0]) 2 = Some Null \<and>
   cancel_get test_params
     (book_of test_params [Add 1 Sell 100 10 Limit 0, Add 1001 Sell 101 10 Limit 0]) 1 1001 =
     Some (True, Slot 1)"
proof -
  let ?B = "book_of test_params [Add 1 Sell 100 10 Limit 0, Add 1001 Sell 101 10 Limit 0]"
  have r: "reachable test_params ?B" by (rule reachable_book_of [OF valid_test_params])
  have g: "get_order test_params ?B 1001 = Some (Slot 1)" "get_order test_params ?B 2 = Some Null"
    by (simp_all add: run_eval test_params_def)
  have l: "live test_params ?B 1" "key ?B 1 = 1001"
    by (simp_all add: run_eval test_params_def live_def dat_def key_def pay_def payload_def)
  have "map_option fst (cancel test_params ?B 1) = Some True"
    by (simp add: run_eval test_params_def)
  then obtain s' where cn: "cancel test_params ?B 1 = Some (True, s')" by auto
  have k: "cancel test_params ?B 1 = Some (True, s') \<and> live test_params ?B 1 \<and> key ?B 1 \<noteq> 1"
    using cn l by simp
  have "live test_params s' 1 \<and> key s' 1 = key ?B 1 \<and>
    lookup test_params s' (key ?B 1) = Some (Slot 1)"
    by (rule C4_index_consistent [OF r, where i = 1 and y = 1 and b = True and s' = s' and x = 0,
          THEN conjunct2, THEN conjunct2, THEN conjunct1, THEN mp, OF k])
  then have "lookup test_params s' 1001 = Some (Slot 1)" unfolding l(2) by (rule conjunct2 [THEN conjunct2])
  then have "cancel_get test_params ?B 1 1001 = Some (True, Slot 1)"
    using cn by (simp add: cancel_get_def get_order_def)
  then show ?thesis using r g by simp
qed








text \<open>
  C8.  In a reachable state \<open>add\<close> checks in this order and returns the first failure, with the
  state as it was: \<open>DuplicateId\<close> when an order of the pool has the id, whatever quantity and
  price are; otherwise \<open>InvalidQty\<close> when the quantity is not positive, whatever the price is;
  otherwise \<open>InvalidPrice\<close> when the price is below 0 or above \<open>MaxPrice\<close>.  Every price from 0
  to \<open>MaxPrice\<close>, both ends included, passes: the call returns \<open>Ok\<close>, or \<open>PoolExhausted\<close>
  with the state as it was when the pool is full.  So, with a new id, a positive quantity and
  room in the pool, the adds at price 0 and at price \<open>MaxPrice\<close> return \<open>Ok\<close>, and those at
  \<open>-1\<close> and \<open>MaxPrice + 1\<close> return \<open>InvalidPrice\<close>.
\<close>

theorem C8_precondition_order:
  "reachable c s \<Longrightarrow>
     ((\<exists>x. live c s x \<and> key s x = i) \<longrightarrow> add c s i sd px q t tm = Some (DuplicateId, s)) \<and>
     ((\<forall>x. live c s x \<longrightarrow> key s x \<noteq> i) \<and> sint q \<le> 0 \<longrightarrow>
        add c s i sd px q t tm = Some (InvalidQty, s)) \<and>
     ((\<forall>x. live c s x \<longrightarrow> key s x \<noteq> i) \<and> 0 < sint q \<and> (px < 0 \<or> MaxPrice c < px) \<longrightarrow>
        add c s i sd px q t tm = Some (InvalidPrice, s)) \<and>
     ((\<forall>x. live c s x \<longrightarrow> key s x \<noteq> i) \<and> 0 < sint q \<and> 0 \<le> px \<and> px \<le> MaxPrice c \<longrightarrow>
        (\<exists>s'. add c s i sd px q t tm = Some (Ok, s')) \<or>
        (pool_full c s \<and> add c s i sd px q t tm = Some (PoolExhausted, s))) \<and>
     ((\<forall>x. live c s x \<longrightarrow> key s x \<noteq> i) \<and> 0 < sint q \<and> \<not> pool_full c s \<longrightarrow>
        (\<exists>s'. add c s i sd 0 q t tm = Some (Ok, s')) \<and>
        (\<exists>s'. add c s i sd (MaxPrice c) q t tm = Some (Ok, s')) \<and>
        add c s i sd (- 1) q t tm = Some (InvalidPrice, s) \<and>
        add c s i sd (MaxPrice c + 1) q t tm = Some (InvalidPrice, s))"
proof -
  assume r: "reachable c s"
  obtain L where I: "book_inv c s L" using reachable_inv [OF r] by blast
  have 1: "(\<exists>x. live c s x \<and> key s x = i) \<longrightarrow> add c s i sd px q t tm = Some (DuplicateId, s)"
    using add_dup [OF I] by blast
  have 2: "(\<forall>x. live c s x \<longrightarrow> key s x \<noteq> i) \<and> sint q \<le> 0 \<longrightarrow>
        add c s i sd px q t tm = Some (InvalidQty, s)"
    using add_new [OF I] by simp
  have 3: "(\<forall>x. live c s x \<longrightarrow> key s x \<noteq> i) \<and> 0 < sint q \<and> (px < 0 \<or> MaxPrice c < px) \<longrightarrow>
        add c s i sd px q t tm = Some (InvalidPrice, s)"
    using add_new [OF I] by auto
  have 4: "(\<forall>x. live c s x \<longrightarrow> key s x \<noteq> i) \<and> 0 < sint q \<and> 0 \<le> px \<and> px \<le> MaxPrice c \<longrightarrow>
        (\<exists>s'. add c s i sd px q t tm = Some (Ok, s')) \<or>
        (pool_full c s \<and> add c s i sd px q t tm = Some (PoolExhausted, s))"
  proof
    assume a: "(\<forall>x. live c s x \<longrightarrow> key s x \<noteq> i) \<and> 0 < sint q \<and> 0 \<le> px \<and> px \<le> MaxPrice c"
    then have v: "\<forall>x. live c s x \<longrightarrow> key s x \<noteq> i" "0 < sint q" "0 \<le> px" "px \<le> MaxPrice c"
      by simp_all
    show "(\<exists>s'. add c s i sd px q t tm = Some (Ok, s')) \<or>
        (pool_full c s \<and> add c s i sd px q t tm = Some (PoolExhausted, s))"
      using add_valid [OF I v, of sd t tm] by blast
  qed
  have m: "0 \<le> MaxPrice c" using reachable_valid [OF r] by (simp add: valid_params_def)
  have 5: "(\<forall>x. live c s x \<longrightarrow> key s x \<noteq> i) \<and> 0 < sint q \<and> \<not> pool_full c s \<longrightarrow>
        (\<exists>s'. add c s i sd 0 q t tm = Some (Ok, s')) \<and>
        (\<exists>s'. add c s i sd (MaxPrice c) q t tm = Some (Ok, s')) \<and>
        add c s i sd (- 1) q t tm = Some (InvalidPrice, s) \<and>
        add c s i sd (MaxPrice c + 1) q t tm = Some (InvalidPrice, s)"
  proof
    assume a: "(\<forall>x. live c s x \<longrightarrow> key s x \<noteq> i) \<and> 0 < sint q \<and> \<not> pool_full c s"
    then have v: "\<forall>x. live c s x \<longrightarrow> key s x \<noteq> i" "0 < sint q" by simp_all
    have lo: "\<exists>s'. add c s i sd 0 q t tm = Some (Ok, s')"
      using add_valid [OF I v _ m, of sd t tm] a by auto
    have hi: "\<exists>s'. add c s i sd (MaxPrice c) q t tm = Some (Ok, s')"
      using add_valid [OF I v m, of sd t tm] a by auto
    have b1: "add c s i sd (- 1) q t tm = Some (InvalidPrice, s)"
      using add_new [OF I v(1), of sd "- 1" q t tm] v(2) by simp
    have b2: "add c s i sd (MaxPrice c + 1) q t tm = Some (InvalidPrice, s)"
      using add_new [OF I v(1), of sd "MaxPrice c + 1" q t tm] v(2) by simp
    show "(\<exists>s'. add c s i sd 0 q t tm = Some (Ok, s')) \<and>
        (\<exists>s'. add c s i sd (MaxPrice c) q t tm = Some (Ok, s')) \<and>
        add c s i sd (- 1) q t tm = Some (InvalidPrice, s) \<and>
        add c s i sd (MaxPrice c + 1) q t tm = Some (InvalidPrice, s)"
      by (intro conjI lo hi b1 b2)
  qed
  show ?thesis by (intro conjI 1 2 3 4 5)
qed

theorem C8_precondition_order_witness:
  "reachable test_params one_ask_book \<and>
   add test_params one_ask_book 1 Buy (- 1) 0 Limit 0 = Some (DuplicateId, one_ask_book) \<and>
   add test_params one_ask_book 2 Buy (- 1) 0 Limit 0 = Some (InvalidQty, one_ask_book) \<and>
   add test_params one_ask_book 2 Buy (- 1) 5 Limit 0 = Some (InvalidPrice, one_ask_book) \<and>
   add test_params one_ask_book 2 Buy 10001 5 Limit 0 = Some (InvalidPrice, one_ask_book) \<and>
   map_option fst (add test_params one_ask_book 2 Buy 0 5 Limit 0) = Some Ok \<and>
   map_option fst (add test_params one_ask_book 2 Sell 10000 5 Limit 0) = Some Ok"
proof -
  note r = reachable_one_ask_book
  note n = reachable_new [OF r one_ask_book_facts(3)]
  have l: "\<exists>x. live test_params one_ask_book x \<and> key one_ask_book x = 1"
    by (rule exI [of _ 0])
      (simp add: one_ask_book_def book_eval test_params_def live_def dat_def key_def pay_def payload_def)
  have nf: "\<not> pool_full test_params one_ask_book"
    unfolding pool_full_def
    by (simp add: one_ask_book_def book_eval test_params_def live_def dat_def)
      (rule exI [of _ 1], simp)
  note t = C8_precondition_order [OF r]
  have 1: "add test_params one_ask_book 1 Buy (- 1) 0 Limit 0 = Some (DuplicateId, one_ask_book)"
    using t [of 1 Buy "- 1" 0 Limit 0] l by blast
  have 2: "add test_params one_ask_book 2 Buy (- 1) 0 Limit 0 = Some (InvalidQty, one_ask_book)"
    using t [of 2 Buy "- 1" 0 Limit 0] n by simp
  have 3: "add test_params one_ask_book 2 Buy (- 1) 5 Limit 0 = Some (InvalidPrice, one_ask_book)"
    using t [of 2 Buy "- 1" 5 Limit 0] n by simp
  have 4: "add test_params one_ask_book 2 Buy 10001 5 Limit 0 = Some (InvalidPrice, one_ask_book)"
    using t [of 2 Buy 10001 5 Limit 0] n by (simp add: test_params_simps)
  have 5: "\<exists>s'. add test_params one_ask_book 2 Buy 0 5 Limit 0 = Some (Ok, s')"
    using t [of 2 Buy 0 5 Limit 0] n nf by (simp add: test_params_simps)
  have 6: "\<exists>s'. add test_params one_ask_book 2 Sell 10000 5 Limit 0 = Some (Ok, s')"
    using t [of 2 Sell 10000 5 Limit 0] n nf by (simp add: test_params_simps)
  show ?thesis using r 1 2 3 4 5 6 by auto
qed

text \<open>
  C9, as the code has it.  From a reachable state, an \<open>add\<close> that returns \<open>Ok\<close> and does not cross
  (a buy below the best ask, a sell above the best bid), followed by \<open>cancel\<close> of the same id,
  gives back what was observed before: \<open>order_count\<close>, \<open>pool_used\<close>, best bid and best ask, and
  count and total quantity of every level.  The \<open>cancel\<close> returns true exactly when the order
  was of type \<open>Limit\<close>, that is, when it rested.
\<close>

theorem C9_add_cancel_roundtrip:
  "reachable c s \<Longrightarrow> (sd = Buy \<longrightarrow> px < ask s) \<Longrightarrow> (sd = Sell \<longrightarrow> bid s < px) \<Longrightarrow>
   add_cancel c s i sd px q t tm = Some (Ok, b, s2) \<Longrightarrow> 0 \<le> p \<Longrightarrow> p \<le> MaxPrice c \<Longrightarrow>
   view s2 p = view s p \<and> (b \<longleftrightarrow> t = Limit)"
proof -
  assume r: "reachable c s" and nb: "sd = Buy \<longrightarrow> px < ask s" and ns: "sd = Sell \<longrightarrow> bid s < px"
    and ac: "add_cancel c s i sd px q t tm = Some (Ok, b, s2)" and p: "0 \<le> p" "p \<le> MaxPrice c"
  obtain L where I: "book_inv c s L" using reachable_inv [OF r] by blast
  obtain s1 where ad: "add c s i sd px q t tm = Some (Ok, s1)" and cn: "cancel c s1 i = Some (b, s2)"
    using ac by (auto simp: add_cancel_def bind_eq_Some_conv)
  note v = add_Ok_valid [OF I ad]
  have cr0: "crossing c s sd px q = Some (q, s)"
    using nb ns by (cases sd) (simp_all add: crossing_def ask_def bid_def)
  obtain q1 s1' L1 where cr: "crossing c s sd px q = Some (q1, s1')"
    and sp: "sweep_post c s (if sd = Buy then best_ask s \<le> px else px \<le> best_bid s) q q1 s1' L1"
    and e1: "t = IOC \<or> t = Market \<or> sint q1 \<le> 0 \<longrightarrow> add c s i sd px q t tm = Some (Ok, s1')"
    and e2: "\<not> (t = IOC \<or> t = Market \<or> sint q1 \<le> 0) \<and> pool_full c s1' \<longrightarrow>
         s1' = s \<and> q1 = q \<and> add c s i sd px q t tm = Some (PoolExhausted, s)"
    and e3: "\<not> (t = IOC \<or> t = Market \<or> sint q1 \<le> 0) \<and> \<not> pool_full c s1' \<longrightarrow>
         (\<exists>s' x. add c s i sd px q t tm = Some (Ok, s') \<and> book_inv c s' (L1(px := L1 px @ [x])) \<and>
           rest_post c s1' (Order_new i px q1 sd t tm) s' x)"
    using add_valid [OF I v, of sd t tm] by blast
  have eq: "q1 = q" "s1' = s" using cr cr0 by simp_all
  have I1: "book_inv c s L1" using sweep_postD(1) [OF sp] unfolding eq .
  show ?thesis
  proof (cases "t = Limit")
    case False
    then have "t = IOC \<or> t = Market" by (cases t) simp_all
    then have "s1 = s" using e1 ad unfolding eq by auto
    then have "cancel c s i = Some (b, s2)" using cn by simp
    then have "b = False \<and> s2 = s" using cancel_miss [OF I v(1)] by simp
    then show ?thesis using False by simp
  next
    case True
    then have n: "\<not> (t = IOC \<or> t = Market \<or> sint q1 \<le> 0)" using v(2) unfolding eq by simp
    have "\<not> pool_full c s" using e2 n ad unfolding eq by auto
    then obtain s' x where s': "add c s i sd px q t tm = Some (Ok, s')"
      "book_inv c s' (L1(px := L1 px @ [x]))" "rest_post c s (Order_new i px q sd t tm) s' x"
      using e3 n unfolding eq by blast
    have se: "s' = s1" using s'(1) ad by simp
    note I' = s'(2) [unfolded se]
    note rp = s'(3) [unfolded rest_post_def se]
    have nx: "\<not> live c s x" using rp by simp
    have lx: "live c s1 x" using rp by simp
    have l1: "live c s1 y \<longleftrightarrow> live c s y \<or> y = x" for y using rp by simp
    have p1: "pay s1 = (pay s)(x := payload (Order_new i px q sd t tm))" using rp by simp
    have kx: "key s1 x = i" by (simp add: key_def p1 payload_def Order_new_def)
    have prx: "price (pay s1 x) = px" by (simp add: p1 payload_def Order_new_def)
    obtain s2' where h: "cancel c s1 i = Some (True, s2')"
      "book_inv c s2' ((L1(px := L1 px @ [x]))(price (pay s1 x) :=
         remove1 x ((L1(px := L1 px @ [x])) (price (pay s1 x)))))"
      "\<forall>y. live c s2' y \<longleftrightarrow> live c s1 y \<and> y \<noteq> x" "\<forall>y. y \<noteq> x \<longrightarrow> pay s2' y = pay s1 y"
      using cancel_hit [OF I' lx kx] by blast
    have e: "s2' = s2" "b = True" using h(1) cn by simp_all
    have "x \<notin> set (L1 px)"
      using levels_ok_mem(3) [OF structD(2) [OF coreD(1) [OF invD(1) [OF I1]]], of x px] nx by blast
    then have Le: "(L1(px := L1 px @ [x]))(price (pay s1 x) :=
         remove1 x ((L1(px := L1 px @ [x])) (price (pay s1 x)))) = L1"
      by (simp add: prx remove1_append fun_eq_iff)
    have I2: "book_inv c s2 L1" using h(2) unfolding Le e .
    have lv: "live c s2 y \<longleftrightarrow> live c s y" for y
      using h(3) nx unfolding e by (auto simp: l1)
    have py: "pay s2 y = pay s y" if "live c s y" for y
    proof -
      have "y \<noteq> x" using that nx by auto
      then show ?thesis using h(4) unfolding e by (simp add: p1)
    qed
    have "view s2 p = view s p" by (rule view_determined [OF I1 I2 lv py p])
    then show ?thesis using True e(2) by simp
  qed
qed

theorem C9_add_cancel_roundtrip_witness:
  "reachable test_params one_ask_book \<and>
   add_cancel_view test_params one_ask_book 2 Buy 3 5 Limit 0 3 =
     Some (Ok, True, view one_ask_book 3) \<and>
   add_cancel_view test_params one_ask_book 2 Buy 3 5 Limit 0 100 =
     Some (Ok, True, view one_ask_book 100)"
proof -
  note r = reachable_one_ask_book
  have "map_option fst (add_cancel test_params one_ask_book 2 Buy 3 5 Limit 0) = Some Ok"
    by (simp add: add_cancel_def one_ask_book_def book_eval test_params_def)
  then obtain b s2 where ac: "add_cancel test_params one_ask_book 2 Buy 3 5 Limit 0 = Some (Ok, b, s2)"
    by auto
  have n: "Buy = Buy \<longrightarrow> 3 < ask one_ask_book" "Buy = Sell \<longrightarrow> bid one_ask_book < 3"
    by (simp_all add: ask_def one_ask_book_facts)
  have "view s2 3 = view one_ask_book 3" "view s2 100 = view one_ask_book 100" "b"
    using C9_add_cancel_roundtrip [OF r n ac, of 3] C9_add_cancel_roundtrip [OF r n ac, of 100]
    by (simp_all add: test_params_simps)
  then show ?thesis using r ac by (simp add: add_cancel_view_def)
qed

text \<open>
  C9, as the specification words it, fails for an \<open>add\<close> that crosses: with asks of 10 at 100 and at
  101, a limit buy of 15 at 100 returns \<open>Ok\<close>, fills the order at 100 and rests with 5; the
  \<open>cancel\<close> of it returns true, and one order is left where there were two, the best ask is
  101, and the level at 100 is empty.
\<close>

theorem C9_counterexample:
  "add_cancel_view test_params
     (book_of test_params [Add 1 Sell 100 10 Limit 0, Add 3 Sell 101 10 Limit 0])
     2 Buy 100 15 Limit 0 100 = Some (Ok, True, 1, 1, - 1, 101, 0, 0) \<and>
   view (book_of test_params [Add 1 Sell 100 10 Limit 0, Add 3 Sell 101 10 Limit 0]) 100 =
     (2, 2, - 1, 100, 1, 10)"
  by (simp add: add_cancel_view_def add_cancel_def view_def bid_def ask_def level_at_def
      run_eval test_params_def)

end
